(* ===== verification/Prelude.thy ===== *)
theory Prelude
  imports Main "HOL-Library.Word"
begin

text \<open>
  What the component theories share: the names of the machine types of the C sources, the error
  numbers of \<^verbatim>\<open>src/include/kerrno.h\<close>, the result type of fallible kernel calls, the
  collections of simplification rules the component proofs draw on, and the generic lemmas on lists,
  bits and counted loops that more than one component uses.
\<close>

unbundle bit_operations_syntax

section \<open>Machine types\<close>

type_synonym u8 = "8 word"
type_synonym u16 = "16 word"
type_synonym u32 = "32 word"
type_synonym u64 = "64 word"

text \<open>
  Sizes, frame numbers and addresses are \<^typ>\<open>nat\<close> where the code keeps them far from the
  limits of a 64-bit word (the component says why), and words where the wrap-around is part of the
  behaviour.
\<close>

abbreviation PAGE_SIZE :: nat where "PAGE_SIZE \<equiv> 4096"

section \<open>Error numbers\<close>

datatype errno =
    EPERM | ENOENT | ESRCH | EINTR | E2BIG | EIO | EBADF | ECHILD | ENOMEM | EACCES | EFAULT
  | EBUSY | EEXIST | ENODEV | ENOTDIR | EXDEV | EISDIR | EINVAL | EMFILE | ENOTTY | ETXTBSY
  | EFBIG | ENOSPC | ESPIPE | EROFS | EPIPE | EMLINK | ENAMETOOLONG | ELOOP | ENOSYS | EMSGSIZE
  | EADDRINUSE | ENETDOWN | ENETUNREACH | ECONNRESET | EISCONN | ENOTCONN | EOPNOTSUPP | ENXIO
  | ETIMEDOUT | ECONNREFUSED | EHOSTUNREACH | ENOTEMPTY | EAGAIN

primrec errno_code :: "errno \<Rightarrow> int" where
  "errno_code EPERM = 1"
| "errno_code ENOENT = 2"
| "errno_code ESRCH = 3"
| "errno_code EINTR = 4"
| "errno_code E2BIG = 7"
| "errno_code EIO = 5"
| "errno_code EBADF = 9"
| "errno_code ECHILD = 10"
| "errno_code ENOMEM = 12"
| "errno_code EACCES = 13"
| "errno_code EFAULT = 14"
| "errno_code EBUSY = 16"
| "errno_code EEXIST = 17"
| "errno_code ENODEV = 19"
| "errno_code ENOTDIR = 20"
| "errno_code EXDEV = 18"
| "errno_code EISDIR = 21"
| "errno_code EINVAL = 22"
| "errno_code EMFILE = 24"
| "errno_code ENOTTY = 25"
| "errno_code ETXTBSY = 26"
| "errno_code EFBIG = 27"
| "errno_code ENOSPC = 28"
| "errno_code ESPIPE = 29"
| "errno_code EROFS = 30"
| "errno_code EPIPE = 32"
| "errno_code EMLINK = 31"
| "errno_code ENAMETOOLONG = 36"
| "errno_code ELOOP = 40"
| "errno_code ENOSYS = 38"
| "errno_code EMSGSIZE = 90"
| "errno_code EADDRINUSE = 98"
| "errno_code ENETDOWN = 100"
| "errno_code ENETUNREACH = 101"
| "errno_code ECONNRESET = 104"
| "errno_code EISCONN = 106"
| "errno_code ENOTCONN = 107"
| "errno_code EOPNOTSUPP = 95"
| "errno_code ENXIO = 6"
| "errno_code ETIMEDOUT = 110"
| "errno_code ECONNREFUSED = 111"
| "errno_code EHOSTUNREACH = 113"
| "errno_code ENOTEMPTY = 39"
| "errno_code EAGAIN = 11"

text \<open>
  A kernel call that returns a count, a descriptor or a negated error number is a value of the sum
  type \<open>errno + 'a\<close>; \<open>kresult\<close> is the signed integer the C function returns for it.
\<close>

definition kresult :: "errno + nat \<Rightarrow> int" where
  "kresult r = (case r of Inl e \<Rightarrow> - errno_code e | Inr n \<Rightarrow> int n)"

text \<open>No two error numbers share a code, and none looks like success: a caller can always tell what happened.\<close>

lemma errno_code_pos: "0 < errno_code e"
  by (cases e) simp_all

fun errno_of :: "int \<Rightarrow> errno list \<Rightarrow> errno option" where
  "errno_of n [] = None"
| "errno_of n (e # es) = (if errno_code e = n then Some e else errno_of n es)"

definition all_errnos :: "errno list" where
  "all_errnos = [EPERM, ENOENT, ESRCH, EINTR, E2BIG, EIO, EBADF, ECHILD, ENOMEM, EACCES, EFAULT,
     EBUSY, EEXIST, ENODEV, ENOTDIR, EXDEV, EISDIR, EINVAL, EMFILE, ENOTTY, ETXTBSY,
     EFBIG, ENOSPC, ESPIPE, EROFS, EPIPE, EMLINK, ENAMETOOLONG, ELOOP, ENOSYS, EMSGSIZE,
     EADDRINUSE, ENETDOWN, ENETUNREACH, ECONNRESET, EISCONN, ENOTCONN, EOPNOTSUPP, ENXIO,
     ETIMEDOUT, ECONNREFUSED, EHOSTUNREACH, ENOTEMPTY, EAGAIN]"

lemma errno_of_code: "errno_of (errno_code e) all_errnos = Some e"
  by (cases e) (simp_all add: all_errnos_def)

lemma inj_errno_code: "inj errno_code"
proof (rule injI)
  fix x y assume "errno_code x = errno_code y"
  then have "Some x = Some y" by (metis errno_of_code)
  then show "x = y" by simp
qed

lemma kresult_eq_iff: "kresult r = kresult r' \<longleftrightarrow> r = r'"
proof (cases r; cases r')
  fix e n assume "r = Inl e" "r' = Inr n"
  then show ?thesis using errno_code_pos [of e] by (simp add: kresult_def)
next
  fix n e assume "r = Inr n" "r' = Inl e"
  then show ?thesis using errno_code_pos [of e] by (simp add: kresult_def)
qed (auto simp: kresult_def dest: injD [OF inj_errno_code])

section \<open>Collections of rules\<close>

named_theorems ring_simps \<open>rules on positions in a ring buffer\<close>
named_theorems frame_simps \<open>frame conditions: what an operation leaves alone\<close>

section \<open>Bits of a word\<close>

lemma and_push_bit_one_eq_0_iff:
  fixes w :: "'a::len word"
  shows "w AND push_bit n 1 = 0 \<longleftrightarrow> \<not> bit w n"
  by (simp add: bit_iff_and_push_bit_not_eq_0)

lemma bit_or_push_bit_one:
  fixes w :: "'a::len word"
  shows "n < LENGTH('a) \<Longrightarrow> bit (w OR push_bit n 1) m \<longleftrightarrow> bit w m \<or> m = n"
  by (auto simp: bit_or_iff bit_exp_iff)

lemma bit_and_not_push_bit_one:
  fixes w :: "'a::len word"
  shows "bit (w AND NOT (push_bit n 1)) m \<longleftrightarrow> bit w m \<and> m \<noteq> n"
  by (auto simp: bit_and_iff bit_not_iff bit_exp_iff dest: bit_imp_le_length)

section \<open>Lists\<close>

lemma nth_list_update_if:
  "i < length xs \<Longrightarrow> xs[i := x] ! j = (if i = j then x else xs ! j)"
  by simp

lemma take_append_exact: "length xs = n \<Longrightarrow> take n (xs @ ys) = xs"
  by simp

lemma drop_append_exact: "length xs = n \<Longrightarrow> drop n (xs @ ys) = ys"
  by simp

end
