(* ===== verification/Bitset.thy ===== *)
theory Bitset
  imports Prelude
begin

text \<open>
  The interface between an allocator and the table of bits it keeps: testing, setting and clearing
  the bit of one index. The frame allocator is its client (theory \<open>Pmm\<close>), with a
  table of bytes as the provider; the laws below are all it relies on.
\<close>

locale bitset =
  fixes test :: "'b \<Rightarrow> nat \<Rightarrow> bool"
    and set_bit_at :: "'b \<Rightarrow> nat \<Rightarrow> 'b"
    and clear_bit_at :: "'b \<Rightarrow> nat \<Rightarrow> 'b"
    and covers :: "'b \<Rightarrow> nat \<Rightarrow> bool"
  assumes test_set: "covers b i \<Longrightarrow> test (set_bit_at b i) j \<longleftrightarrow> j = i \<or> test b j"
    and test_clear: "covers b i \<Longrightarrow> test (clear_bit_at b i) j \<longleftrightarrow> j \<noteq> i \<and> test b j"
    and covers_set: "covers (set_bit_at b i) j \<longleftrightarrow> covers b j"
    and covers_clear: "covers (clear_bit_at b i) j \<longleftrightarrow> covers b j"
begin

text \<open>The indices below \<open>n\<close> whose bit is clear: what the table says is free.\<close>

definition zeros :: "'b \<Rightarrow> nat \<Rightarrow> nat set" where
  "zeros b n = {i. i < n \<and> \<not> test b i}"

lemma finite_zeros [simp]: "finite (zeros b n)"
  by (simp add: zeros_def)

lemma card_zeros_le: "card (zeros b n) \<le> n"
proof -
  have "zeros b n \<subseteq> {..<n}" by (auto simp: zeros_def)
  then have "card (zeros b n) \<le> card {..<n}" by (intro card_mono) auto
  then show ?thesis by simp
qed

text \<open>The number of clear bits as a list computation, for evaluating concrete tables.\<close>

lemma card_zeros_filter: "card (zeros b n) = length (filter (\<lambda>i. \<not> test b i) [0..<n])"
proof -
  have "zeros b n = set (filter (\<lambda>i. \<not> test b i) [0..<n])" by (auto simp: zeros_def)
  then show ?thesis by (simp add: distinct_card del: set_filter)
qed

lemma zeros_set: "covers b i \<Longrightarrow> zeros (set_bit_at b i) n = zeros b n - {i}"
  by (auto simp: zeros_def test_set)

lemma zeros_clear: "covers b i \<Longrightarrow> i < n \<Longrightarrow> zeros (clear_bit_at b i) n = insert i (zeros b n)"
  by (auto simp: zeros_def test_clear)

lemma card_zeros_set:
  "covers b i \<Longrightarrow> i < n \<Longrightarrow> \<not> test b i \<Longrightarrow> card (zeros b n) = Suc (card (zeros (set_bit_at b i) n))"
proof -
  assume "covers b i" "i < n" "\<not> test b i"
  then have "i \<in> zeros b n" by (simp add: zeros_def)
  then show ?thesis
    using \<open>covers b i\<close> card_Suc_Diff1 [of "zeros b n" i] by (simp add: zeros_set)
qed

lemma card_zeros_clear:
  "covers b i \<Longrightarrow> i < n \<Longrightarrow> test b i \<Longrightarrow> card (zeros (clear_bit_at b i) n) = Suc (card (zeros b n))"
  by (simp add: zeros_clear) (simp add: zeros_def)

text \<open>Setting every bit of a run, in order.\<close>

lemma covers_fold_set: "covers (foldl set_bit_at b is) j \<longleftrightarrow> covers b j"
  by (induction "is" arbitrary: b) (auto simp: covers_set)

lemma test_fold_set:
  "(\<And>i. i \<in> set is \<Longrightarrow> covers b i) \<Longrightarrow> test (foldl set_bit_at b is) j \<longleftrightarrow> j \<in> set is \<or> test b j"
proof (induction "is" arbitrary: b)
  case Nil
  then show ?case by simp
next
  case (Cons i "is")
  have "test (foldl set_bit_at (set_bit_at b i) is) j \<longleftrightarrow> j \<in> set is \<or> test (set_bit_at b i) j"
    by (rule Cons.IH) (simp add: covers_set Cons.prems)
  moreover have "covers b i" by (simp add: Cons.prems)
  ultimately show ?case by (auto simp: test_set)
qed

lemma zeros_fold_set:
  "(\<And>i. i \<in> set is \<Longrightarrow> covers b i) \<Longrightarrow> zeros (foldl set_bit_at b is) n = zeros b n - set is"
  by (auto simp: zeros_def test_fold_set)

end

end
