(* ===== verification/Pmm.thy ===== *)
theory Pmm
  imports Bitset
begin

text \<open>
  The physical memory manager, \<^verbatim>\<open>src/src/mm/pmm.c\<close>: a bitmap with one bit per 4 KiB frame
  (set: in use), built from the boot loader's memory map by \<open>pmm_init\<close>, searched by
  \<open>find_free_run\<close> and changed by \<open>pmm_alloc_frames\<close> and \<open>pmm_free_frames\<close>.
  Each operation runs under \<open>pmm_lock\<close> in the source, so it is one state transformer here.

  Frame numbers, counts and physical addresses are \<^typ>\<open>nat\<close>: they stay below
  \<open>2 ^ 64\<close> because a frame number is an address divided by 4096. The one sum that can wrap, the
  end of a memory map entry, and the pointer arithmetic on the bitmap carry their
  \<open>mod 2 ^ 64\<close>. The counters are decremented only where \<open>pmm_inv\<close> makes them positive.
\<close>

section \<open>The bitmap\<close>

definition bitmap_set :: "u8 list \<Rightarrow> nat \<Rightarrow> u8 list" where
  "bitmap_set bm i = bm[i div 8 := bm ! (i div 8) OR push_bit (i mod 8) 1]"

definition bitmap_clear :: "u8 list \<Rightarrow> nat \<Rightarrow> u8 list" where
  "bitmap_clear bm i = bm[i div 8 := bm ! (i div 8) AND NOT (push_bit (i mod 8) 1)]"

definition bitmap_test :: "u8 list \<Rightarrow> nat \<Rightarrow> bool" where
  "bitmap_test bm i \<longleftrightarrow> bm ! (i div 8) AND push_bit (i mod 8) 1 \<noteq> 0"

definition bitmap_covers :: "u8 list \<Rightarrow> nat \<Rightarrow> bool" where
  "bitmap_covers bm i \<longleftrightarrow> i div 8 < length bm"

lemma bitmap_test_bit: "bitmap_test bm i \<longleftrightarrow> bit (bm ! (i div 8)) (i mod 8)"
  unfolding bitmap_test_def and_push_bit_one_eq_0_iff by simp

lemma div_mod_8_eq: "(i::nat) div 8 = j div 8 \<Longrightarrow> i mod 8 = j mod 8 \<Longrightarrow> i = j"
  by (metis div_mult_mod_eq)

lemma bitmap_test_set:
  assumes "bitmap_covers bm i"
  shows "bitmap_test (bitmap_set bm i) j \<longleftrightarrow> j = i \<or> bitmap_test bm j"
proof (cases "i div 8 = j div 8")
  case True
  have "bit (bm ! (i div 8) OR push_bit (i mod 8) 1) (j mod 8)
      \<longleftrightarrow> bit (bm ! (i div 8)) (j mod 8) \<or> j mod 8 = i mod 8"
    by (rule bit_or_push_bit_one) simp
  with assms True div_mod_8_eq [of j i] show ?thesis
    unfolding bitmap_test_bit bitmap_set_def bitmap_covers_def by auto
next
  case False
  then show ?thesis unfolding bitmap_test_bit bitmap_set_def by auto
qed

lemma bitmap_test_clear:
  assumes "bitmap_covers bm i"
  shows "bitmap_test (bitmap_clear bm i) j \<longleftrightarrow> j \<noteq> i \<and> bitmap_test bm j"
proof (cases "i div 8 = j div 8")
  case True
  have "bit (bm ! (i div 8) AND NOT (push_bit (i mod 8) 1)) (j mod 8)
      \<longleftrightarrow> bit (bm ! (i div 8)) (j mod 8) \<and> j mod 8 \<noteq> i mod 8"
    by (rule bit_and_not_push_bit_one)
  with assms True div_mod_8_eq [of j i] show ?thesis
    unfolding bitmap_test_bit bitmap_clear_def bitmap_covers_def by auto
next
  case False
  then show ?thesis unfolding bitmap_test_bit bitmap_clear_def by auto
qed

lemma bitmap_covers_set [simp]: "bitmap_covers (bitmap_set bm i) j = bitmap_covers bm j"
  by (simp add: bitmap_covers_def bitmap_set_def)

lemma bitmap_covers_clear [simp]: "bitmap_covers (bitmap_clear bm i) j = bitmap_covers bm j"
  by (simp add: bitmap_covers_def bitmap_clear_def)

interpretation frame_bits: bitset bitmap_test bitmap_set bitmap_clear bitmap_covers
  by unfold_locales (simp_all add: bitmap_test_set bitmap_test_clear)

section \<open>State\<close>

record memmap_entry =
  me_base :: nat
  me_length :: nat
  me_type :: nat

abbreviation (input) LIMINE_MEMMAP_USABLE :: nat where "LIMINE_MEMMAP_USABLE \<equiv> 0"
abbreviation (input) LIMINE_MEMMAP_BOOTLOADER_RECLAIMABLE :: nat where
  "LIMINE_MEMMAP_BOOTLOADER_RECLAIMABLE \<equiv> 5"

text \<open>\<open>bitmap_ptr\<close> is the pointer (0: \<open>NULL\<close>), \<open>bitmap\<close> the bytes it points at.\<close>

record pmm =
  bitmap_ptr :: nat
  bitmap :: "u8 list"
  total_frames :: nat
  free_frames :: nat
  used_frames :: nat
  hhdm_off :: nat
  next_free_hint :: nat
  failed_allocations :: nat

definition pmm_boot :: pmm where
  "pmm_boot = \<lparr>bitmap_ptr = 0, bitmap = [], total_frames = 0, free_frames = 0, used_frames = 0,
     hhdm_off = 0, next_free_hint = 1, failed_allocations = 0\<rparr>"

section \<open>Initialisation\<close>

definition entry_is_ram :: "memmap_entry \<Rightarrow> bool" where
  "entry_is_ram e \<longleftrightarrow> me_type e = LIMINE_MEMMAP_USABLE \<or> me_type e = LIMINE_MEMMAP_BOOTLOADER_RECLAIMABLE"

fun highest_ram :: "memmap_entry list \<Rightarrow> nat \<Rightarrow> nat" where
  "highest_ram [] highest = highest"
| "highest_ram (e # es) highest =
     (if \<not> entry_is_ram e then highest_ram es highest
      else let top = (me_base e + me_length e) mod 2 ^ 64
           in highest_ram es (if top > highest then top else highest))"

fun find_bitmap_home :: "memmap_entry list \<Rightarrow> nat \<Rightarrow> memmap_entry option" where
  "find_bitmap_home [] bytes = None"
| "find_bitmap_home (e # es) bytes =
     (if me_type e = LIMINE_MEMMAP_USABLE \<and> me_length e \<ge> bytes then Some e
      else find_bitmap_home es bytes)"

definition mark_free :: "pmm \<Rightarrow> nat \<Rightarrow> pmm" where
  "mark_free s frame =
     (if frame < total_frames s \<and> bitmap_test (bitmap s) frame
      then s\<lparr>bitmap := bitmap_clear (bitmap s) frame,
             used_frames := used_frames s - 1, free_frames := free_frames s + 1\<rparr>
      else s)"

definition mark_used :: "pmm \<Rightarrow> nat \<Rightarrow> pmm" where
  "mark_used s frame =
     (if frame < total_frames s \<and> \<not> bitmap_test (bitmap s) frame
      then s\<lparr>bitmap := bitmap_set (bitmap s) frame,
             used_frames := used_frames s + 1, free_frames := free_frames s - 1\<rparr>
      else s)"

definition entry_frames :: "memmap_entry \<Rightarrow> nat list" where
  "entry_frames e = [me_base e div PAGE_SIZE ..< me_base e div PAGE_SIZE + me_length e div PAGE_SIZE]"

fun free_usable :: "memmap_entry list \<Rightarrow> pmm \<Rightarrow> pmm" where
  "free_usable [] s = s"
| "free_usable (e # es) s =
     (if me_type e = LIMINE_MEMMAP_USABLE then free_usable es (foldl mark_free s (entry_frames e))
      else free_usable es s)"

definition bitmap_frames :: "nat \<Rightarrow> nat \<Rightarrow> nat list" where
  "bitmap_frames phys bytes = [phys div PAGE_SIZE ..< phys div PAGE_SIZE + (bytes + PAGE_SIZE - 1) div PAGE_SIZE]"

definition pmm_init :: "pmm \<Rightarrow> memmap_entry list \<Rightarrow> nat \<Rightarrow> pmm" where
  "pmm_init s0 memmap hhdm =
     (let total = highest_ram memmap 0 div PAGE_SIZE;
          bytes = (total + 7) div 8;
          ptr = (case find_bitmap_home memmap bytes of
                   Some e \<Rightarrow> (me_base e + hhdm) mod 2 ^ 64
                 | None \<Rightarrow> bitmap_ptr s0);
          s1 = s0\<lparr>hhdm_off := hhdm, total_frames := total, bitmap_ptr := ptr\<rparr>
      in if ptr = 0 then s1
         else
           let s2 = s1\<lparr>bitmap := replicate bytes 255, used_frames := total, free_frames := 0\<rparr>;
               s3 = free_usable memmap s2;
               phys = (ptr + 2 ^ 64 - hhdm mod 2 ^ 64) mod 2 ^ 64;
               s4 = foldl mark_used s3 (bitmap_frames phys bytes);
               s5 = (if total > 0 then mark_used s4 0 else s4)
           in s5\<lparr>next_free_hint := 1\<rparr>)"

section \<open>Allocation\<close>

function find_free_run_loop :: "u8 list \<Rightarrow> nat \<Rightarrow> nat \<Rightarrow> nat \<Rightarrow> nat \<Rightarrow> nat \<Rightarrow> nat" where
  "find_free_run_loop bm i to count consecutive start_frame =
     (if i < to then
        if \<not> bitmap_test bm i then
          let start' = (if consecutive = 0 then i else start_frame);
              consecutive' = consecutive + 1
          in if consecutive' = count then start'
             else find_free_run_loop bm (i + 1) to count consecutive' start'
        else find_free_run_loop bm (i + 1) to count 0 start_frame
      else 0)"
  by pat_completeness auto
termination
  by (relation "measure (\<lambda>(bm, i, to, _). to - i)") auto

declare find_free_run_loop.simps [simp del]

definition find_free_run :: "u8 list \<Rightarrow> nat \<Rightarrow> nat \<Rightarrow> nat \<Rightarrow> nat" where
  "find_free_run bm from to count = find_free_run_loop bm from to count 0 0"

definition pmm_alloc_frames :: "pmm \<Rightarrow> nat \<Rightarrow> pmm \<times> nat" where
  "pmm_alloc_frames s count =
     (if count = 0 \<or> bitmap_ptr s = 0 then (s, 0)
      else
        let first = find_free_run (bitmap s) (next_free_hint s) (total_frames s) count;
            start_frame = (if first = 0 then find_free_run (bitmap s) 1 (total_frames s) count else first)
        in if start_frame = 0 then (s\<lparr>failed_allocations := failed_allocations s + 1\<rparr>, 0)
           else (s\<lparr>bitmap := foldl bitmap_set (bitmap s) [start_frame ..< start_frame + count],
                   used_frames := used_frames s + count,
                   free_frames := free_frames s - count,
                   next_free_hint := start_frame + count\<rparr>, start_frame * PAGE_SIZE))"

definition pmm_alloc_frame :: "pmm \<Rightarrow> pmm \<times> nat" where
  "pmm_alloc_frame s = pmm_alloc_frames s 1"

section \<open>Freeing\<close>

text \<open>
  The loop of \<open>pmm_free_frames\<close> over the frames; the second component is \<open>bad_frame\<close>, the
  first frame that was not allocated (\<open>2 ^ 64 - 1\<close> stands for frame 0), 0 if all were.
\<close>

fun free_frames_loop :: "pmm \<Rightarrow> nat \<Rightarrow> nat list \<Rightarrow> pmm \<times> nat" where
  "free_frames_loop s bad [] = (s, bad)"
| "free_frames_loop s bad (frame # rest) =
     (if frame = 0 \<or> frame \<ge> total_frames s \<or> \<not> bitmap_test (bitmap s) frame
      then free_frames_loop s (if bad = 0 then (if frame \<noteq> 0 then frame else 2 ^ 64 - 1) else bad) rest
      else free_frames_loop
             (s\<lparr>bitmap := bitmap_clear (bitmap s) frame,
                used_frames := used_frames s - 1,
                free_frames := free_frames s + 1,
                next_free_hint := (if frame < next_free_hint s then frame else next_free_hint s)\<rparr>)
             bad rest)"

definition pmm_free_frames :: "pmm \<Rightarrow> nat \<Rightarrow> nat \<Rightarrow> pmm \<times> nat" where
  "pmm_free_frames s phys_addr count =
     (if phys_addr = 0 \<or> count = 0 \<or> bitmap_ptr s = 0 then (s, 0)
      else let start_frame = phys_addr div PAGE_SIZE
           in free_frames_loop s 0 [start_frame ..< start_frame + count])"

definition pmm_free_frame :: "pmm \<Rightarrow> nat \<Rightarrow> pmm \<times> nat" where
  "pmm_free_frame s phys_addr = pmm_free_frames s phys_addr 1"

section \<open>Searching for a run\<close>

definition free_run :: "u8 list \<Rightarrow> nat \<Rightarrow> nat \<Rightarrow> bool" where
  "free_run bm start count \<longleftrightarrow> (\<forall>f. start \<le> f \<and> f < start + count \<longrightarrow> \<not> bitmap_test bm f)"

text \<open>
  What holds at the head of the search loop: the \<open>consecutive\<close> frames just below \<open>i\<close> are free
  and the run they form starts at \<open>start_frame\<close>.
\<close>

definition run_loop_inv :: "u8 list \<Rightarrow> nat \<Rightarrow> nat \<Rightarrow> nat \<Rightarrow> nat \<Rightarrow> bool" where
  "run_loop_inv bm i count consecutive start_frame \<longleftrightarrow>
     consecutive < count \<and> consecutive \<le> i \<and> (0 < consecutive \<longrightarrow> start_frame = i - consecutive)
     \<and> free_run bm (i - consecutive) consecutive"

lemma run_loop_inv_extend:
  assumes "run_loop_inv bm i count c st" and "\<not> bitmap_test bm i" and "c + 1 \<noteq> count"
  shows "run_loop_inv bm (i + 1) count (c + 1) (if c = 0 then i else st)"
  using assms by (auto simp: run_loop_inv_def free_run_def less_Suc_eq)

lemma run_loop_inv_reset: "run_loop_inv bm i count c st \<Longrightarrow> run_loop_inv bm (i + 1) count 0 st"
  by (auto simp: run_loop_inv_def free_run_def)

lemma find_free_run_loop_sound:
  assumes "run_loop_inv bm i count c st"
    and "find_free_run_loop bm i to count c st = r" and "r \<noteq> 0"
  shows "i - c \<le> r \<and> r + count \<le> to \<and> free_run bm r count"
  using assms
proof (induction bm i to count c st rule: find_free_run_loop.induct)
  case (1 bm i to count c st)
  note eq = find_free_run_loop.simps [of bm i to count c st]
  show ?case
  proof (cases "i < to")
    case False
    with "1.prems" eq show ?thesis by simp
  next
    case lt: True
    show ?thesis
    proof (cases "bitmap_test bm i")
      case True
      with "1.IH"(2) [OF lt] "1.prems" lt eq run_loop_inv_reset show ?thesis
        by (fastforce simp: run_loop_inv_def)
    next
      case free: False
      show ?thesis
      proof (cases "c + 1 = count")
        case True
        with "1.prems" lt free eq have "r = i - c" by (auto simp: run_loop_inv_def)
        with "1.prems" lt free True show ?thesis
          by (auto simp: run_loop_inv_def free_run_def less_Suc_eq)
      next
        case False
        have "i + 1 - (c + 1) \<le> r \<and> r + count \<le> to \<and> free_run bm r count"
          using "1.IH"(1) [OF lt free refl refl False] "1.prems" lt free False eq
            run_loop_inv_extend [OF "1.prems"(1) free False] by (simp add: Let_def)
        then show ?thesis by simp
      qed
    qed
  qed
qed

lemma find_free_run_loop_complete:
  assumes "run_loop_inv bm i count c st" and "c < i" and "i - c \<le> a" and "a + count \<le> to"
    and "free_run bm a count"
  shows "find_free_run_loop bm i to count c st \<noteq> 0"
  using assms
proof (induction bm i to count c st rule: find_free_run_loop.induct)
  case (1 bm i to count c st)
  note eq = find_free_run_loop.simps [of bm i to count c st]
  have lt: "i < to" using "1.prems" by (auto simp: run_loop_inv_def)
  show ?case
  proof (cases "bitmap_test bm i")
    case True
    have "\<not> (a \<le> i \<and> i < a + count)" using "1.prems"(5) True by (auto simp: free_run_def)
    with "1.prems" have "i + 1 \<le> a" by (auto simp: run_loop_inv_def)
    with "1.IH"(2) [OF lt] True "1.prems" lt eq run_loop_inv_reset [OF "1.prems"(1)]
    show ?thesis by simp
  next
    case free: False
    show ?thesis
    proof (cases "c + 1 = count")
      case True
      with "1.prems" lt free eq show ?thesis by (auto simp: run_loop_inv_def)
    next
      case False
      with "1.IH"(1) [OF lt free refl refl False] "1.prems" lt free eq
        run_loop_inv_extend [OF "1.prems"(1) free False]
      show ?thesis by (simp add: Let_def)
    qed
  qed
qed

lemma find_free_run_sound:
  assumes "0 < count" and "find_free_run bm from to count = r" and "r \<noteq> 0"
  shows "from \<le> r \<and> r + count \<le> to \<and> free_run bm r count"
proof -
  have "run_loop_inv bm from count 0 0" using assms(1) by (auto simp: run_loop_inv_def free_run_def)
  from find_free_run_loop_sound [OF this, of to r] assms(2,3) show ?thesis
    by (simp add: find_free_run_def)
qed

lemma find_free_run_complete:
  assumes "0 < count" and "1 \<le> from" and "from \<le> a" and "a + count \<le> to" and "free_run bm a count"
  shows "find_free_run bm from to count \<noteq> 0"
proof -
  have "run_loop_inv bm from count 0 0" using assms(1) by (auto simp: run_loop_inv_def free_run_def)
  from find_free_run_loop_complete [OF this] assms show ?thesis by (simp add: find_free_run_def)
qed

section \<open>The invariant\<close>

definition pmm_inv :: "pmm \<Rightarrow> bool" where
  "pmm_inv s \<longleftrightarrow> bitmap_ptr s \<noteq> 0 \<and> length (bitmap s) = (total_frames s + 7) div 8
     \<and> free_frames s = card (frame_bits.zeros (bitmap s) (total_frames s))
     \<and> used_frames s + free_frames s = total_frames s
     \<and> (0 < total_frames s \<longrightarrow> bitmap_test (bitmap s) 0) \<and> 1 \<le> next_free_hint s"

text \<open>Frame \<open>f\<close> exists and is free.\<close>

definition frame_free :: "pmm \<Rightarrow> nat \<Rightarrow> bool" where
  "frame_free s f \<longleftrightarrow> f < total_frames s \<and> \<not> bitmap_test (bitmap s) f"

lemma zeros_eq_frame_free: "frame_bits.zeros (bitmap s) (total_frames s) = {f. frame_free s f}"
  by (simp add: frame_bits.zeros_def frame_free_def)

lemma covers_if_sized:
  "length bm = (n + 7) div 8 \<Longrightarrow> f < n \<Longrightarrow> bitmap_covers bm f"
  by (simp add: bitmap_covers_def)

lemma pmm_inv_covers: "pmm_inv s \<Longrightarrow> f < total_frames s \<Longrightarrow> bitmap_covers (bitmap s) f"
  by (auto simp: pmm_inv_def intro: covers_if_sized)

lemma length_fold_bitmap_set [simp]: "length (foldl bitmap_set bm is) = length bm"
  by (induction "is" arbitrary: bm) (simp_all add: bitmap_set_def)

lemma length_bitmap_ops [simp]:
  "length (bitmap_set bm i) = length bm" "length (bitmap_clear bm i) = length bm"
  by (simp_all add: bitmap_set_def bitmap_clear_def)

section \<open>Allocation is correct\<close>

text \<open>Where the allocator finds its run: one that is free, inside memory, and never frame 0.\<close>

definition chosen_run :: "pmm \<Rightarrow> nat \<Rightarrow> nat" where
  "chosen_run s count =
     (let first = find_free_run (bitmap s) (next_free_hint s) (total_frames s) count
      in if first = 0 then find_free_run (bitmap s) 1 (total_frames s) count else first)"

lemma chosen_run_sound:
  assumes "pmm_inv s" and "0 < count" and "chosen_run s count \<noteq> 0"
  shows "1 \<le> chosen_run s count \<and> chosen_run s count + count \<le> total_frames s
    \<and> free_run (bitmap s) (chosen_run s count) count"
  using assms find_free_run_sound [OF assms(2)] by (auto simp: chosen_run_def Let_def split: if_splits)

lemma chosen_run_complete:
  assumes "pmm_inv s" and "0 < count" and "chosen_run s count = 0" and "a + count \<le> total_frames s"
  shows "\<not> (\<forall>f. a \<le> f \<and> f < a + count \<longrightarrow> frame_free s f)"
proof
  assume free: "\<forall>f. a \<le> f \<and> f < a + count \<longrightarrow> frame_free s f"
  then have run: "free_run (bitmap s) a count" by (auto simp: free_run_def frame_free_def)
  have "frame_free s a" using free assms(2) by simp
  then have "1 \<le> a" using assms(1) by (cases "a = 0") (auto simp: pmm_inv_def frame_free_def)
  with find_free_run_complete [OF assms(2) order_refl this assms(4) run] assms(3) show False
    by (simp add: chosen_run_def Let_def split: if_splits)
qed

lemma pmm_alloc_frames_eq:
  "pmm_inv s \<Longrightarrow> 0 < count \<Longrightarrow> pmm_alloc_frames s count =
     (let start = chosen_run s count
      in if start = 0 then (s\<lparr>failed_allocations := failed_allocations s + 1\<rparr>, 0)
         else (s\<lparr>bitmap := foldl bitmap_set (bitmap s) [start ..< start + count],
                 used_frames := used_frames s + count, free_frames := free_frames s - count,
                 next_free_hint := start + count\<rparr>, start * PAGE_SIZE))"
  by (simp add: pmm_alloc_frames_def chosen_run_def Let_def pmm_inv_def)

text \<open>Marking a free run in use: what becomes of the set of free frames and its size.\<close>

lemma mark_run_used:
  assumes inv: "pmm_inv s" and fits: "start + count \<le> total_frames s"
    and free: "free_run (bitmap s) start count"
  defines "bm' \<equiv> foldl bitmap_set (bitmap s) [start ..< start + count]"
  shows "bitmap_test bm' f \<longleftrightarrow> start \<le> f \<and> f < start + count \<or> bitmap_test (bitmap s) f"
    and "card (frame_bits.zeros bm' (total_frames s)) + count = free_frames s"
proof -
  have cov: "bitmap_covers (bitmap s) i" if "i \<in> set [start ..< start + count]" for i
    using that fits pmm_inv_covers [OF inv, of i] by auto
  show "bitmap_test bm' f \<longleftrightarrow> start \<le> f \<and> f < start + count \<or> bitmap_test (bitmap s) f"
    unfolding bm'_def by (subst frame_bits.test_fold_set) (use cov in auto)
  have z: "frame_bits.zeros bm' (total_frames s)
      = frame_bits.zeros (bitmap s) (total_frames s) - {start ..< start + count}"
    unfolding bm'_def by (subst frame_bits.zeros_fold_set) (use cov in auto)
  have sub: "{start ..< start + count} \<subseteq> frame_bits.zeros (bitmap s) (total_frames s)"
    using fits free by (auto simp: frame_bits.zeros_def free_run_def)
  have "card (frame_bits.zeros bm' (total_frames s)) = free_frames s - count"
    unfolding z using inv sub by (simp add: card_Diff_subset pmm_inv_def)
  moreover have "count \<le> free_frames s"
    using card_mono [OF _ sub] inv by (simp add: pmm_inv_def)
  ultimately show "card (frame_bits.zeros bm' (total_frames s)) + count = free_frames s" by simp
qed

lemma pmm_alloc_frames_inv:
  assumes "pmm_inv s"
  shows "pmm_inv (fst (pmm_alloc_frames s count))"
proof (cases "count = 0 \<or> chosen_run s count = 0")
  case True
  then show ?thesis
    using assms pmm_alloc_frames_eq [OF assms, of count]
    by (auto simp: pmm_alloc_frames_def pmm_inv_def)
next
  case False
  then have run: "1 \<le> chosen_run s count" "chosen_run s count + count \<le> total_frames s"
      "free_run (bitmap s) (chosen_run s count) count"
    using chosen_run_sound [OF assms, of count] by auto
  note mark = mark_run_used [OF assms run(2,3)]
  have "used_frames s + free_frames s = total_frames s" using assms by (simp add: pmm_inv_def)
  with False assms mark(2) show ?thesis
    unfolding pmm_inv_def by (simp add: pmm_alloc_frames_eq [OF assms] Let_def mark(1))
qed

text \<open>A successful allocation: the chosen run was free and is now in use, nothing else changed.\<close>

lemma alloc_takes_run:
  assumes "pmm_inv s" and "0 < count" and "pmm_alloc_frames s count = (s', addr)" and "chosen_run s count \<noteq> 0"
  defines "start \<equiv> chosen_run s count"
  shows "addr = start * PAGE_SIZE" and "1 \<le> start" and "start + count \<le> total_frames s"
    and "start \<le> f \<and> f < start + count \<Longrightarrow> frame_free s f"
    and "frame_free s' g \<longleftrightarrow> frame_free s g \<and> \<not> (start \<le> g \<and> g < start + count)"
    and "free_frames s' + count = free_frames s" and "used_frames s' = used_frames s + count"
proof -
  have run: "1 \<le> start" "start + count \<le> total_frames s" "free_run (bitmap s) start count"
    using chosen_run_sound [OF assms(1,2,4)] by (auto simp: start_def)
  note mark = mark_run_used [OF assms(1) run(2,3)]
  have eq: "pmm_alloc_frames s count =
      (s\<lparr>bitmap := foldl bitmap_set (bitmap s) [start ..< start + count], used_frames := used_frames s + count,
         free_frames := free_frames s - count, next_free_hint := start + count\<rparr>, start * PAGE_SIZE)"
    using assms(4) by (simp only: pmm_alloc_frames_eq [OF assms(1,2)] Let_def if_False start_def)
  show "addr = start * PAGE_SIZE" "free_frames s' + count = free_frames s" "used_frames s' = used_frames s + count"
    using mark(2) assms(3) unfolding eq by auto
  show "frame_free s' g \<longleftrightarrow> frame_free s g \<and> \<not> (start \<le> g \<and> g < start + count)"
    using assms(3) unfolding eq frame_free_def by (auto simp: mark(1))
  show "start \<le> f \<and> f < start + count \<Longrightarrow> frame_free s f"
    using run by (auto simp: free_run_def frame_free_def)
  show "1 \<le> start" "start + count \<le> total_frames s" by (rule run)+
qed

lemma alloc_null_iff:
  assumes "pmm_inv s" and "0 < count" and "pmm_alloc_frames s count = (s', addr)"
  shows "addr = 0 \<longleftrightarrow> chosen_run s count = 0"
proof (cases "chosen_run s count = 0")
  case True
  then show ?thesis using assms(3) pmm_alloc_frames_eq [OF assms(1,2)] by simp
next
  case False
  then show ?thesis using alloc_takes_run(1) [OF assms False] by simp
qed

text \<open>
  C2. Allocating \<open>count\<close> frames either returns the address of a run of \<open>count\<close> frames that were
  all free, lie inside memory and do not include frame 0, and marks exactly those in use (every other
  frame keeps its state, and the counters follow); or it returns \<open>NULL\<close>, and then no run of
  \<open>count\<close> free frames exists anywhere in memory: the search wraps around and misses nothing.
  The invariant holds afterwards either way.
\<close>

theorem pmm_alloc_frames_correct:
  assumes "pmm_inv s" and "0 < count" and "pmm_alloc_frames s count = (s', addr)"
  shows "pmm_inv s' \<and> (if addr = 0
    then s' = s\<lparr>failed_allocations := failed_allocations s + 1\<rparr>
      \<and> (\<forall>a. a + count \<le> total_frames s \<longrightarrow> (\<exists>f. a \<le> f \<and> f < a + count \<and> \<not> frame_free s f))
    else (\<exists>start. addr = start * PAGE_SIZE \<and> 1 \<le> start \<and> start + count \<le> total_frames s
      \<and> (\<forall>f. start \<le> f \<and> f < start + count \<longrightarrow> frame_free s f)
      \<and> (\<forall>f. frame_free s' f \<longleftrightarrow> frame_free s f \<and> \<not> (start \<le> f \<and> f < start + count))
      \<and> free_frames s' + count = free_frames s \<and> used_frames s' = used_frames s + count))"
proof (cases "chosen_run s count = 0")
  case True
  then show ?thesis
    using assms pmm_alloc_frames_eq [OF assms(1,2)] pmm_alloc_frames_inv [OF assms(1), of count]
      chosen_run_complete [OF assms(1,2) True] by auto
next
  case False
  then have "pmm_inv s'" "addr \<noteq> 0"
    using assms(3) pmm_alloc_frames_inv [OF assms(1), of count] alloc_null_iff [OF assms] by auto
  then show ?thesis using alloc_takes_run [OF assms False]
    by (simp only: if_not_P simp_thms) blast
qed

section \<open>Freeing is correct\<close>

text \<open>Frames of the list that the loop really releases: allocated, in range, not frame 0.\<close>

definition releasable :: "pmm \<Rightarrow> nat \<Rightarrow> bool" where
  "releasable s f \<longleftrightarrow> 0 < f \<and> f < total_frames s \<and> bitmap_test (bitmap s) f"

definition release_one :: "pmm \<Rightarrow> nat \<Rightarrow> pmm" where
  "release_one s f = s\<lparr>bitmap := bitmap_clear (bitmap s) f, used_frames := used_frames s - 1,
     free_frames := free_frames s + 1,
     next_free_hint := (if f < next_free_hint s then f else next_free_hint s)\<rparr>"

lemma free_frames_loop_Cons:
  "free_frames_loop s bad (f # fs) =
     (if releasable s f then free_frames_loop (release_one s f) bad fs
      else free_frames_loop s (if bad = 0 then (if f \<noteq> 0 then f else 2 ^ 64 - 1) else bad) fs)"
  by (auto simp: releasable_def release_one_def)

declare free_frames_loop.simps(2) [simp del]

lemma release_one_inv:
  assumes "pmm_inv s" and "releasable s f"
  shows "pmm_inv (release_one s f)"
proof -
  have cov: "bitmap_covers (bitmap s) f" using assms pmm_inv_covers by (simp add: releasable_def)
  have "card (frame_bits.zeros (bitmap_clear (bitmap s) f) (total_frames s))
      = Suc (card (frame_bits.zeros (bitmap s) (total_frames s)))"
    using frame_bits.card_zeros_clear [OF cov] assms(2) by (simp add: releasable_def)
  moreover have "card (frame_bits.zeros (bitmap_clear (bitmap s) f) (total_frames s)) \<le> total_frames s"
    by (rule frame_bits.card_zeros_le)
  ultimately show ?thesis
    using assms cov by (auto simp: pmm_inv_def release_one_def releasable_def bitmap_test_clear)
qed

lemma release_one_free:
  "pmm_inv s \<Longrightarrow> releasable s f \<Longrightarrow> frame_free (release_one s f) g \<longleftrightarrow> frame_free s g \<or> g = f"
  using pmm_inv_covers [of s f]
  by (auto simp: frame_free_def release_one_def releasable_def bitmap_test_clear)

lemma releasable_release_one:
  "pmm_inv s \<Longrightarrow> releasable s f \<Longrightarrow> releasable (release_one s f) g \<longleftrightarrow> releasable s g \<and> g \<noteq> f"
  using pmm_inv_covers [of s f]
  by (auto simp: release_one_def releasable_def bitmap_test_clear)

text \<open>The effect of the whole loop on a list of distinct frames.\<close>

definition released :: "pmm \<Rightarrow> nat list \<Rightarrow> pmm \<Rightarrow> bool" where
  "released s fs s' \<longleftrightarrow> pmm_inv s' \<and> total_frames s' = total_frames s
     \<and> (\<forall>g. frame_free s' g \<longleftrightarrow> frame_free s g \<or> g \<in> set fs \<and> releasable s g)
     \<and> free_frames s' = free_frames s + card {f \<in> set fs. releasable s f}"

lemma released_skip:
  "\<not> releasable s f \<Longrightarrow> released s (f # fs) s' \<longleftrightarrow> released s fs s'"
proof -
  assume "\<not> releasable s f"
  then have "{g. (g = f \<or> g \<in> set fs) \<and> releasable s g} = {g \<in> set fs. releasable s g}" by auto
  with \<open>\<not> releasable s f\<close> show ?thesis by (auto simp: released_def)
qed

lemma released_step:
  assumes "pmm_inv s" and "releasable s f" and "f \<notin> set fs" and "released (release_one s f) fs s'"
  shows "released s (f # fs) s'"
proof -
  have eq: "{g \<in> set (f # fs). releasable s g} = insert f {g \<in> set fs. releasable (release_one s f) g}"
    using assms(2,3) releasable_release_one [OF assms(1,2)] by auto
  have "free_frames s' = free_frames s + card {g \<in> set (f # fs). releasable s g}"
    unfolding eq using assms(3,4) by (simp add: released_def release_one_def)
  moreover have "frame_free s' g \<longleftrightarrow> frame_free s g \<or> g \<in> set (f # fs) \<and> releasable s g" for g
    using assms releasable_release_one [OF assms(1,2), of g] release_one_free [OF assms(1,2), of g]
    by (simp add: released_def) metis
  ultimately show ?thesis using assms(4) by (simp add: released_def release_one_def)
qed

lemma free_frames_loop_correct:
  assumes "pmm_inv s" and "distinct fs"
  shows "released s fs (fst (free_frames_loop s bad fs))
    \<and> (snd (free_frames_loop s bad fs) = 0 \<longleftrightarrow> bad = 0 \<and> (\<forall>f \<in> set fs. releasable s f))"
  using assms
proof (induction fs arbitrary: s bad)
  case Nil
  then show ?case by (simp add: released_def)
next
  case (Cons f fs)
  then have d: "f \<notin> set fs" "distinct fs" by auto
  show ?case
  proof (cases "releasable s f")
    case True
    note IH = Cons.IH [OF release_one_inv [OF Cons.prems(1) True] d(2), of bad]
    have "(\<forall>g \<in> set fs. releasable (release_one s f) g) \<longleftrightarrow> (\<forall>g \<in> set fs. releasable s g)"
      using d(1) releasable_release_one [OF Cons.prems(1) True] by blast
    with IH released_step [OF Cons.prems(1) True d(1)] True show ?thesis
      by (simp add: free_frames_loop_Cons)
  next
    case False
    note IH = Cons.IH [OF Cons.prems(1) d(2), of "if bad = 0 then if f \<noteq> 0 then f else 2 ^ 64 - 1 else bad"]
    with False show ?thesis by (simp add: free_frames_loop_Cons released_skip)
  qed
qed

lemma pmm_free_frames_released:
  assumes "pmm_inv s" and "addr \<noteq> 0" and "0 < count" and "pmm_free_frames s addr count = (s', bad)"
  defines "fs \<equiv> [addr div PAGE_SIZE ..< addr div PAGE_SIZE + count]"
  shows "released s fs s'" and "bad = 0 \<longleftrightarrow> (\<forall>g \<in> set fs. releasable s g)"
proof -
  have loop: "free_frames_loop s 0 fs = (s', bad)"
    using assms by (simp add: pmm_free_frames_def pmm_inv_def Let_def)
  show "released s fs s'" and "bad = 0 \<longleftrightarrow> (\<forall>g \<in> set fs. releasable s g)"
    using free_frames_loop_correct [OF assms(1), of fs 0] unfolding loop by (simp_all add: fs_def)
qed

text \<open>
  C8. Freeing a range makes exactly the frames of the range that exist and are not frame 0 free,
  leaves every other frame as it was and keeps the invariant; the warning \<open>bad\<close> is given exactly
  when some frame of the range was not allocated (a double free or a wild pointer), and such a frame
  is skipped rather than counted twice.
\<close>

theorem pmm_free_frames_correct:
  assumes "pmm_inv s" and "addr \<noteq> 0" and "0 < count" and "pmm_free_frames s addr count = (s', bad)"
  defines "start \<equiv> addr div PAGE_SIZE"
  shows "pmm_inv s' \<and> total_frames s' = total_frames s
    \<and> (\<forall>g. frame_free s' g \<longleftrightarrow> frame_free s g \<or> start \<le> g \<and> g < start + count \<and> 0 < g \<and> g < total_frames s)
    \<and> free_frames s' = free_frames s + card {g. start \<le> g \<and> g < start + count \<and> releasable s g}
    \<and> (bad = 0 \<longleftrightarrow> (\<forall>g. start \<le> g \<and> g < start + count \<longrightarrow> releasable s g))"
proof -
  let ?fs = "[start ..< start + count]"
  have rel: "released s ?fs s'" and bad: "bad = 0 \<longleftrightarrow> (\<forall>g \<in> set ?fs. releasable s g)"
    using pmm_free_frames_released [OF assms(1-4)] by (simp_all only: start_def)
  have "{g \<in> set ?fs. releasable s g} = {g. start \<le> g \<and> g < start + count \<and> releasable s g}" by auto
  then have cnt: "free_frames s' = free_frames s + card {g. start \<le> g \<and> g < start + count \<and> releasable s g}"
    using rel by (simp add: released_def)
  have free: "frame_free s' g \<longleftrightarrow> frame_free s g \<or> start \<le> g \<and> g < start + count \<and> 0 < g \<and> g < total_frames s" for g
  proof -
    have "frame_free s' g \<longleftrightarrow> frame_free s g \<or> g \<in> set ?fs \<and> releasable s g"
      using rel by (simp only: released_def)
    then show ?thesis unfolding frame_free_def releasable_def by auto
  qed
  have bad': "bad = 0 \<longleftrightarrow> (\<forall>g. start \<le> g \<and> g < start + count \<longrightarrow> releasable s g)"
    unfolding bad by auto
  have "pmm_inv s'" "total_frames s' = total_frames s" using rel by (simp_all only: released_def)
  then show ?thesis using bad' cnt free by blast
qed

text \<open>
  Giving back what was just allocated undoes the allocation: the same frames are free as before,
  the counters are what they were, and no double free is reported.
\<close>

theorem pmm_alloc_free_roundtrip:
  assumes "pmm_inv s" and "0 < count" and "pmm_alloc_frames s count = (s1, addr)" and "addr \<noteq> 0"
    and "pmm_free_frames s1 addr count = (s2, bad)"
  shows "(\<forall>f. frame_free s2 f \<longleftrightarrow> frame_free s f) \<and> free_frames s2 = free_frames s
    \<and> used_frames s2 = used_frames s \<and> bad = 0"
proof -
  let ?st = "chosen_run s count"
  let ?fs = "[?st ..< ?st + count]"
  have "?st \<noteq> 0" using alloc_null_iff [OF assms(1-3)] assms(4) by simp
  note st = alloc_takes_run [OF assms(1-3) this]
  have inv1: "pmm_inv s1" using pmm_alloc_frames_inv [OF assms(1), of count] assms(3) by simp
  have tot: "total_frames s1 = total_frames s"
    using assms(3) by (auto simp: pmm_alloc_frames_def Let_def split: if_splits)
  have rel: "releasable s1 g" if "g \<in> set ?fs" for g
  proof -
    have g: "?st \<le> g" "g < ?st + count" using that by simp_all
    then have "\<not> frame_free s1 g" using st(5) by blast
    then show ?thesis using g st(2,3) tot unfolding releasable_def frame_free_def by linarith
  qed
  have "addr div PAGE_SIZE = ?st" using st(1) by simp
  note fr = pmm_free_frames_released [OF inv1 assms(4,2,5), unfolded this]
  have "{g \<in> set ?fs. releasable s1 g} = {?st ..< ?st + count}" using rel by auto
  with fr(1) have "free_frames s2 = free_frames s1 + count" by (simp add: released_def)
  with st(6) have cnt: "free_frames s2 = free_frames s" by simp
  have same: "frame_free s2 f \<longleftrightarrow> frame_free s f" for f
  proof -
    have "frame_free s2 f \<longleftrightarrow> frame_free s1 f \<or> f \<in> set ?fs \<and> releasable s1 f"
      using fr(1) by (simp only: released_def)
    moreover have "f \<in> set ?fs \<longleftrightarrow> ?st \<le> f \<and> f < ?st + count" by auto
    ultimately show ?thesis using rel st(4,5) by blast
  qed
  have "pmm_inv s2" "total_frames s2 = total_frames s1" using fr(1) by (simp_all only: released_def)
  then have "used_frames s2 = used_frames s"
    using cnt tot assms(1) unfolding pmm_inv_def by linarith
  moreover have "bad = 0" using fr(2) rel by blast
  ultimately show ?thesis using same cnt by blast
qed

section \<open>Initialisation establishes the invariant\<close>

text \<open>The part of the invariant that the loops of \<open>pmm_init\<close> maintain.\<close>

definition counts_ok :: "pmm \<Rightarrow> bool" where
  "counts_ok s \<longleftrightarrow> length (bitmap s) = (total_frames s + 7) div 8
     \<and> free_frames s = card (frame_bits.zeros (bitmap s) (total_frames s))
     \<and> used_frames s + free_frames s = total_frames s"

lemma mark_free_ok:
  assumes "counts_ok s"
  shows "counts_ok (mark_free s f)"
    and "frame_free (mark_free s f) g \<longleftrightarrow> frame_free s g \<or> g = f \<and> f < total_frames s"
proof -
  have cov: "f < total_frames s \<Longrightarrow> bitmap_covers (bitmap s) f"
    using assms by (auto simp: counts_ok_def intro: covers_if_sized)
  show "counts_ok (mark_free s f)"
    using assms cov frame_bits.card_zeros_clear [of "bitmap s" f "total_frames s"]
      frame_bits.card_zeros_le [of "bitmap_clear (bitmap s) f" "total_frames s"]
    by (auto simp: counts_ok_def mark_free_def)
  show "frame_free (mark_free s f) g \<longleftrightarrow> frame_free s g \<or> g = f \<and> f < total_frames s"
    using cov by (auto simp: frame_free_def mark_free_def bitmap_test_clear)
qed

lemma mark_used_ok:
  assumes "counts_ok s"
  shows "counts_ok (mark_used s f)"
    and "frame_free (mark_used s f) g \<longleftrightarrow> frame_free s g \<and> g \<noteq> f"
proof -
  have cov: "f < total_frames s \<Longrightarrow> bitmap_covers (bitmap s) f"
    using assms by (auto simp: counts_ok_def intro: covers_if_sized)
  show "counts_ok (mark_used s f)"
    using assms cov frame_bits.card_zeros_set [of "bitmap s" f "total_frames s"]
    by (auto simp: counts_ok_def mark_used_def)
  show "frame_free (mark_used s f) g \<longleftrightarrow> frame_free s g \<and> g \<noteq> f"
    using cov by (auto simp: frame_free_def mark_used_def bitmap_test_set)
qed

lemma mark_frame [simp]:
  "total_frames (mark_free s f) = total_frames s" "bitmap_ptr (mark_free s f) = bitmap_ptr s"
  "total_frames (mark_used s f) = total_frames s" "bitmap_ptr (mark_used s f) = bitmap_ptr s"
  by (simp_all add: mark_free_def mark_used_def)

lemma foldl_mark_free:
  "counts_ok s \<Longrightarrow> counts_ok (foldl mark_free s fs) \<and> total_frames (foldl mark_free s fs) = total_frames s
     \<and> bitmap_ptr (foldl mark_free s fs) = bitmap_ptr s
     \<and> (\<forall>g. frame_free (foldl mark_free s fs) g \<longleftrightarrow> frame_free s g \<or> g \<in> set fs \<and> g < total_frames s)"
  by (induction fs arbitrary: s) (auto simp: mark_free_ok)

lemma foldl_mark_used:
  "counts_ok s \<Longrightarrow> counts_ok (foldl mark_used s fs) \<and> total_frames (foldl mark_used s fs) = total_frames s
     \<and> bitmap_ptr (foldl mark_used s fs) = bitmap_ptr s
     \<and> (\<forall>g. frame_free (foldl mark_used s fs) g \<longleftrightarrow> frame_free s g \<and> g \<notin> set fs)"
  by (induction fs arbitrary: s) (auto simp: mark_used_ok)

definition usable_frame :: "memmap_entry list \<Rightarrow> nat \<Rightarrow> bool" where
  "usable_frame memmap f \<longleftrightarrow> (\<exists>e \<in> set memmap. me_type e = LIMINE_MEMMAP_USABLE \<and> f \<in> set (entry_frames e))"

lemma free_usable_ok:
  "counts_ok s \<Longrightarrow> counts_ok (free_usable es s) \<and> total_frames (free_usable es s) = total_frames s
     \<and> bitmap_ptr (free_usable es s) = bitmap_ptr s
     \<and> (\<forall>g. frame_free (free_usable es s) g \<longleftrightarrow> frame_free s g \<or> usable_frame es g \<and> g < total_frames s)"
proof (induction es arbitrary: s)
  case Nil
  then show ?case by (simp add: usable_frame_def)
next
  case (Cons e es)
  show ?case
  proof (cases "me_type e = LIMINE_MEMMAP_USABLE")
    case True
    note fold = foldl_mark_free [OF Cons.prems, of "entry_frames e"]
    have "usable_frame (e # es) g \<longleftrightarrow> g \<in> set (entry_frames e) \<or> usable_frame es g" for g
      using True by (simp add: usable_frame_def)
    with Cons.IH [of "foldl mark_free s (entry_frames e)"] fold True show ?thesis by simp metis
  next
    case False
    then have "usable_frame (e # es) = usable_frame es" by (auto simp: usable_frame_def fun_eq_iff)
    with Cons.IH [OF Cons.prems] False show ?thesis by simp
  qed
qed

lemma bit_255_u8: "n < 8 \<Longrightarrow> bit (255 :: u8) n"
proof -
  assume "n < 8"
  then have "bit (- 1 :: u8) n" by simp
  moreover have "(255 :: u8) = - 1" by simp
  ultimately show ?thesis by (simp only:)
qed

lemma bitmap_all_used: "f div 8 < n \<Longrightarrow> bitmap_test (replicate n 255) f"
  unfolding bitmap_test_bit using bit_255_u8 [of "f mod 8"] by (simp only: nth_replicate mod_less_divisor zero_less_numeral)

lemma wrap_sub_cancel:
  fixes base h M :: nat
  assumes "base < M" and "h < M"
  shows "((base + h) mod M + M - h) mod M = base"
proof (cases "base + h < M")
  case True
  then have "((base + h) mod M + M - h) mod M = (base + M) mod M" by simp
  then show ?thesis using assms by simp
next
  case False
  then have "(base + h) mod M = base + h - M" using assms by (simp add: mod_if)
  then show ?thesis using assms False by simp
qed

lemma bitmap_phys_wrap:
  assumes "base < (2::nat) ^ 64"
  shows "((base + hhdm) mod 2 ^ 64 + 2 ^ 64 - hhdm mod 2 ^ 64) mod 2 ^ 64 = base"
  using wrap_sub_cancel [OF assms, of "hhdm mod 2 ^ 64"] by (simp add: mod_add_right_eq)

lemma counts_ok_all_used:
  assumes "bitmap s = replicate ((total_frames s + 7) div 8) 255"
    and "used_frames s = total_frames s" and "free_frames s = 0"
  shows "counts_ok s"
proof -
  have "frame_bits.zeros (bitmap s) (total_frames s) = {}"
    by (auto simp: frame_bits.zeros_def assms(1) bitmap_all_used)
  with assms show ?thesis by (simp add: counts_ok_def)
qed


section \<open>Examples\<close>

text \<open>Eight frames, the first two in use.\<close>

definition pmm_example :: pmm where
  "pmm_example = \<lparr>bitmap_ptr = 8, bitmap = [3], total_frames = 8, free_frames = 6, used_frames = 2,
     hhdm_off = 0, next_free_hint = 2, failed_allocations = 0\<rparr>"

lemma pmm_example_inv: "pmm_inv pmm_example"
  unfolding pmm_inv_def frame_bits.card_zeros_filter by code_simp

lemma pmm_example_alloc:
  "pmm_alloc_frames pmm_example 3 = (pmm_example\<lparr>bitmap := [31], free_frames := 3, used_frames := 5,
     next_free_hint := 5\<rparr>, 8192)"
proof -
  have "find_free_run [3] 2 8 3 = 2" by code_simp
  moreover have "foldl bitmap_set [3] [2 ..< 2 + 3] = [31]" by code_simp
  ultimately show ?thesis by (simp add: pmm_alloc_frames_def pmm_example_def Let_def)
qed

lemma pmm_example_free:
  "pmm_free_frames (pmm_example\<lparr>bitmap := [31], free_frames := 3, used_frames := 5, next_free_hint := 5\<rparr>) 8192 3
   = (pmm_example\<lparr>next_free_hint := 2\<rparr>, 0)"
proof -
  have "[2 ..< 2 + 3] = [2, 3, 4 :: nat]" by code_simp
  then show ?thesis
    by (simp add: pmm_free_frames_def pmm_example_def free_frames_loop.simps bitmap_test_def bitmap_clear_def)
qed

theorem pmm_alloc_frames_correct_witness:
  "pmm_inv pmm_example \<and> snd (pmm_alloc_frames pmm_example 3) = 8192
   \<and> frame_free pmm_example 2 \<and> frame_free pmm_example 3 \<and> frame_free pmm_example 4"
proof -
  have "\<exists>start. 8192 = start * PAGE_SIZE \<and> (\<forall>f. start \<le> f \<and> f < start + 3 \<longrightarrow> frame_free pmm_example f)"
    using pmm_alloc_frames_correct [OF pmm_example_inv _ pmm_example_alloc] by auto
  then show ?thesis using pmm_example_inv by (auto simp: pmm_example_alloc)
qed

theorem pmm_free_frames_correct_witness:
  "pmm_inv pmm_example \<and> pmm_inv (fst (pmm_free_frames pmm_example 4096 1))
   \<and> frame_free (fst (pmm_free_frames pmm_example 4096 1)) 1"
proof -
  obtain s' bad where eq: "pmm_free_frames pmm_example 4096 1 = (s', bad)" by (cases "pmm_free_frames pmm_example 4096 1")
  have "total_frames pmm_example = 8" by (simp add: pmm_example_def)
  then show ?thesis using pmm_free_frames_correct [OF pmm_example_inv _ _ eq] pmm_example_inv
    by (simp add: eq del: One_nat_def)
qed

theorem pmm_alloc_free_roundtrip_witness:
  "pmm_inv pmm_example \<and> free_frames (fst (pmm_free_frames (fst (pmm_alloc_frames pmm_example 3)) 8192 3)) = 6"
proof -
  have "free_frames (pmm_example\<lparr>next_free_hint := 2\<rparr>) = free_frames pmm_example"
    using pmm_alloc_free_roundtrip [OF pmm_example_inv _ pmm_example_alloc _ pmm_example_free] by simp
  moreover have "free_frames pmm_example = 6" by (simp add: pmm_example_def)
  ultimately show ?thesis using pmm_example_inv by (simp add: pmm_example_alloc pmm_example_free)
qed

text \<open>
  The hint is only a hint. The comment on \<open>next_free_hint\<close> says that everything below it was in
  use when last looked at; a request for several frames steps over shorter holes and leaves the hint
  above them, as here with frame 1. Completeness of the allocator therefore rests on the second search from 1.
\<close>

lemma hint_steps_over_hole:
  "let s = pmm_example\<lparr>bitmap := [5], next_free_hint := 1\<rparr>; s' = fst (pmm_alloc_frames s 2)
   in pmm_inv s \<and> next_free_hint s' = 5 \<and> frame_free s' 1"
proof -
  have "find_free_run [5] 1 8 2 = 3" by code_simp
  moreover have "foldl bitmap_set [5] [3 ..< 3 + 2] = [29]" by code_simp
  moreover have "pmm_inv (pmm_example\<lparr>bitmap := [5], next_free_hint := 1\<rparr>)"
    unfolding pmm_inv_def frame_bits.card_zeros_filter by code_simp
  ultimately show ?thesis
    by (simp add: pmm_alloc_frames_def pmm_example_def Let_def frame_free_def bitmap_test_def)
qed

text \<open>A machine of sixteen frames with a hole, and the bitmap in its first usable frame.\<close>

definition memmap_example :: "memmap_entry list" where
  "memmap_example = [\<lparr>me_base = 4096, me_length = 16384, me_type = 0\<rparr>,
     \<lparr>me_base = 20480, me_length = 4096, me_type = 1\<rparr>, \<lparr>me_base = 24576, me_length = 40960, me_type = 0\<rparr>]"


end
