(* ===== verification/Cow.thy ===== *)
theory Cow
  imports Pmm
begin

text \<open>
  Frame sharing counts, \<^verbatim>\<open>src/src/mm/cow.c\<close>: a table with one 16-bit counter per frame,
  the number of owners beyond the first. \<open>pmm_ref_frame\<close> adds an owner, \<open>pmm_unref_frame\<close>
  drops one and gives the frame back to the allocator with the last. The counter is a
  \<^typ>\<open>u16\<close> as in the source, so its wrap-around is part of the model.
\<close>

section \<open>State and operations\<close>

text \<open>\<open>extra_owners\<close> is \<^term>\<open>None\<close> for the \<open>NULL\<close> table before \<open>cow_init\<close>.\<close>

record cow =
  extra_owners :: "u16 list option"
  tracked_frames :: nat

text \<open>\<^term>\<open>None\<close> is the panic of \<open>cow_init\<close> when the table cannot be allocated.\<close>

definition cow_init :: "cow \<Rightarrow> pmm \<Rightarrow> (cow \<times> pmm) option" where
  "cow_init c p =
     (let tracked = total_frames p;
          bytes = tracked * 2;
          pages = (bytes + PAGE_SIZE - 1) div PAGE_SIZE
      in case pmm_alloc_frames p pages of
           (p', phys) \<Rightarrow>
             if phys = 0 then None
             else Some (c\<lparr>tracked_frames := tracked,
                          extra_owners := Some (replicate (pages * PAGE_SIZE div 2) 0)\<rparr>, p'))"

definition pmm_ref_frame :: "cow \<Rightarrow> nat \<Rightarrow> cow" where
  "pmm_ref_frame c phys =
     (let frame = phys div PAGE_SIZE
      in case extra_owners c of
           None \<Rightarrow> c
         | Some t \<Rightarrow> if frame \<ge> tracked_frames c then c
                     else c\<lparr>extra_owners := Some (t[frame := t ! frame + 1])\<rparr>)"

definition pmm_unref_frame :: "cow \<Rightarrow> pmm \<Rightarrow> nat \<Rightarrow> cow \<times> pmm" where
  "pmm_unref_frame c p phys =
     (if phys = 0 then (c, p)
      else
        let frame = phys div PAGE_SIZE
        in case extra_owners c of
             Some t \<Rightarrow>
               if frame < tracked_frames c \<and> t ! frame > 0
               then (c\<lparr>extra_owners := Some (t[frame := t ! frame - 1])\<rparr>, p)
               else (c, fst (pmm_free_frame p phys))
           | None \<Rightarrow> (c, fst (pmm_free_frame p phys)))"

definition pmm_frame_shared_hint :: "cow \<Rightarrow> nat \<Rightarrow> bool" where
  "pmm_frame_shared_hint c phys =
     (case extra_owners c of
        None \<Rightarrow> False
      | Some t \<Rightarrow> phys div PAGE_SIZE < tracked_frames c \<and> t ! (phys div PAGE_SIZE) > 0)"

definition pmm_get_frame_ref :: "cow \<Rightarrow> nat \<Rightarrow> u32" where
  "pmm_get_frame_ref c phys =
     (case extra_owners c of
        None \<Rightarrow> 1
      | Some t \<Rightarrow> if phys div PAGE_SIZE \<ge> tracked_frames c then 1
                  else ucast (t ! (phys div PAGE_SIZE)) + 1)"

section \<open>Counting owners\<close>

definition cow_inv :: "cow \<Rightarrow> bool" where
  "cow_inv c \<longleftrightarrow> (\<exists>t. extra_owners c = Some t \<and> tracked_frames c \<le> length t)"

definition owners_beyond_first :: "cow \<Rightarrow> nat \<Rightarrow> u16" where
  "owners_beyond_first c frame = the (extra_owners c) ! frame"

lemma cow_init_inv: "cow_init c p = Some (c', p') \<Longrightarrow> cow_inv c'"
proof -
  assume "cow_init c p = Some (c', p')"
  then have "extra_owners c' = Some (replicate ((total_frames p * 2 + PAGE_SIZE - 1) div PAGE_SIZE * PAGE_SIZE div 2) 0)"
      "tracked_frames c' = total_frames p"
    by (auto simp: cow_init_def Let_def split: prod.splits if_splits)
  then show ?thesis by (simp add: cow_inv_def)
qed

lemma pmm_ref_frame_inv [simp]: "cow_inv c \<Longrightarrow> cow_inv (pmm_ref_frame c phys)"
  by (auto simp: cow_inv_def pmm_ref_frame_def Let_def)

lemma pmm_unref_frame_inv [simp]: "cow_inv c \<Longrightarrow> cow_inv (fst (pmm_unref_frame c p phys))"
  by (auto simp: cow_inv_def pmm_unref_frame_def Let_def)

lemma tracked_frames_ops [simp]:
  "tracked_frames (pmm_ref_frame c phys) = tracked_frames c"
  "tracked_frames (fst (pmm_unref_frame c p phys)) = tracked_frames c"
  by (auto simp: pmm_ref_frame_def pmm_unref_frame_def Let_def split: option.splits)

lemma owners_ref:
  "cow_inv c \<Longrightarrow> phys div PAGE_SIZE < tracked_frames c \<Longrightarrow>
   owners_beyond_first (pmm_ref_frame c phys) f =
     owners_beyond_first c f + (if f = phys div PAGE_SIZE then 1 else 0)"
  by (auto simp: owners_beyond_first_def cow_inv_def pmm_ref_frame_def Let_def)

lemma owners_ref_iterate:
  "cow_inv c \<Longrightarrow> phys div PAGE_SIZE < tracked_frames c \<Longrightarrow>
   cow_inv (((\<lambda>c. pmm_ref_frame c phys) ^^ k) c)
   \<and> tracked_frames (((\<lambda>c. pmm_ref_frame c phys) ^^ k) c) = tracked_frames c
   \<and> owners_beyond_first (((\<lambda>c. pmm_ref_frame c phys) ^^ k) c) (phys div PAGE_SIZE)
       = owners_beyond_first c (phys div PAGE_SIZE) + of_nat k"
  by (induction k) (simp_all add: owners_ref)

text \<open>One drop: the counter goes down, or (at zero) the frame goes back to the allocator.\<close>

lemma unref_shared:
  assumes "cow_inv c" and "phys div PAGE_SIZE < tracked_frames c" and "phys \<noteq> 0"
    and "owners_beyond_first c (phys div PAGE_SIZE) \<noteq> 0"
  shows "snd (pmm_unref_frame c p phys) = p"
    and "owners_beyond_first (fst (pmm_unref_frame c p phys)) (phys div PAGE_SIZE)
      = owners_beyond_first c (phys div PAGE_SIZE) - 1"
  using assms by (auto simp: owners_beyond_first_def cow_inv_def pmm_unref_frame_def Let_def word_neq_0_conv)

lemma unref_last:
  assumes "cow_inv c" and "phys \<noteq> 0" and "owners_beyond_first c (phys div PAGE_SIZE) = 0"
  shows "pmm_unref_frame c p phys = (c, fst (pmm_free_frame p phys))"
  using assms by (auto simp: owners_beyond_first_def cow_inv_def pmm_unref_frame_def Let_def)

text \<open>Dropping an owner \<open>k\<close> times, on the pair of tables.\<close>

abbreviation unref_times :: "nat \<Rightarrow> nat \<Rightarrow> cow \<times> pmm \<Rightarrow> cow \<times> pmm" where
  "unref_times k phys \<equiv> (\<lambda>(c, p). pmm_unref_frame c p phys) ^^ k"

lemma unref_times_shared:
  assumes "cow_inv c" and "phys div PAGE_SIZE < tracked_frames c" and "phys \<noteq> 0"
    and "k \<le> unat (owners_beyond_first c (phys div PAGE_SIZE))"
  shows "\<exists>c'. unref_times k phys (c, p) = (c', p) \<and> cow_inv c' \<and> tracked_frames c' = tracked_frames c
    \<and> unat (owners_beyond_first c' (phys div PAGE_SIZE)) + k = unat (owners_beyond_first c (phys div PAGE_SIZE))"
  using assms(4)
proof (induction k)
  case 0
  then show ?case using assms by simp
next
  case (Suc k)
  then obtain c' where c': "unref_times k phys (c, p) = (c', p)" "cow_inv c'" "tracked_frames c' = tracked_frames c"
      "unat (owners_beyond_first c' (phys div PAGE_SIZE)) + k = unat (owners_beyond_first c (phys div PAGE_SIZE))"
    by auto
  let ?n = "owners_beyond_first c' (phys div PAGE_SIZE)"
  have nz: "?n \<noteq> 0" using c'(4) Suc.prems by auto
  define c'' where "c'' = fst (pmm_unref_frame c' p phys)"
  have step: "pmm_unref_frame c' p phys = (c'', p)"
      "owners_beyond_first c'' (phys div PAGE_SIZE) = ?n - 1"
    using unref_shared [OF c'(2) _ assms(3) nz, of p] c'(3) assms(2) by (simp_all add: c''_def prod_eq_iff)
  have "unat (?n - 1) + 1 = unat ?n" using nz by (simp add: unat_minus_one unat_gt_0)
  moreover have "cow_inv c''" "tracked_frames c'' = tracked_frames c" using c' by (simp_all add: c''_def)
  moreover have "unref_times (Suc k) phys (c, p) = (c'', p)" using c'(1) step(1) by simp
  ultimately show ?case using c'(4) step(2) by auto
qed

text \<open>
  C18. A frame that has been given \<open>k\<close> further owners survives \<open>k\<close> drops, with the allocator
  untouched, and goes back to the allocator with drop number \<open>k + 1\<close>, as long as the count fits
  its 16 bits.
\<close>

theorem cow_frame_freed_by_last_owner:
  assumes "cow_inv c" and "phys div PAGE_SIZE < tracked_frames c" and "phys \<noteq> 0"
    and "owners_beyond_first c (phys div PAGE_SIZE) = 0" and "k < 2 ^ 16"
  defines "shared \<equiv> ((\<lambda>c. pmm_ref_frame c phys) ^^ k) c"
  shows "(\<forall>j. j \<le> k \<longrightarrow> snd (unref_times j phys (shared, p)) = p)
    \<and> snd (unref_times (k + 1) phys (shared, p)) = fst (pmm_free_frame p phys)"
proof -
  have sh: "cow_inv shared" "tracked_frames shared = tracked_frames c"
      "owners_beyond_first shared (phys div PAGE_SIZE) = of_nat k"
    using owners_ref_iterate [OF assms(1,2), of k] assms(4) unfolding shared_def by auto
  have un: "unat (owners_beyond_first shared (phys div PAGE_SIZE)) = k"
    unfolding sh(3) using assms(5) by (simp add: unat_of_nat)
  have lt: "phys div PAGE_SIZE < tracked_frames shared" using assms(2) sh(2) by simp
  have keep: "snd (unref_times j phys (shared, p)) = p" if "j \<le> k" for j
    using unref_times_shared [OF sh(1) lt assms(3), of j p] that un by auto
  obtain c' where c': "unref_times k phys (shared, p) = (c', p)" "cow_inv c'"
      "owners_beyond_first c' (phys div PAGE_SIZE) = 0"
    using unref_times_shared [OF sh(1) lt assms(3), of k p] un by (auto simp: unat_eq_zero)
  have "snd (unref_times (k + 1) phys (shared, p)) = fst (pmm_free_frame p phys)"
    using unref_last [OF c'(2) assms(3) c'(3), of p] c'(1) by simp
  with keep show ?thesis by blast
qed

text \<open>
  C24. The bound on the number of owners is needed: nothing stops the 16-bit count from wrapping. After 65536
  further owners it reads zero again, and the first drop frees a frame that 65536 owners still use.
\<close>

theorem cow_count_wraps:
  assumes "cow_inv c" and "phys div PAGE_SIZE < tracked_frames c" and "phys \<noteq> 0"
    and "owners_beyond_first c (phys div PAGE_SIZE) = 0"
  defines "shared \<equiv> ((\<lambda>c. pmm_ref_frame c phys) ^^ (2 ^ 16)) c"
  shows "pmm_get_frame_ref shared phys = 1 \<and> snd (pmm_unref_frame shared p phys) = fst (pmm_free_frame p phys)"
proof -
  have sh: "cow_inv shared" "tracked_frames shared = tracked_frames c"
      "owners_beyond_first shared (phys div PAGE_SIZE) = of_nat (2 ^ 16)"
    using owners_ref_iterate [OF assms(1,2), of "2 ^ 16"] assms(4) unfolding shared_def by auto
  have zero: "owners_beyond_first shared (phys div PAGE_SIZE) = 0" unfolding sh(3) by simp
  then have "pmm_get_frame_ref shared phys = 1"
    using sh(1) by (auto simp: pmm_get_frame_ref_def cow_inv_def owners_beyond_first_def)
  then show ?thesis using unref_last [OF sh(1) assms(3) zero, of p] by simp
qed

section \<open>Examples\<close>

definition cow_example :: cow where
  "cow_example = \<lparr>extra_owners = Some [0, 0, 0, 0], tracked_frames = 4\<rparr>"

lemma cow_example_facts:
  "cow_inv cow_example" "4096 div PAGE_SIZE < tracked_frames cow_example"
  "owners_beyond_first cow_example (4096 div PAGE_SIZE) = 0"
  by (simp_all add: cow_example_def cow_inv_def owners_beyond_first_def)

theorem cow_frame_freed_by_last_owner_witness:
  "cow_inv cow_example
   \<and> snd (unref_times 3 4096 (((\<lambda>c. pmm_ref_frame c 4096) ^^ 2) cow_example, pmm_example))
     = fst (pmm_free_frame pmm_example 4096)"
  using cow_frame_freed_by_last_owner [OF cow_example_facts(1,2) _ cow_example_facts(3), of 2 pmm_example]
    cow_example_facts(1) by simp

theorem cow_count_wraps_witness:
  "cow_inv cow_example \<and> pmm_get_frame_ref (((\<lambda>c. pmm_ref_frame c 4096) ^^ (2 ^ 16)) cow_example) 4096 = 1"
proof -
  have "(4096 :: nat) \<noteq> 0" by simp
  from cow_count_wraps [OF cow_example_facts(1,2) this cow_example_facts(3), of pmm_example]
  show ?thesis using cow_example_facts(1) by blast
qed

end
