(* ===== verification/Bytes.thy ===== *)
theory Bytes
  imports Prelude
begin

text \<open>
  Bytes and the integers stored in them. The kernel reads and writes integers of 16, 32 and 64 bits
  from byte buffers (strings instructions, disk structures, hash and cipher blocks); this theory has
  the two byte orders once, for words of any width, with their round trips.
\<close>

unbundle bit_operations_syntax

section \<open>Little endian\<close>

fun of_le :: "u8 list \<Rightarrow> 'a::len word" where
  "of_le [] = 0"
| "of_le (b # bs) = ucast b OR push_bit 8 (of_le bs)"

definition byte_of :: "'a::len word \<Rightarrow> nat \<Rightarrow> u8" where
  "byte_of w i = ucast (drop_bit (8 * i) w)"

definition to_le :: "nat \<Rightarrow> 'a::len word \<Rightarrow> u8 list" where
  "to_le n w = map (byte_of w) [0 ..< n]"

section \<open>Big endian\<close>

definition of_be :: "u8 list \<Rightarrow> 'a::len word" where
  "of_be bs = of_le (rev bs)"

definition to_be :: "nat \<Rightarrow> 'a::len word \<Rightarrow> u8 list" where
  "to_be n w = rev (to_le n w)"

section \<open>Bits of the bytes\<close>

lemma bit_byte_of: "bit (byte_of w i) n \<longleftrightarrow> n < 8 \<and> bit w (8 * i + n)"
  for w :: "'a::len word"
  by (auto simp: byte_of_def bit_simps dest: bit_imp_le_length)

lemma bit_of_le:
  "bit (of_le bs :: 'a::len word) n \<longleftrightarrow> n < LENGTH('a) \<and> n div 8 < length bs \<and> bit (bs ! (n div 8)) (n mod 8)"
proof (induction bs arbitrary: n)
  case Nil
  then show ?case by simp
next
  case (Cons b bs)
  show ?case
  proof (cases "n < 8")
    case True
    then show ?thesis by (auto simp: bit_simps)
  next
    case False
    then obtain k where k: "n = 8 + k" by (metis le_Suc_ex not_less)
    have "\<not> bit b n" using False bit_imp_le_length [of b n] by auto
    moreover have "(8 + k) div 8 = Suc (k div 8)" by simp
    ultimately show ?thesis using Cons.IH [of k] False by (auto simp: bit_simps k)
  qed
qed

lemma length_to_le [simp]: "length (to_le n w) = n"
  by (simp add: to_le_def)

lemma length_to_be [simp]: "length (to_be n w) = n"
  by (simp add: to_be_def)

lemma nth_to_le [simp]: "i < n \<Longrightarrow> to_le n w ! i = byte_of w i"
  by (simp add: to_le_def)

lemma of_le_to_le [simp]:
  "LENGTH('a) \<le> 8 * n \<Longrightarrow> of_le (to_le n w) = (w :: 'a::len word)"
proof (rule bit_word_eqI)
  fix k assume "LENGTH('a) \<le> 8 * n" "k < LENGTH('a)"
  then show "bit (of_le (to_le n w) :: 'a word) k = bit w k"
    by (simp add: bit_of_le bit_byte_of less_mult_imp_div_less)
qed

lemma byte_of_of_le:
  "i < length bs \<Longrightarrow> 8 * length bs \<le> LENGTH('a) \<Longrightarrow> byte_of (of_le bs :: 'a::len word) i = bs ! i"
  by (rule bit_word_eqI) (auto simp: bit_byte_of bit_of_le)

lemma to_le_of_le [simp]:
  "8 * length bs \<le> LENGTH('a) \<Longrightarrow> to_le (length bs) (of_le bs :: 'a::len word) = bs"
  by (rule nth_equalityI) (auto simp: byte_of_of_le)

lemma of_be_to_be [simp]:
  "LENGTH('a) \<le> 8 * n \<Longrightarrow> of_be (to_be n w) = (w :: 'a::len word)"
  by (simp add: of_be_def to_be_def)

lemma to_be_of_be [simp]:
  assumes "8 * length bs \<le> LENGTH('a)"
  shows "to_be (length bs) (of_be bs :: 'a::len word) = bs"
  using to_le_of_le [of "rev bs", where ?'a = 'a] assms by (simp add: of_be_def to_be_def)

lemma of_le_inject:
  "of_le as = (of_le bs :: 'a::len word) \<Longrightarrow> length as = length bs \<Longrightarrow> 8 * length bs \<le> LENGTH('a) \<Longrightarrow> as = bs"
  by (metis to_le_of_le)

end
