(* ===== verification/Kstring.thy ===== *)
theory Kstring
  imports Bytes "HOL-Library.List_Lexorder" "HOL-Library.Sublist"
begin

text \<open>
  The memory and string functions of \<^verbatim>\<open>src/lib/string.c\<close>, over a byte-addressed memory. The string
  instructions are modelled one iteration at a time, the 64-bit ones as a load of a whole quadword
  followed by a store of it, so that the effect of overlapping operands is the processor's and not
  assumed. Addresses are natural numbers: the objects passed in do not wrap around the address space.
  The scans for a terminator need not end, so they return an option whose \<^const>\<open>None\<close> is a scan that
  never returns.
\<close>

unbundle bit_operations_syntax

type_synonym mem = "nat \<Rightarrow> u8"

section \<open>The string instructions\<close>

definition load64 :: "mem \<Rightarrow> nat \<Rightarrow> u64" where
  "load64 m a = of_le (map (\<lambda>i. m (a + i)) [0 ..< 8])"

definition store64 :: "mem \<Rightarrow> nat \<Rightarrow> u64 \<Rightarrow> mem" where
  "store64 m a v = (\<lambda>x. if a \<le> x \<and> x < a + 8 then byte_of v (x - a) else m x)"

text \<open>Each takes the count register, the memory, the pointer registers and (for a store) the value.\<close>

fun rep_stosq :: "nat \<Rightarrow> mem \<Rightarrow> nat \<Rightarrow> u64 \<Rightarrow> mem \<times> nat" where
  "rep_stosq 0 m d v = (m, d)"
| "rep_stosq (Suc n) m d v = rep_stosq n (store64 m d v) (d + 8) v"

fun rep_stosb :: "nat \<Rightarrow> mem \<Rightarrow> nat \<Rightarrow> u64 \<Rightarrow> mem \<times> nat" where
  "rep_stosb 0 m d v = (m, d)"
| "rep_stosb (Suc n) m d v = rep_stosb n (m(d := ucast v)) (d + 1) v"

fun rep_movsq :: "nat \<Rightarrow> mem \<Rightarrow> nat \<Rightarrow> nat \<Rightarrow> mem \<times> nat \<times> nat" where
  "rep_movsq 0 m d s = (m, d, s)"
| "rep_movsq (Suc n) m d s = rep_movsq n (store64 m d (load64 m s)) (d + 8) (s + 8)"

fun rep_movsb :: "nat \<Rightarrow> mem \<Rightarrow> nat \<Rightarrow> nat \<Rightarrow> mem \<times> nat \<times> nat" where
  "rep_movsb 0 m d s = (m, d, s)"
| "rep_movsb (Suc n) m d s = rep_movsb n (m(d := m s)) (d + 1) (s + 1)"

text \<open>With the direction flag set: the pointers count down.\<close>

fun rep_movsb_down :: "nat \<Rightarrow> mem \<Rightarrow> nat \<Rightarrow> nat \<Rightarrow> mem \<times> nat \<times> nat" where
  "rep_movsb_down 0 m d s = (m, d, s)"
| "rep_movsb_down (Suc n) m d s = rep_movsb_down n (m(d := m s)) (d - 1) (s - 1)"

section \<open>Memory functions\<close>

definition memset :: "mem \<Rightarrow> nat \<Rightarrow> int \<Rightarrow> nat \<Rightarrow> mem \<times> nat" where
  "memset m dest val count =
     (let pattern = 0x0101010101010101 * ucast (word_of_int val :: u8) :: u64;
          qwords = count div 8; bytes = count mod 8;
          (m, d) = rep_stosq qwords m dest pattern;
          (m, d) = rep_stosb bytes m d pattern
      in (m, dest))"

definition memcpy :: "mem \<Rightarrow> nat \<Rightarrow> nat \<Rightarrow> nat \<Rightarrow> mem \<times> nat" where
  "memcpy m dest src count =
     (let qwords = count div 8; bytes = count mod 8;
          (m, d, s) = rep_movsq qwords m dest src;
          (m, d, s) = rep_movsb bytes m d s
      in (m, dest))"

definition memmove :: "mem \<Rightarrow> nat \<Rightarrow> nat \<Rightarrow> nat \<Rightarrow> mem \<times> nat" where
  "memmove m dest src count =
     (if dest \<le> src \<or> src + count \<le> dest then memcpy m dest src count
      else (let s_last = src + count - 1; d_last = dest + count - 1;
                (m, d, s) = rep_movsb_down count m d_last s_last
            in (m, dest)))"

fun memcmp :: "mem \<Rightarrow> nat \<Rightarrow> nat \<Rightarrow> nat \<Rightarrow> int" where
  "memcmp m p1 p2 0 = 0"
| "memcmp m p1 p2 (Suc n) = (if m p1 \<noteq> m p2 then uint (m p1) - uint (m p2) else memcmp m (p1 + 1) (p2 + 1) n)"

section \<open>String functions\<close>

partial_function (option) strlen_loop :: "mem \<Rightarrow> nat \<Rightarrow> nat \<Rightarrow> nat option" where
  "strlen_loop m str len = (if str \<noteq> 0 \<and> m (str + len) \<noteq> 0 then strlen_loop m str (len + 1) else Some len)"

definition strlen :: "mem \<Rightarrow> nat \<Rightarrow> nat option" where
  "strlen m str = strlen_loop m str 0"

partial_function (option) strcmp :: "mem \<Rightarrow> nat \<Rightarrow> nat \<Rightarrow> int option" where
  "strcmp m s1 s2 = (if m s1 \<noteq> 0 \<and> m s1 = m s2 then strcmp m (s1 + 1) (s2 + 1)
     else Some (uint (m s1) - uint (m s2)))"

fun strncmp :: "mem \<Rightarrow> nat \<Rightarrow> nat \<Rightarrow> nat \<Rightarrow> int" where
  "strncmp m s1 s2 0 = 0"
| "strncmp m s1 s2 (Suc n) = (if m s1 \<noteq> m s2 \<or> m s1 = 0 then uint (m s1) - uint (m s2)
     else strncmp m (s1 + 1) (s2 + 1) n)"

function strncpy_copy :: "mem \<Rightarrow> nat \<Rightarrow> nat \<Rightarrow> nat \<Rightarrow> nat \<Rightarrow> mem \<times> nat" where
  "strncpy_copy m dest src n i =
     (if i < n \<and> m (src + i) \<noteq> 0 then strncpy_copy (m(dest + i := m (src + i))) dest src n (i + 1) else (m, i))"
  by auto
termination by (relation "measure (\<lambda>(m, dest, src, n, i). n - i)") auto

function strncpy_pad :: "mem \<Rightarrow> nat \<Rightarrow> nat \<Rightarrow> nat \<Rightarrow> mem" where
  "strncpy_pad m dest n i = (if i < n then strncpy_pad (m(dest + i := 0)) dest n (i + 1) else m)"
  by auto
termination by (relation "measure (\<lambda>(m, dest, n, i). n - i)") auto

definition strncpy :: "mem \<Rightarrow> nat \<Rightarrow> nat \<Rightarrow> nat \<Rightarrow> mem \<times> nat" where
  "strncpy m dest src n =
     (let (m, i) = strncpy_copy m dest src n 0; m = strncpy_pad m dest n i in (m, dest))"

text \<open>The pointer results are themselves options: \<^term>\<open>Some None\<close> is the value \<open>NULL\<close>.\<close>

partial_function (option) strchr :: "mem \<Rightarrow> nat \<Rightarrow> int \<Rightarrow> nat option option" where
  "strchr m s c = (if m s = word_of_int c then Some (Some s) else if m s = 0 then Some None
     else strchr m (s + 1) c)"

partial_function (option) strstr_match :: "mem \<Rightarrow> nat \<Rightarrow> nat \<Rightarrow> nat option" where
  "strstr_match m h n = (if m n \<noteq> 0 \<and> m h = m n then strstr_match m (h + 1) (n + 1) else Some n)"

partial_function (option) strstr_loop :: "mem \<Rightarrow> nat \<Rightarrow> nat \<Rightarrow> nat option option" where
  "strstr_loop m haystack needle =
     (if m haystack \<noteq> 0
      then Option.bind (strstr_match m haystack needle)
        (\<lambda>n. if m n = 0 then Some (Some haystack) else strstr_loop m (haystack + 1) needle)
      else Some None)"

definition strstr :: "mem \<Rightarrow> nat \<Rightarrow> nat \<Rightarrow> nat option option" where
  "strstr m haystack needle = (if m needle = 0 then Some (Some haystack) else strstr_loop m haystack needle)"

declare strncpy_copy.simps [simp del] strncpy_pad.simps [simp del]

section \<open>Filling and copying\<close>

lemma store64_load64: "store64 m d (load64 m s) = (\<lambda>x. if d \<le> x \<and> x < d + 8 then m (s + (x - d)) else m x)"
proof
  fix x
  have "byte_of (load64 m s) i = m (s + i)" if "i < 8" for i
    using that byte_of_of_le [of i "map (\<lambda>i. m (s + i)) [0 ..< 8]", where ?'a = 64] by (simp add: load64_def)
  then show "store64 m d (load64 m s) x = (if d \<le> x \<and> x < d + 8 then m (s + (x - d)) else m x)"
    by (auto simp: store64_def)
qed

lemma rep_movsq_correct:
  assumes "d \<le> s \<or> s + 8 * n \<le> d"
  shows "rep_movsq n m d s = (\<lambda>x. if d \<le> x \<and> x < d + 8 * n then m (s + (x - d)) else m x, d + 8 * n, s + 8 * n)"
  using assms
proof (induction n arbitrary: m d s)
  case (Suc n)
  then have "d + 8 \<le> s + 8 \<or> s + 8 + 8 * n \<le> d + 8" by auto
  from Suc.IH [OF this] Suc.prems show ?case
    by (auto simp: store64_load64 fun_eq_iff)
qed (auto simp: fun_eq_iff)

lemma rep_movsb_correct:
  assumes "d \<le> s \<or> s + n \<le> d"
  shows "rep_movsb n m d s = (\<lambda>x. if d \<le> x \<and> x < d + n then m (s + (x - d)) else m x, d + n, s + n)"
  using assms
proof (induction n arbitrary: m d s)
  case (Suc n)
  then have "d + 1 \<le> s + 1 \<or> s + 1 + n \<le> d + 1" by auto
  from Suc.IH [OF this] Suc.prems show ?case by (auto simp: fun_eq_iff Suc_diff_Suc)
qed (auto simp: fun_eq_iff)

lemma rep_movsb_down_correct:
  assumes "s < d"
  shows "fst (rep_movsb_down n m (d + n - 1) (s + n - 1)) = (\<lambda>x. if d \<le> x \<and> x < d + n then m (s + (x - d)) else m x)"
proof (induction n arbitrary: m)
  case (Suc n)
  have "fst (rep_movsb_down (Suc n) m (d + Suc n - 1) (s + Suc n - 1))
      = fst (rep_movsb_down n (m(d + n := m (s + n))) (d + n - 1) (s + n - 1))" by simp
  also note Suc.IH
  finally show ?case using assms by (auto simp: fun_eq_iff not_less less_Suc_eq)
qed (auto simp: fun_eq_iff)

lemma memcpy_correct:
  assumes "dest \<le> src \<or> src + count \<le> dest"
  shows "memcpy m dest src count = (\<lambda>x. if dest \<le> x \<and> x < dest + count then m (src + (x - dest)) else m x, dest)"
proof -
  define q r where "q = count div 8" and "r = count mod 8"
  have split: "count = 8 * q + r" by (simp add: q_def r_def)
  then have "dest \<le> src \<or> src + 8 * q \<le> dest" and "dest + 8 * q \<le> src + 8 * q \<or> src + 8 * q + r \<le> dest + 8 * q"
    using assms by auto
  with assms show ?thesis
    unfolding memcpy_def Let_def q_def [symmetric] r_def [symmetric]
    by (auto simp: rep_movsq_correct rep_movsb_correct fun_eq_iff split)
qed

text \<open>
  C12. \<open>memmove\<close> copies correctly whatever the overlap: afterwards every byte of the destination is
  what the corresponding byte of the source was before the call, every other byte of memory is
  unchanged, and the destination is returned.
\<close>

theorem memmove_correct:
  "memmove m dest src count =
     (\<lambda>x. if dest \<le> x \<and> x < dest + count then m (src + (x - dest)) else m x, dest)"
proof (cases "dest \<le> src \<or> src + count \<le> dest")
  case True
  then show ?thesis by (simp add: memmove_def memcpy_correct)
next
  case False
  then show ?thesis using rep_movsb_down_correct [of src dest count m]
    by (simp add: memmove_def Let_def split_beta)
qed

lemma rep_stosq_correct:
  "rep_stosq n m d v = (\<lambda>x. if d \<le> x \<and> x < d + 8 * n then byte_of v ((x - d) mod 8) else m x, d + 8 * n)"
proof (induction n arbitrary: m d)
  case (Suc n)
  have "x - d = 8 + (x - (d + 8))" if "d + 8 \<le> x" for x using that by simp
  then have "(x - d) mod 8 = (x - (d + 8)) mod 8" if "d + 8 \<le> x" for x using that by (metis mod_add_self1)
  with Suc.IH [of "store64 m d v" "d + 8"] show ?case by (auto simp: fun_eq_iff store64_def not_le)
qed (auto simp: fun_eq_iff)

lemma rep_stosb_correct:
  "rep_stosb n m d v = (\<lambda>x. if d \<le> x \<and> x < d + n then ucast v else m x, d + n)"
proof (induction n arbitrary: m d)
  case (Suc n)
  show ?case unfolding rep_stosb.simps Suc.IH by (auto simp: fun_eq_iff)
qed (auto simp: fun_eq_iff)

text \<open>The multiplication in \<open>memset\<close> puts the byte into each of the eight places.\<close>

fun repunit :: "nat \<Rightarrow> nat \<Rightarrow> nat" where
  "repunit 0 b = 0"
| "repunit (Suc k) b = b + 256 * repunit k b"

lemma repunit_numeral: "repunit (numeral k) b = b + 256 * repunit (pred_numeral k) b"
  by (simp add: numeral_eq_Suc)

lemma repunit_digit: "b < 256 \<Longrightarrow> i < k \<Longrightarrow> repunit k b div 256 ^ i mod 256 = b"
proof (induction k arbitrary: i)
  case (Suc k)
  show ?case
  proof (cases i)
    case 0
    then show ?thesis using Suc.prems by simp
  next
    case (Suc j)
    have "repunit (Suc k) b div 256 ^ i = repunit (Suc k) b div 256 div 256 ^ j"
      by (simp add: Suc div_mult2_eq)
    also have "repunit (Suc k) b div 256 = repunit k b" using Suc.prems by simp
    finally show ?thesis using Suc.IH [of j] Suc.prems Suc by simp
  qed
qed simp

lemma unat_byte_of: "unat (byte_of w i) = unat w div 256 ^ i mod 256"
  for w :: "'a::len word"
  by (simp only: byte_of_def unsigned_ucast_eq unat_drop_bit_eq) (simp add: drop_bit_eq_div power_mult take_bit_eq_mod)

lemma memset_pattern: "i < 8 \<Longrightarrow> byte_of (0x0101010101010101 * ucast (b :: u8) :: u64) i = b"
proof -
  assume i: "i < 8"
  have b: "unat b < 256" using unsigned_less [of b, where ?'a = nat] by simp
  have "unat (0x0101010101010101 * ucast b :: u64) = 0x0101010101010101 * unat b"
    using b by (subst unat_mult_lem [THEN iffD1]) (simp_all add: unsigned_ucast_eq take_bit_eq_mod)
  also have "\<dots> = repunit 8 (unat b)" by (simp add: repunit_numeral)
  finally have "unat (byte_of (0x0101010101010101 * ucast b :: u64) i) = unat b"
    using repunit_digit [OF b i] by (simp add: unat_byte_of)
  then show ?thesis by (simp add: word_unat_eq_iff)
qed

lemma memset_correct:
  "memset m dest val count = (\<lambda>x. if dest \<le> x \<and> x < dest + count then word_of_int val else m x, dest)"
proof -
  define q r where "q = count div 8" and "r = count mod 8"
  have split: "count = 8 * q + r" by (simp add: q_def r_def)
  have "ucast (0x0101010101010101 * ucast (word_of_int val :: u8) :: u64) = (word_of_int val :: u8)"
    using memset_pattern [of 0 "word_of_int val"] by (simp add: byte_of_def)
  then show ?thesis
    unfolding memset_def Let_def q_def [symmetric] r_def [symmetric]
    by (auto simp: rep_stosq_correct rep_stosb_correct fun_eq_iff split memset_pattern)
qed

section \<open>Strings\<close>

text \<open>The memory holds the string \<open>bs\<close> and its terminator at \<open>p\<close>.\<close>

fun cstring :: "mem \<Rightarrow> nat \<Rightarrow> u8 list \<Rightarrow> bool" where
  "cstring m p [] \<longleftrightarrow> m p = 0"
| "cstring m p (b # bs) \<longleftrightarrow> m p = b \<and> b \<noteq> 0 \<and> cstring m (p + 1) bs"

lemma cstring_frame:
  "cstring m p bs \<Longrightarrow> x < p \<or> p + length bs < x \<Longrightarrow> cstring (m(x := b)) p bs"
  by (induction bs arbitrary: p) auto

lemma strlen_loop_correct: "str \<noteq> 0 \<Longrightarrow> cstring m (str + len) bs \<Longrightarrow> strlen_loop m str len = Some (len + length bs)"
  by (induction bs arbitrary: len) (subst strlen_loop.simps; force)+

lemma strlen_correct: "str \<noteq> 0 \<Longrightarrow> cstring m str bs \<Longrightarrow> strlen m str = Some (length bs)"
  using strlen_loop_correct [of str m 0 bs] by (simp add: strlen_def)

text \<open>The null pointer has length 0: the loop tests it before it reads.\<close>

lemma strlen_null: "strlen m 0 = Some 0"
  by (simp add: strlen_def strlen_loop.simps)

lemma byte_uint [simp]: "uint a = uint b \<longleftrightarrow> a = b" "uint a < uint b \<longleftrightarrow> a < b"
    "uint a = 0 \<longleftrightarrow> a = 0" "0 < uint a \<longleftrightarrow> a \<noteq> 0" for a b :: u8
  using word_neq_0_conv [of a]
  by (auto simp: word_uint_eq_iff word_less_def)

text \<open>
  On terminated strings \<open>strcmp\<close> returns, and its sign is the order of the strings: zero exactly
  for equal strings, negative exactly when the first precedes the second in the lexicographic order of
  unsigned bytes.
\<close>

theorem strcmp_correct:
  assumes "cstring m s1 as" and "cstring m s2 bs"
  shows "\<exists>r. strcmp m s1 s2 = Some r \<and> (r = 0 \<longleftrightarrow> as = bs) \<and> (r < 0 \<longleftrightarrow> as < bs)"
  using assms
proof (induction as arbitrary: s1 s2 bs)
  case Nil
  then show ?case by (cases bs) (auto simp: strcmp.simps [of m s1 s2])
next
  case (Cons a as)
  show ?case
  proof (cases bs)
    case Nil
    then show ?thesis using Cons.prems by (auto simp: strcmp.simps [of m s1 s2])
  next
    case (Cons b bs')
    then show ?thesis
      using Cons.prems Cons.IH [of "s1 + 1" "s2 + 1" bs']
      by (cases "a = b") (auto simp: strcmp.simps [of m s1 s2])
  qed
qed

text \<open>\<open>strncmp\<close> is \<open>strcmp\<close> on the first \<open>n\<close> bytes.\<close>

lemma strncmp_correct:
  "cstring m s1 as \<Longrightarrow> cstring m s2 bs \<Longrightarrow>
     (strncmp m s1 s2 n = 0 \<longleftrightarrow> take n as = take n bs) \<and> (strncmp m s1 s2 n < 0 \<longleftrightarrow> take n as < take n bs)"
proof (induction n arbitrary: s1 s2 as bs)
  case (Suc n)
  show ?case
  proof (cases as)
    case Nil
    then show ?thesis using Suc.prems by (cases bs) auto
  next
    case (Cons a as')
    then show ?thesis using Suc.prems Suc.IH [of "s1 + 1" as' "s2 + 1"]
      by (cases bs) auto
  qed
qed simp

lemma memcmp_correct:
  "memcmp m p q n = 0 \<longleftrightarrow> (\<forall>i < n. m (p + i) = m (q + i))"
proof (induction n arbitrary: p q)
  case (Suc n)
  have "(\<forall>i < Suc n. m (p + i) = m (q + i)) \<longleftrightarrow> m p = m q \<and> (\<forall>i < n. m (p + 1 + i) = m (q + 1 + i))"
    by (auto simp: less_Suc_eq_0_disj)
  then show ?case using Suc.IH [of "p + 1" "q + 1"] by auto
qed simp

lemma strchr_correct:
  assumes "cstring m s bs" and "c \<noteq> 0"
  shows "strchr m s (uint c) = Some (if c \<in> set bs then Some (s + length (takeWhile (\<lambda>b. b \<noteq> c) bs)) else None)"
  using assms
proof (induction bs arbitrary: s)
  case (Cons b bs)
  then show ?case using Cons.IH [of "s + 1"] by (auto simp: strchr.simps [of m s])
qed (auto simp: strchr.simps)

text \<open>The terminator itself can be searched for.\<close>

lemma strchr_zero: "cstring m s bs \<Longrightarrow> strchr m s 0 = Some (Some (s + length bs))"
  by (induction bs arbitrary: s) (subst strchr.simps; auto)+

lemma strstr_match_correct:
  assumes "cstring m h hs" and "cstring m n ns"
  shows "\<exists>n'. strstr_match m h n = Some n' \<and> (m n' = 0 \<longleftrightarrow> prefix ns hs)"
  using assms
proof (induction ns arbitrary: h n hs)
  case Nil
  then show ?case by (auto simp: strstr_match.simps [of m h n])
next
  case (Cons b ns)
  show ?case
  proof (cases hs)
    case Nil
    then show ?thesis using Cons.prems by (auto simp: strstr_match.simps [of m h n])
  next
    case (Cons a hs')
    then show ?thesis using Cons.prems Cons.IH [of "h + 1" hs' "n + 1"]
      by (auto simp: strstr_match.simps [of m h n])
  qed
qed

definition first_occurrence :: "u8 list \<Rightarrow> u8 list \<Rightarrow> nat option \<Rightarrow> bool" where
  "first_occurrence ns hs r = (case r of
     None \<Rightarrow> \<not> sublist ns hs
   | Some k \<Rightarrow> prefix ns (drop k hs) \<and> (\<forall>j < k. \<not> prefix ns (drop j hs)))"

lemma first_occurrence_Cons:
  "\<not> prefix ns (b # hs) \<Longrightarrow> first_occurrence ns hs r \<Longrightarrow> first_occurrence ns (b # hs) (map_option Suc r)"
  by (auto simp: first_occurrence_def sublist_Cons_right less_Suc_eq_0_disj split: option.splits)

lemma strstr_loop_correct:
  assumes "cstring m h hs" and "cstring m n ns" and "ns \<noteq> []"
  shows "\<exists>r. strstr_loop m h n = Some (map_option ((+) h) r) \<and> first_occurrence ns hs r"
  using assms
proof (induction hs arbitrary: h)
  case Nil
  then show ?case by (intro exI [of _ None]) (auto simp: strstr_loop.simps first_occurrence_def)
next
  case (Cons b hs)
  obtain n' where n': "strstr_match m h n = Some n'" "m n' = 0 \<longleftrightarrow> prefix ns (b # hs)"
    using strstr_match_correct [OF Cons.prems(1,2)] by blast
  show ?case
  proof (cases "prefix ns (b # hs)")
    case True
    then show ?thesis using n' Cons.prems
      by (intro exI [of _ "Some 0"]) (auto simp: strstr_loop.simps [of m h] first_occurrence_def)
  next
    case False
    obtain r where r: "strstr_loop m (h + 1) n = Some (map_option ((+) (h + 1)) r)" "first_occurrence ns hs r"
      using Cons.IH [of "h + 1"] Cons.prems unfolding cstring.simps by blast
    have "strstr_loop m h n = Some (map_option ((+) h) (map_option Suc r))"
      using n' r(1) False Cons.prems(1) by (cases r) (auto simp: strstr_loop.simps [of m h])
    then show ?thesis using first_occurrence_Cons [OF False r(2)] by blast
  qed
qed

text \<open>
  \<open>strncpy\<close> copies the string and fills the rest of the field with zeros; like C's, it writes no
  terminator when the string fills the field.
\<close>

lemma strncpy_copy_correct:
  assumes "cstring m (src + i) bs" and "i \<le> n" and "dest + n \<le> src \<or> src + i + length bs < dest"
  shows "strncpy_copy m dest src n i =
    (\<lambda>x. if dest + i \<le> x \<and> x < dest + min n (i + length bs) then bs ! (x - dest - i) else m x, min n (i + length bs))"
  using assms
proof (induction bs arbitrary: m i)
  case Nil
  then show ?case by (auto simp: strncpy_copy.simps [of m] fun_eq_iff)
next
  case (Cons b bs)
  show ?case
  proof (cases "i < n")
    case True
    have keep: "cstring (m(dest + i := b)) (src + (i + 1)) bs"
      using Cons.prems True by (intro cstring_frame) auto
    have "strncpy_copy m dest src n i = strncpy_copy (m(dest + i := b)) dest src n (i + 1)"
      using Cons.prems(1) True by (subst strncpy_copy.simps) simp
    also note Cons.IH [OF keep]
    finally show ?thesis using Cons.prems True by (auto simp: fun_eq_iff nth_Cons' Suc_diff_Suc)
  next
    case False
    then show ?thesis using Cons.prems by (auto simp: strncpy_copy.simps [of m] fun_eq_iff)
  qed
qed

lemma strncpy_pad_correct:
  "strncpy_pad m dest n i = (\<lambda>x. if dest + i \<le> x \<and> x < dest + n then 0 else m x)"
proof (induction m dest n i rule: strncpy_pad.induct)
  case (1 m dest n i)
  show ?case
  proof (cases "i < n")
    case True
    then show ?thesis unfolding strncpy_pad.simps [of m] 1 [OF True] by (auto simp: fun_eq_iff)
  next
    case False
    then show ?thesis by (auto simp: strncpy_pad.simps fun_eq_iff)
  qed
qed

lemma strncpy_correct:
  assumes "cstring m src bs" and "dest + n \<le> src \<or> src + length bs < dest"
  shows "strncpy m dest src n = (\<lambda>x. if dest \<le> x \<and> x < dest + n
     then (if x - dest < length bs then bs ! (x - dest) else 0) else m x, dest)"
  using strncpy_copy_correct [of m src 0 bs n dest] assms
  by (auto simp: strncpy_def strncpy_pad_correct fun_eq_iff)

text \<open>
  C25. On terminated strings \<open>strstr\<close> returns, and the pointer it returns is the first place where the
  needle occurs in the haystack; it is \<open>NULL\<close> exactly when the needle does not occur.
\<close>

theorem strstr_correct:
  assumes "cstring m h hs" and "cstring m n ns"
  shows "\<exists>r. strstr m h n = Some (map_option ((+) h) r) \<and> first_occurrence ns hs r"
proof (cases ns)
  case Nil
  then show ?thesis using assms
    by (intro exI [of _ "Some 0"]) (auto simp: strstr_def first_occurrence_def)
next
  case (Cons b bs)
  then have "m n \<noteq> 0" using assms(2) by auto
  then show ?thesis using strstr_loop_correct [OF assms] Cons by (simp add: strstr_def)
qed

section \<open>Examples\<close>

text \<open>A memory with the strings ``abc'' at 8 and ``bc'' at 16.\<close>

definition mem_example :: mem where
  "mem_example = (\<lambda>_. 0)(8 := 97, 9 := 98, 10 := 99, 16 := 98, 17 := 99)"

lemma mem_example_strings: "cstring mem_example 8 [97, 98, 99]" "cstring mem_example 16 [98, 99]"
  by (simp_all add: mem_example_def)

theorem strcmp_correct_witness:
  "cstring mem_example 8 [97, 98, 99] \<and> cstring mem_example 16 [98, 99]
   \<and> (\<exists>r. strcmp mem_example 8 16 = Some r \<and> r < 0)"
  using strcmp_correct [OF mem_example_strings] mem_example_strings by auto

theorem strstr_correct_witness:
  "cstring mem_example 8 [97, 98, 99] \<and> cstring mem_example 16 [98, 99] \<and> strstr mem_example 8 16 = Some (Some 9)"
proof -
  obtain r where r: "strstr mem_example 8 16 = Some (map_option ((+) 8) r)" "first_occurrence [98, 99] [97, 98, 99] r"
    using strstr_correct [OF mem_example_strings] by blast
  have "sublist [98, 99] [97, 98, 99 :: u8]" by (auto simp: sublist_Cons_right)
  then obtain k where k: "r = Some k" "prefix [98, 99] (drop k [97, 98, 99 :: u8])"
      "\<forall>j < k. \<not> prefix [98, 99] (drop j [97, 98, 99 :: u8])"
    using r(2) by (auto simp: first_occurrence_def split: option.splits)
  have "\<not> 1 < k" using k(3) by fastforce
  moreover have "k \<noteq> 0" using k(2) by (cases k) auto
  ultimately have "k = 1" by simp
  with r(1) k(1) mem_example_strings show ?thesis by simp
qed

end
