(* ===== verification/Date.thy ===== *)
theory Date
  imports Prelude "HOL-Library.Signed_Division"
begin

text \<open>
  The calendar arithmetic of \<^verbatim>\<open>src/lib/time/date.c\<close>: days since 1970-01-01 to a date and back. Signed
  64-bit values are integers (the dates the kernel handles stay far inside the range), unsigned 32-bit
  values are integers with the wrap-around written out, and \<open>sdiv\<close> is C's division, which truncates.
  The specification is the calendar itself: the length of each month and the day after a date.
\<close>

section \<open>The code\<close>

definition unsigned32 :: "int \<Rightarrow> int" where
  "unsigned32 x = x mod 2 ^ 32"

definition days_from_civil :: "int \<Rightarrow> int \<Rightarrow> int \<Rightarrow> int" where
  "days_from_civil y m d =
     (let y = y - (if m \<le> 2 then 1 else 0);
          era = (if 0 \<le> y then y else y - 399) sdiv 400;
          yoe = unsigned32 (y - era * 400);
          doy = unsigned32 (unsigned32 (153 * (if 2 < m then m - 3 else m + 9) + 2) div 5 + d - 1);
          doe = unsigned32 (yoe * 365 + yoe div 4 - yoe div 100 + doy)
      in era * 146097 + doe - 719468)"

definition civil_from_days :: "int \<Rightarrow> int \<times> int \<times> int" where
  "civil_from_days days =
     (let z = days + 719468;
          era = (if 0 \<le> z then z else z - 146096) sdiv 146097;
          doe = unsigned32 (z - era * 146097);
          yoe = unsigned32 (doe - doe div 1460 + doe div 36524 - doe div 146096) div 365;
          doy = unsigned32 (doe - unsigned32 (365 * yoe + yoe div 4 - yoe div 100));
          mp = unsigned32 (5 * doy + 2) div 153;
          day = unsigned32 (doy - unsigned32 (153 * mp + 2) div 5 + 1);
          month = (if mp < 10 then unsigned32 (mp + 3) else unsigned32 (mp - 9));
          year = unsigned32 (unsigned32 (yoe + era * 400) + (if month \<le> 2 then 1 else 0))
      in (year, month, day))"

section \<open>The calendar\<close>

definition leap :: "int \<Rightarrow> bool" where
  "leap y \<longleftrightarrow> 4 dvd y \<and> (\<not> 100 dvd y \<or> 400 dvd y)"

definition month_length :: "int \<Rightarrow> int \<Rightarrow> int" where
  "month_length y m = (if m = 2 then (if leap y then 29 else 28) else if m \<in> {4, 6, 9, 11} then 30 else 31)"

definition valid_date :: "int \<times> int \<times> int \<Rightarrow> bool" where
  "valid_date = (\<lambda>(y, m, d). 1 \<le> m \<and> m \<le> 12 \<and> 1 \<le> d \<and> d \<le> month_length y m)"

definition next_day :: "int \<times> int \<times> int \<Rightarrow> int \<times> int \<times> int" where
  "next_day = (\<lambda>(y, m, d). if d < month_length y m then (y, m, d + 1)
     else if m < 12 then (y, m + 1, 1) else (y + 1, 1, 1))"

section \<open>Days within an era\<close>

lemma floor_sdiv: "0 < k \<Longrightarrow> j = k - 1 \<Longrightarrow> (if 0 \<le> y then y else y - j) sdiv k = y div k" for y k :: int
proof (cases "0 \<le> y")
  case True
  then show "0 < k \<Longrightarrow> ?thesis" by (auto simp: signed_divide_int_def sgn_if)
next
  case False
  assume k: "0 < k" "j = k - 1"
  have "(y - (k - 1)) sdiv k = - ((k - 1 - y) div k)"
    using k False by (simp add: signed_divide_int_def sgn_if)
  also have "\<dots> = y div k"
  proof -
    define q r where "q = y div k" and "r = y mod k"
    have "0 \<le> r" "r < k" and y: "y = k * q + r" using k by (simp_all add: q_def r_def)
    then have r: "0 \<le> k - 1 - r" "k - 1 - r < k" by simp_all
    have "k - 1 - y = (k - 1 - r) + k * (- q)" using y by (simp add: algebra_simps)
    also have "\<dots> div k = - q" using k r by (subst div_mult_self2) auto
    finally show ?thesis by (simp add: q_def)
  qed
  finally show ?thesis using False k(2) by simp
qed

lemma era_div: "(if 0 \<le> y then y else y - 399) sdiv 400 = y div 400" for y :: int
  by (rule floor_sdiv) simp_all

lemma era_days_div: "(if 0 \<le> z then z else z - 146096) sdiv 146097 = z div 146097" for z :: int
  by (rule floor_sdiv) simp_all

lemma unsigned32_id: "0 \<le> x \<Longrightarrow> x < 4294967296 \<Longrightarrow> unsigned32 x = x"
  by (simp add: unsigned32_def)

text \<open>A year of an era, counted from March, starts on this day; the months of such a year start on these.\<close>

definition year_start :: "int \<Rightarrow> int" where
  "year_start yoe = yoe * 365 + yoe div 4 - yoe div 100"

definition month_start :: "int \<Rightarrow> int" where
  "month_start mp = (153 * mp + 2) div 5"

text \<open>The year counted from March, and the month within it.\<close>

definition march_year :: "int \<Rightarrow> int \<Rightarrow> int" where
  "march_year y m = y - (if m \<le> 2 then 1 else 0)"

definition march_month :: "int \<Rightarrow> int" where
  "march_month m = (if 2 < m then m - 3 else m + 9)"

lemma days_from_civil_eq:
  assumes "1 \<le> m" "m \<le> 12" "1 \<le> d" "d \<le> 31"
  shows "days_from_civil y m d = march_year y m div 400 * 146097 + year_start (march_year y m mod 400)
    + month_start (march_month m) + d - 1 - 719468"
proof -
  define y' where "y' = march_year y m"
  have yoe: "0 \<le> y' mod 400" "y' mod 400 < 400" "y' - y' div 400 * 400 = y' mod 400"
    by (simp_all add: minus_div_mult_eq_mod)
  have mp: "0 \<le> march_month m" "march_month m \<le> 11" using assms by (auto simp: march_month_def)
  have ms: "0 \<le> month_start (march_month m)" "month_start (march_month m) < 340"
    using mp by (auto simp: month_start_def)
  have u: "unsigned32 (y' mod 400) = y' mod 400" "unsigned32 (153 * march_month m + 2) = 153 * march_month m + 2"
    using yoe mp by (auto simp: unsigned32_id)
  have doy: "unsigned32 ((153 * march_month m + 2) div 5 + d - 1) = month_start (march_month m) + d - 1"
    using ms assms by (simp add: month_start_def unsigned32_id)
  have ys: "0 \<le> year_start (y' mod 400)" "year_start (y' mod 400) < 200000"
    using yoe unfolding year_start_def by auto
  have "unsigned32 (y' mod 400 * 365 + y' mod 400 div 4 - y' mod 400 div 100 + (month_start (march_month m) + d - 1))
      = year_start (y' mod 400) + (month_start (march_month m) + d - 1)"
    using ys ms assms unfolding year_start_def by (simp add: unsigned32_id)
  then show ?thesis
    unfolding days_from_civil_def Let_def march_month_def [symmetric] march_year_def [symmetric] y'_def [symmetric]
      era_div yoe(3) u doy by simp
qed

section \<open>Counting days\<close>

text \<open>The days before a year of the March calendar, in closed form.\<close>

definition days_before :: "int \<Rightarrow> int" where
  "days_before y = 365 * y + y div 4 - y div 100 + y div 400"

lemma era_days: "y div 400 * 146097 + year_start (y mod 400) = days_before y"
proof -
  define a b where "a = y div 400" and "b = y mod 400"
  have b: "0 \<le> b" "b < 400" and y: "y = 400 * a + b" by (auto simp: a_def b_def)
  have "y div 4 = 100 * a + b div 4" "y div 100 = 4 * a + b div 100" "y div 400 = a"
    unfolding y using b by linarith+
  then show ?thesis unfolding days_before_def year_start_def a_def [symmetric] b_def [symmetric] by (simp add: y)
qed

lemma days_from_civil_closed:
  assumes "1 \<le> m" "m \<le> 12" "1 \<le> d" "d \<le> 31"
  shows "days_from_civil y m d = days_before (march_year y m) + month_start (march_month m) + d - 719469"
  unfolding days_from_civil_eq [OF assms] era_days by simp

lemma div_step: "0 < k \<Longrightarrow> (y + 1) div k = y div k + (if k dvd y + 1 then 1 else 0)" for y k :: int
proof -
  assume k: "0 < k"
  define q r where "q = y div k" and "r = y mod k"
  have y: "y = k * q + r" "0 \<le> r" "r < k" using k by (simp_all add: q_def r_def)
  show ?thesis
  proof (cases "r = k - 1")
    case True
    then have "y + 1 = k * (q + 1)" using y(1) by (simp add: algebra_simps)
    then show ?thesis using k by (simp add: q_def [symmetric])
  next
    case False
    then have r: "0 \<le> r + 1" "r + 1 < k" using y by auto
    have e: "y + 1 = (r + 1) + k * q" using y(1) by simp
    have "(y + 1) div k = q" unfolding e using r k by (subst div_mult_self2) auto
    moreover have "(y + 1) mod k = r + 1" unfolding e using r by simp
    ultimately show ?thesis using y(2) by (auto simp: dvd_eq_mod_eq_0 q_def)
  qed
qed

lemma days_before_step: "days_before (y + 1) = days_before y + 365 + (if leap (y + 1) then 1 else 0)"
proof -
  have "100 dvd y + 1 \<Longrightarrow> 4 dvd y + 1" "400 dvd y + 1 \<Longrightarrow> 100 dvd y + 1"
    using dvd_trans [of 4 100 "y + 1"] dvd_trans [of 100 400 "y + 1"] by simp_all
  then show ?thesis unfolding days_before_def leap_def
    by (cases "4 dvd y + 1"; cases "100 dvd y + 1"; cases "400 dvd y + 1") (simp_all add: div_step)
qed

lemma month_cases:
  assumes "1 \<le> m" "m \<le> (12::int)"
  shows "m \<in> {1, 2, 3, 4, 5, 6, 7, 8, 9, 10, 11, 12}"
  using assms by simp presburger

lemma month_start_step:
  "1 \<le> m \<Longrightarrow> m \<le> 12 \<Longrightarrow> m \<noteq> 2 \<Longrightarrow> month_start (march_month m + 1) = month_start (march_month m) + month_length y m"
  using month_cases [of m] by (auto simp: month_start_def march_month_def month_length_def)

lemma valid_date_bounds: "valid_date (y, m, d) \<Longrightarrow> 1 \<le> m \<and> m \<le> 12 \<and> 1 \<le> d \<and> d \<le> 31"
  by (auto simp: valid_date_def month_length_def split: if_splits)

lemma month_length_pos: "1 \<le> month_length y m"
  by (simp add: month_length_def)

lemma valid_next_day: "valid_date dt \<Longrightarrow> valid_date (next_day dt)"
  using month_length_pos by (auto simp: valid_date_def next_day_def split: prod.splits if_splits)

definition days_of :: "int \<times> int \<times> int \<Rightarrow> int" where
  "days_of = (\<lambda>(y, m, d). days_from_civil y m d)"

lemma days_of_next_day:
  assumes "valid_date dt"
  shows "days_of (next_day dt) = days_of dt + 1"
proof -
  obtain y m d where dt: "dt = (y, m, d)" by (cases dt)
  note v = valid_date_bounds [OF assms [unfolded dt]]
  have closed: "days_of (y, m, d) = days_before (march_year y m) + month_start (march_month m) + d - 719469"
    using v by (simp add: days_of_def days_from_civil_closed)
  have closed': "days_of (y', m', d') = days_before (march_year y' m') + month_start (march_month m') + d' - 719469"
    if "(y', m', d') = next_day dt" for y' m' d'
    using valid_date_bounds [of y' m' d'] valid_next_day [OF assms]
    by (simp add: days_of_def days_from_civil_closed flip: that)
  consider "d < month_length y m" | "d = month_length y m" "m = 2"
    | "d = month_length y m" "m \<noteq> 2" "m < 12" | "d = month_length y m" "m = 12"
    using assms v unfolding dt valid_date_def prod.case by (metis order_le_less)
  then show ?thesis
  proof cases
    case 1
    then show ?thesis using closed closed' [of y m "d + 1"] by (simp add: dt next_day_def)
  next
    case 2
    then show ?thesis using closed closed' [of y 3 1] days_before_step [of "y - 1"]
      by (simp add: dt next_day_def march_year_def march_month_def month_start_def month_length_def)
  next
    case 3
    then have "march_year y (m + 1) = march_year y m" "march_month (m + 1) = march_month m + 1"
      using v by (auto simp: march_year_def march_month_def)
    then show ?thesis using 3 v closed closed' [of y "m + 1" 1] month_start_step [of m y]
      by (simp add: dt next_day_def)
  next
    case 4
    then show ?thesis using closed closed' [of "y + 1" 1 1]
      by (simp add: dt next_day_def march_year_def march_month_def month_start_def month_length_def)
  qed
qed

text \<open>
  C19. \<open>days_from_civil\<close> counts the days of the Gregorian calendar: 1970-01-01 is day 0, and the day
  after any valid date, through month ends, leap days and year ends of any year, has the next number.
\<close>

theorem days_from_civil_counts_days:
  "days_from_civil 1970 1 1 = 0
   \<and> (\<forall>y m d. valid_date (y, m, d) \<longrightarrow>
        (case next_day (y, m, d) of (y', m', d') \<Rightarrow> days_from_civil y' m' d' = days_from_civil y m d + 1))"
proof -
  have "days_from_civil 1970 1 1 = 0" by code_simp
  moreover have "case next_day (y, m, d) of (y', m', d') \<Rightarrow> days_from_civil y' m' d' = days_from_civil y m d + 1"
    if "valid_date (y, m, d)" for y m d
    using days_of_next_day [OF that] by (simp add: days_of_def split_beta)
  ultimately show ?thesis by blast
qed

section \<open>The inverse\<close>

text \<open>The last day of a March year exists only when the year ends in a leap day.\<close>

definition year_of_era_ok :: "int \<Rightarrow> int \<Rightarrow> bool" where
  "year_of_era_ok yoe doy \<longleftrightarrow> 0 \<le> yoe \<and> yoe < 400 \<and> 0 \<le> doy \<and> (doy < 365 \<or> doy = 365 \<and> leap (yoe + 1))"

lemma leap_in_era:
  assumes "0 \<le> c" "0 \<le> q" "q < 25" "0 \<le> r" "r < 4" "c < 4" "leap (100 * c + 4 * q + r + 1)"
  shows "r = 3 \<and> (q < 24 \<or> c = 3)"
proof -
  have "4 dvd 100 * c + 4 * q + r + 1" using assms(7) by (simp add: leap_def)
  then have "4 dvd (r + 1) + 4 * (25 * c + q)" by (simp add: algebra_simps)
  then have r: "r = 3" using assms(4,5) by (auto simp: dvd_add_left_iff dest: zdvd_imp_le)
  show ?thesis
  proof (cases "q = 24")
    case True
    then have e: "100 * c + 4 * q + r + 1 = 100 * (c + 1)" using r by simp
    have "400 dvd 100 * (c + 1)" using assms(7) unfolding e leap_def by (meson dvd_triv_left)
    then have "4 dvd c + 1" using dvd_mult_cancel_left [of 100 4 "c + 1"] by simp
    then show ?thesis using assms r by (auto dest: zdvd_imp_le)
  qed (use assms r in auto)
qed

lemma year_of_era:
  assumes "year_of_era_ok yoe doy"
  defines "doe \<equiv> year_start yoe + doy"
  shows "0 \<le> doe \<and> doe < 146097 \<and> (doe - doe div 1460 + doe div 36524 - doe div 146096) div 365 = yoe"
proof -
  define c q r where "c = yoe div 100" and "q = yoe mod 100 div 4" and "r = yoe mod 4"
  have b: "0 \<le> c" "c < 4" "0 \<le> q" "q < 25" "0 \<le> r" "r < 4"
  proof -
    have "yoe mod 100 < 100" "0 \<le> yoe" "yoe < 400" using assms(1) by (auto simp: year_of_era_ok_def)
    then show "0 \<le> c" "c < 4" "0 \<le> q" "q < 25" "0 \<le> r" "r < 4"
      unfolding c_def q_def r_def by linarith+
  qed
  have "yoe mod 100 mod 4 = yoe mod 4" by (simp add: mod_mod_cancel)
  then have y: "yoe = 100 * c + 4 * q + r"
    using mult_div_mod_eq [of 100 yoe] mult_div_mod_eq [of 4 "yoe mod 100"] unfolding c_def q_def r_def by linarith
  have dy: "0 \<le> doy" "doy < 365 \<or> doy = 365 \<and> r = 3 \<and> (q < 24 \<or> c = 3)"
    using assms(1) leap_in_era [OF b(1,3,4,5,6,2)] by (auto simp: year_of_era_ok_def y)
  have "(100 * c + 4 * q + r) div 4 = 25 * c + q" "(100 * c + 4 * q + r) div 100 = c" using b by linarith+
  then have doe: "doe = 36524 * c + 1461 * q + 365 * r + doy"
    unfolding doe_def year_start_def y by simp
  have range: "0 \<le> doe" "doe < 146097" using b dy unfolding doe by linarith+
  show ?thesis
  proof (cases "doe = 146096")
    case True
    then have "yoe = 399" using b dy unfolding doe y by linarith
    with True range show ?thesis by simp
  next
    case False
    have d3: "doe div 146096 = 0" using range False by simp
    have "1461 * q + 365 * r + doy < 36524 \<or> doe = 146096" using b dy unfolding doe by linarith
    then have d2: "doe div 36524 = c" using False b dy unfolding doe by linarith
    define t where "t = (24 * c + q + 365 * r + doy) div 1460"
    have "doe = (24 * c + q + 365 * r + doy) + 1460 * (25 * c + q)" unfolding doe by simp
    then have d1: "doe div 1460 = 25 * c + q + t" unfolding t_def by (metis div_mult_self2 add.commute zero_neq_numeral)
    have t: "t = 0 \<and> 24 * c + q + 365 * r + doy < 1460 \<or> t = 1 \<and> 1460 \<le> 24 * c + q + 365 * r + doy"
      using b dy unfolding t_def by linarith
    have "0 \<le> doy - t" "doy - t < 365" using t b dy by linarith+
    moreover have "doe - doe div 1460 + doe div 36524 - doe div 146096 = 365 * yoe + (doy - t)"
      unfolding d1 d2 d3 y by (simp add: doe)
    ultimately show ?thesis using range by simp
  qed
qed


lemma month_of_year:
  assumes "1 \<le> m" "m \<le> 12" "1 \<le> d" "d \<le> month_length y m"
  defines "doy \<equiv> month_start (march_month m) + d - 1"
  shows "(5 * doy + 2) div 153 = march_month m" and "0 \<le> doy" and "doy < 365 \<or> m = 2 \<and> d = 29 \<and> doy = 365"
proof -
  define mp where "mp = march_month m"
  have mp: "0 \<le> mp" "mp \<le> 11" "m = 2 \<longleftrightarrow> mp = 11" using assms(1,2) by (auto simp: mp_def march_month_def)
  have len: "d \<le> month_start (mp + 1) - month_start mp" if "m \<noteq> 2"
    using month_start_step [OF assms(1,2) that, of y] assms(4) by (simp add: mp_def)
  have feb: "d \<le> 29" if "m = 2" using assms(4) that by (simp add: month_length_def split: if_splits)
  have doy: "doy = month_start mp + d - 1" by (simp add: doy_def mp_def)
  define a b where "a = month_start mp" and "b = month_start (mp + 1)"
  have floor5: "5 * (x div 5) \<le> x" "x < 5 * (x div 5) + 5" for x :: int by presburger+
  have ab: "5 * a \<le> 153 * mp + 2" "153 * mp + 2 < 5 * a + 5" "5 * b \<le> 153 * mp + 155"
    using floor5 [of "153 * mp + 2"] floor5 [of "153 * (mp + 1) + 2"] by (simp_all add: a_def b_def month_start_def)
  note doy' = doy [folded a_def] and len' = len [folded a_def b_def]
  show "0 \<le> doy" using assms(3) mp ab unfolding doy' by linarith
  show "(5 * doy + 2) div 153 = march_month m"
  proof (cases "m = 2")
    case True
    then show ?thesis using mp(3) feb assms(3) unfolding mp_def [symmetric] doy by (simp add: month_start_def)
  next
    case False
    have "153 * mp \<le> 5 * doy + 2" "5 * doy + 2 < 153 * mp + 153" using len' [OF False] assms(3) ab unfolding doy' by simp_all
    then show ?thesis unfolding mp_def [symmetric] by linarith
  qed
  show "doy < 365 \<or> m = 2 \<and> d = 29 \<and> doy = 365"
  proof (cases "m = 2")
    case True
    then show ?thesis using mp(3) feb unfolding doy by (auto simp: month_start_def)
  next
    case False
    then have "mp \<le> 10" using mp by linarith
    then show ?thesis using len' [OF False] ab unfolding doy' by linarith
  qed
qed

lemma leap_era: "leap (y mod 400 + 1) \<longleftrightarrow> leap (y + 1)"
proof -
  have y: "y + 1 = 400 * (y div 400) + (y mod 400 + 1)" by simp
  have "k dvd y + 1 \<longleftrightarrow> k dvd y mod 400 + 1" if "k dvd 400" for k
    by (subst y, rule dvd_add_right_iff) (use that in simp)
  from this [of 4] this [of 100] this [of 400] show ?thesis by (simp add: leap_def)
qed

lemma civil_from_days_eq:
  assumes "year_of_era_ok yoe doy"
  shows "civil_from_days (era * 146097 + year_start yoe + doy - 719468) =
    (let mp = (5 * doy + 2) div 153; month = (if mp < 10 then mp + 3 else mp - 9)
     in (unsigned32 (yoe + era * 400 + (if month \<le> 2 then 1 else 0)), month, doy - month_start mp + 1))"
proof -
  define doe where "doe = year_start yoe + doy"
  have doe: "0 \<le> doe" "doe < 146097" "(doe - doe div 1460 + doe div 36524 - doe div 146096) div 365 = yoe"
    using year_of_era [OF assms] by (simp_all add: doe_def)
  have b: "0 \<le> yoe" "yoe < 400" "0 \<le> doy" "doy \<le> 365" using assms by (auto simp: year_of_era_ok_def)
  have z: "era * 146097 + year_start yoe + doy - 719468 + 719468 = doe + era * 146097" by (simp add: doe_def)
  have era: "(doe + era * 146097) div 146097 = era" using doe(1,2) by simp
  have u0: "unsigned32 (doe + era * 146097 - era * 146097) = doe" using doe(1,2) by (simp add: unsigned32_id)
  have u1: "unsigned32 (doe - doe div 1460 + doe div 36524 - doe div 146096) =
      doe - doe div 1460 + doe div 36524 - doe div 146096"
  proof (rule unsigned32_id)
    have "0 \<le> doe div 36524" "doe div 36524 \<le> doe" "doe div 1460 \<le> doe" "0 \<le> doe div 1460"
        "0 \<le> doe div 146096" "doe div 146096 \<le> doe div 36524"
      using doe(1,2) by linarith+
    then show "0 \<le> doe - doe div 1460 + doe div 36524 - doe div 146096"
      "doe - doe div 1460 + doe div 36524 - doe div 146096 < 4294967296" using doe(1,2) by linarith+
  qed
  have ys: "0 \<le> year_start yoe" "year_start yoe < 200000" using b unfolding year_start_def by linarith+
  have u2: "unsigned32 (365 * yoe + yoe div 4 - yoe div 100) = year_start yoe"
    using ys by (simp add: unsigned32_id year_start_def mult.commute)
  have u3: "unsigned32 (doe - year_start yoe) = doy" using b by (simp add: unsigned32_id doe_def)
  define mp where "mp = (5 * doy + 2) div 153"
  have mp: "unsigned32 (5 * doy + 2) div 153 = mp" "0 \<le> mp" "mp \<le> 11"
    using b by (simp_all add: mp_def unsigned32_id)
  have "(153 * mp + 2) div 5 \<le> doy" using mp_def b by linarith
  then have u4: "unsigned32 (153 * mp + 2) div 5 = month_start mp" "unsigned32 (doy - month_start mp + 1) = doy - month_start mp + 1"
    using mp(2,3) b by (auto simp: month_start_def unsigned32_id)
  have u5: "(if mp < 10 then unsigned32 (mp + 3) else unsigned32 (mp - 9)) = (if mp < 10 then mp + 3 else mp - 9)"
    using mp(2,3) by (simp add: unsigned32_id)
  have u6: "unsigned32 (unsigned32 x + y) = unsigned32 (x + y)" for x y
    by (simp add: unsigned32_def mod_add_left_eq)
  show ?thesis
    unfolding civil_from_days_def Let_def z era_days_div era u0 u1 doe(3) u2 u3 mp(1) u4 u5 u6 mp_def [symmetric] by simp
qed

lemma civil_from_days_of:
  assumes "valid_date (y, m, d)" and "0 \<le> y" and "y < 2 ^ 32"
  shows "civil_from_days (days_from_civil y m d) = (y, m, d)"
proof -
  note v = valid_date_bounds [OF assms(1)]
  have len: "d \<le> month_length y m" using assms(1) by (simp add: valid_date_def)
  define doy where "doy = month_start (march_month m) + d - 1"
  have month: "(5 * doy + 2) div 153 = march_month m" "0 \<le> doy" "doy < 365 \<or> m = 2 \<and> d = 29 \<and> doy = 365"
    using month_of_year [of m d y] v len unfolding doy_def by blast+
  have "leap y" if "m = 2" "d = 29"
    using that len by (simp add: month_length_def split: if_splits)
  then have "doy < 365 \<or> doy = 365 \<and> leap (march_year y m + 1)"
    using month(3) by (auto simp: march_year_def)
  then have ok: "year_of_era_ok (march_year y m mod 400) doy"
    using month(2) by (simp add: year_of_era_ok_def leap_era)
  have "days_from_civil y m d = march_year y m div 400 * 146097 + year_start (march_year y m mod 400) + doy - 719468"
    using v by (simp add: days_from_civil_eq doy_def)
  moreover have "march_year y m mod 400 + march_year y m div 400 * 400 = march_year y m" by simp
  moreover have "(if march_month m < 10 then march_month m + 3 else march_month m - 9) = m"
    using v by (simp add: march_month_def)
  moreover have "march_year y m + (if m \<le> 2 then 1 else 0) = y" by (simp add: march_year_def)
  ultimately show ?thesis
    using civil_from_days_eq [OF ok, of "march_year y m div 400"] assms(2,3)
    by (simp only: month(1) Let_def) (simp add: unsigned32_id doy_def)
qed

text \<open>Every day from 0000-01-01 on is the day of some valid date.\<close>

lemma every_day_has_a_date:
  "\<exists>y m d. valid_date (y, m, d) \<and> 0 \<le> y \<and> days_from_civil y m d = int n - 719528"
proof (induction n)
  case 0
  have "valid_date (0, 1, 1) \<and> days_from_civil 0 1 1 = - 719528" by code_simp
  then show ?case by (intro exI [of _ 0] exI [of _ 1]) simp
next
  case (Suc n)
  then obtain y m d where dt: "valid_date (y, m, d)" "0 \<le> y" "days_of (y, m, d) = int n - 719528"
    by (auto simp: days_of_def)
  obtain y' m' d' where n: "next_day (y, m, d) = (y', m', d')" by (cases "next_day (y, m, d)")
  have "0 \<le> y'" using n dt(2) by (auto simp: next_day_def split: if_splits)
  moreover have "days_from_civil y' m' d' = int (Suc n) - 719528"
    using days_of_next_day [OF dt(1)] dt(3) n by (simp add: days_of_def)
  ultimately show ?case using valid_next_day [OF dt(1)] n by (intro exI [of _ y'] exI [of _ m'] exI [of _ d']) simp
qed

lemma days_from_civil_ge:
  assumes "valid_date (y, m, d)" and "0 \<le> y"
  shows "365 * y - 719529 - 365 \<le> days_from_civil y m d"
proof -
  note v = valid_date_bounds [OF assms(1)]
  have "0 \<le> march_month m" using v by (simp add: march_month_def)
  then have "0 \<le> month_start (march_month m)" by (simp add: month_start_def)
  moreover have "365 * (y - 1) - 1 \<le> days_before (march_year y m)"
  proof (cases "0 \<le> march_year y m")
    case True
    then have "march_year y m div 100 \<le> march_year y m div 4" "0 \<le> march_year y m div 400"
      by (simp_all add: zdiv_mono2)
    then show ?thesis unfolding days_before_def by (simp add: march_year_def split: if_splits)
  next
    case False
    then have "march_year y m = - 1" "y = 0" using assms(2) by (auto simp: march_year_def split: if_splits)
    then show ?thesis by (simp add: days_before_def)
  qed
  ultimately show ?thesis using v by (simp add: days_from_civil_closed)
qed

lemma civil_from_days_inverse:
  assumes "- 719528 \<le> z" and "z < 365 * (2 ^ 32 - 2000)"
  shows "\<exists>y m d. civil_from_days z = (y, m, d) \<and> valid_date (y, m, d) \<and> 0 \<le> y \<and> days_from_civil y m d = z"
proof -
  obtain y m d where dt: "valid_date (y, m, d)" "0 \<le> y" "days_from_civil y m d = z"
    using every_day_has_a_date [of "nat (z + 719528)"] assms(1) by auto
  have "y < 2 ^ 32" using days_from_civil_ge [OF dt(1,2)] assms(2) unfolding dt(3) by simp
  with civil_from_days_of [OF dt(1,2)] dt show ?thesis by simp
qed

text \<open>
  C26. The two functions are inverse to each other: turning a valid date of a year from 0 up to
  \<open>2 ^ 32 - 1\<close> into days and back gives the date, and every day number from 0000-01-01 to some four
  billion years later is turned into a valid date that stands for it.
\<close>

theorem date_roundtrip:
  "(\<forall>y m d. valid_date (y, m, d) \<and> 0 \<le> y \<and> y < 2 ^ 32 \<longrightarrow> civil_from_days (days_from_civil y m d) = (y, m, d))
   \<and> (\<forall>z. - 719528 \<le> z \<and> z < 365 * (2 ^ 32 - 2000) \<longrightarrow>
        (case civil_from_days z of (y, m, d) \<Rightarrow> valid_date (y, m, d) \<and> days_from_civil y m d = z))"
  using civil_from_days_of civil_from_days_inverse by fastforce

theorem days_from_civil_counts_days_witness:
  "valid_date (2024, 2, 28) \<and> next_day (2024, 2, 28) = (2024, 2, 29)
   \<and> days_from_civil 2024 2 29 = days_from_civil 2024 2 28 + 1"
proof -
  have n: "valid_date (2024, 2, 28)" "next_day (2024, 2, 28) = (2024, 2, 29)" by code_simp+
  have "case next_day (2024, 2, 28) of (y', m', d') \<Rightarrow> days_from_civil y' m' d' = days_from_civil 2024 2 28 + 1"
    by (rule conjunct2 [OF days_from_civil_counts_days, rule_format, OF n(1)])
  then show ?thesis using n by simp
qed

theorem date_roundtrip_witness:
  "valid_date (2000, 2, 29) \<and> civil_from_days (days_from_civil 2000 2 29) = (2000, 2, 29)"
proof -
  have v: "valid_date (2000, 2, 29)" by code_simp
  then have "valid_date (2000, 2, 29) \<and> 0 \<le> (2000 :: int) \<and> (2000 :: int) < 2 ^ 32" by simp
  from conjunct1 [OF date_roundtrip, rule_format, OF this] v show ?thesis by blast
qed

end
