(* ===== verification/Rtc.thy ===== *)
theory Rtc
  imports Prelude
begin

text \<open>
  The CMOS clock driver, \<^verbatim>\<open>src/src/drivers/char/rtc.c\<close>. The clock itself is a parameter \<open>dev\<close>: what
  the data port shows at the \<open>t\<close>-th access when the index port holds a register number. The lock makes
  the accesses of one call consecutive.
\<close>

unbundle bit_operations_syntax

section \<open>The code\<close>

record rtc_time =
  second :: u8
  minute :: u8
  hour :: u8
  day :: u8
  month :: u8
  year :: u16

type_synonym cmos_device = "nat \<Rightarrow> u8 \<Rightarrow> u8"

definition cmos_read :: "cmos_device \<Rightarrow> nat \<Rightarrow> u8 \<Rightarrow> u8 \<times> nat" where
  "cmos_read dev t reg = (dev t (0x80 OR reg), t + 1)"

fun read_list :: "cmos_device \<Rightarrow> nat \<Rightarrow> u8 list \<Rightarrow> u8 list \<times> nat" where
  "read_list dev t [] = ([], t)"
| "read_list dev t (r # rs) =
     (let (v, t) = cmos_read dev t r; (vs, t) = read_list dev t rs in (v # vs, t))"

text \<open>Seconds, minutes, hours, day, month, year, in the order \<open>rtc_decode\<close> takes them.\<close>

definition read_registers :: "cmos_device \<Rightarrow> nat \<Rightarrow> u8 list \<times> nat" where
  "read_registers dev t = read_list dev t [0x00, 0x02, 0x04, 0x07, 0x08, 0x09]"

definition from_bcd :: "u8 \<Rightarrow> u8" where
  "from_bcd v = (v AND 0x0F) + drop_bit 4 v * 10"

definition rtc_decode :: "u8 list \<Rightarrow> u8 \<Rightarrow> rtc_time" where
  "rtc_decode raw status_b =
     (let binary = (status_b AND 0x04 \<noteq> 0); hours_24 = (status_b AND 0x02 \<noteq> 0);
          v = map (\<lambda>r. if binary then r else from_bcd r) raw;
          hr = raw ! 2;
          hr = (if \<not> hours_24
             then (let pm = (hr AND 0x80 \<noteq> 0);
                       hr = (if binary then hr AND 0x7F else from_bcd (hr AND 0x7F));
                       hr = (if hr = 12 then 0 else hr)
                   in if pm then hr + 12 else hr)
             else v ! 2)
      in \<lparr>second = v ! 0, minute = v ! 1, hour = hr, day = v ! 3, month = v ! 4, year = 2000 + ucast (v ! 5)\<rparr>)"

text \<open>Waiting for the update-in-progress bit to clear, for at most \<open>n\<close> reads.\<close>

fun wait_update :: "cmos_device \<Rightarrow> nat \<Rightarrow> nat \<Rightarrow> nat" where
  "wait_update dev t 0 = t"
| "wait_update dev t (Suc n) =
     (let (a, t) = cmos_read dev t 0x0A in if a AND 0x80 \<noteq> 0 then wait_update dev t n else t)"

text \<open>Reading again until two reads agree, for at most \<open>tries\<close> times.\<close>

fun read_again :: "cmos_device \<Rightarrow> nat \<Rightarrow> u8 list \<Rightarrow> nat \<Rightarrow> u8 list \<times> nat" where
  "read_again dev t raw 0 = (raw, t)"
| "read_again dev t raw (Suc tries) =
     (let t = wait_update dev t 100000; (again, t) = read_registers dev t
      in if raw = again then (raw, t) else read_again dev t again tries)"

definition rtc_read_time :: "cmos_device \<Rightarrow> nat \<Rightarrow> rtc_time \<times> nat" where
  "rtc_read_time dev t =
     (let t = wait_update dev t 100000; (raw, t) = read_registers dev t;
          (raw, t) = read_again dev t raw 8;
          (status_b, t) = cmos_read dev t 0x0B
      in (rtc_decode raw status_b, t))"

section \<open>Decoding\<close>

text \<open>How the clock keeps a time in its registers, in the mode status register B selects.\<close>

definition to_bcd :: "nat \<Rightarrow> nat" where
  "to_bcd n = n div 10 * 16 + n mod 10"

definition keep :: "u8 \<Rightarrow> nat \<Rightarrow> nat" where
  "keep status_b n = (if bit status_b 2 then n else to_bcd n)"

definition keep_hour :: "u8 \<Rightarrow> nat \<Rightarrow> nat" where
  "keep_hour status_b h = (if bit status_b 1 then keep status_b h
     else keep status_b (if h mod 12 = 0 then 12 else h mod 12) + (if 12 \<le> h then 128 else 0))"

definition rtc_registers :: "u8 \<Rightarrow> nat \<Rightarrow> nat \<Rightarrow> nat \<Rightarrow> nat \<Rightarrow> nat \<Rightarrow> nat \<Rightarrow> u8 list" where
  "rtc_registers status_b s mi h d mo y = map of_nat
     [keep status_b s, keep status_b mi, keep_hour status_b h, keep status_b d, keep status_b mo, keep status_b (y - 2000)]"

lemma bcd_table: "list_all (\<lambda>n. from_bcd (of_nat (to_bcd n)) = of_nat n) [0 ..< 100]"
  by code_simp

lemma from_bcd_to_bcd: "n < 100 \<Longrightarrow> from_bcd (of_nat (to_bcd n)) = of_nat n"
  using bcd_table by (simp add: list_all_iff)

definition decode_hour :: "bool \<Rightarrow> bool \<Rightarrow> u8 \<Rightarrow> u8" where
  "decode_hour binary hours_24 r =
     (if \<not> hours_24
      then (let pm = (r AND 0x80 \<noteq> 0);
                hr = (if binary then r AND 0x7F else from_bcd (r AND 0x7F));
                hr = (if hr = 12 then 0 else hr)
            in if pm then hr + 12 else hr)
      else if binary then r else from_bcd r)"

lemma hour_table:
  "list_all (\<lambda>h. list_all (\<lambda>b. decode_hour (bit b 2) (bit b 1) (of_nat (keep_hour b h)) = of_nat h) [0, 2, 4, 6]) [0 ..< 24]"
  by code_simp

lemma hour_roundtrip:
  assumes "h < 24"
  shows "decode_hour (bit b 2) (bit b 1) (of_nat (keep_hour b h)) = of_nat h"
proof -
  define c :: u8 where "c = (if bit b 2 then 4 else 0) OR (if bit b 1 then 2 else 0)"
  have bits: "bit c 2 \<longleftrightarrow> bit b 2" "bit c 1 \<longleftrightarrow> bit b 1"
    by (simp_all add: c_def bit_simps)
  have "c \<in> set [0, 2, 4, 6]" by (simp add: c_def)
  then have "decode_hour (bit c 2) (bit c 1) (of_nat (keep_hour c h)) = of_nat h"
    using hour_table assms unfolding list_all_iff by (metis atLeastLessThan_upt atLeastLessThan_iff zero_le)
  moreover have "keep_hour c h = keep_hour b h" unfolding keep_hour_def keep_def bits ..
  ultimately show ?thesis by (simp only: bits)
qed

lemma mode_bits: "b AND 0x04 \<noteq> 0 \<longleftrightarrow> bit b 2" "b AND 0x02 \<noteq> 0 \<longleftrightarrow> bit b 1" for b :: u8
  using and_push_bit_one_eq_0_iff [of b 2] and_push_bit_one_eq_0_iff [of b 1] by simp_all

lemma rtc_decode_fields:
  "rtc_decode [a, b, c, d, e, f] sb = (let v = (\<lambda>r. if bit sb 2 then r else from_bcd r) in
     \<lparr>second = v a, minute = v b, hour = decode_hour (bit sb 2) (bit sb 1) c, day = v d, month = v e,
       year = 2000 + ucast (v f)\<rparr>)"
  unfolding rtc_decode_def mode_bits decode_hour_def by (simp add: Let_def)

text \<open>
  C27. In each of the four modes of the clock (BCD or binary, 12 or 24 hours) \<open>rtc_decode\<close> recovers
  the time the registers hold: midnight, noon and every other hour included.
\<close>

theorem rtc_decode_correct:
  assumes "s < 60" and "mi < 60" and "h < 24" and "d < 32" and "mo \<le> 12" and "2000 \<le> y" and "y < 2100"
  shows "rtc_decode (rtc_registers status_b s mi h d mo y) status_b =
    \<lparr>second = of_nat s, minute = of_nat mi, hour = of_nat h, day = of_nat d, month = of_nat mo, year = of_nat y\<rparr>"
proof -
  define v where "v = (\<lambda>r. if bit status_b 2 then r else from_bcd r)"
  have dec: "v (of_nat (keep status_b n)) = (of_nat n :: u8)"
    if "n < 100" for n using from_bcd_to_bcd [OF that] by (simp add: keep_def v_def)
  have hour: "decode_hour (bit status_b 2) (bit status_b 1) (of_nat (keep_hour status_b h)) = of_nat h"
    by (rule hour_roundtrip) (rule assms)
  have "2000 + ucast (of_nat (y - 2000) :: u8) = (of_nat y :: u16)"
  proof -
    obtain k where k: "y = 2000 + k" "k < 100" using assms(6,7) le_Suc_ex [OF assms(6)] by auto
    then have "ucast (of_nat k :: u8) = (of_nat k :: u16)" by (simp add: unsigned_of_nat take_bit_eq_mod)
    then show ?thesis by (simp add: k)
  qed
  then show ?thesis using assms
    unfolding rtc_registers_def list.map rtc_decode_fields v_def [symmetric] Let_def hour by (simp add: dec)
qed

section \<open>Reading\<close>

text \<open>
  While the clock is not being updated and its registers keep their values, a read waits for nothing
  and returns them.
\<close>

lemma wait_update_idle: "dev t 0x8A AND 0x80 = 0 \<Longrightarrow> wait_update dev t (Suc n) = t + 1"
  by (simp add: cmos_read_def)

lemma wait_update_bound: "t \<le> wait_update dev t n \<and> wait_update dev t n \<le> t + n"
proof (induction n arbitrary: t)
  case (Suc n)
  from Suc.IH [of "t + 1"] show ?case by (simp add: cmos_read_def)
qed simp

lemma read_list_eq: "read_list dev t rs = (map (\<lambda>i. dev (t + i) (0x80 OR rs ! i)) [0 ..< length rs], t + length rs)"
proof (induction rs arbitrary: t)
  case (Cons r rs)
  have "[0 ..< length (r # rs)] = 0 # map Suc [0 ..< length rs]" by (metis length_Cons map_Suc_upt upt_conv_Cons zero_less_Suc)
  then show ?case using Cons.IH [of "t + 1"] by (simp add: cmos_read_def comp_def)
qed simp

lemma length_read_registers [simp]: "length (fst (read_registers dev t)) = 6"
  by (simp add: read_registers_def read_list_eq)

text \<open>
  What \<open>read_again\<close> returns is a complete set of registers as read in one go.
\<close>

lemma read_again_reads:
  "(\<exists>u. raw = fst (read_registers dev u)) \<Longrightarrow> \<exists>u. fst (read_again dev t raw n) = fst (read_registers dev u)"
  by (induction dev t raw n rule: read_again.induct) (auto simp: Let_def split: prod.splits, metis fst_conv)

section \<open>Example\<close>

theorem rtc_decode_correct_witness:
  "rtc_decode (rtc_registers 0 59 30 12 29 2 2024) 0 =
     \<lparr>second = 59, minute = 30, hour = 12, day = 29, month = 2, year = 2024\<rparr>"
  using rtc_decode_correct [of 59 30 12 29 2 2024 0] by simp

end
