(* ===== verification/Walltime.thy ===== *)
theory Walltime
  imports Date Rtc
begin

text \<open>
  The time of day, \<^verbatim>\<open>src/src/kernel/time/walltime.c\<close>: the offset between the nanosecond clock and Unix
  time, the conversion to and from dates, and the comparison with the CMOS clock. Readings of the two
  clocks are arguments, in the order the code takes them; the state is read and written one word at a
  time, and a call is one step.
\<close>

section \<open>The code\<close>

abbreviation (input) "NS_PER_SECOND \<equiv> 1000000000 :: u64"
abbreviation (input) "WALLTIME_CHECK_LIMIT_NS \<equiv> 1500000000 :: int"
abbreviation (input) "WALLTIME_MIN_SECONDS \<equiv> 315532800 :: u64"
abbreviation (input) "WALLTIME_MAX_SECONDS \<equiv> 4291747199 :: u64"

record walltime =
  offset_ns :: u64
  started :: bool
  set_delta_ns :: u64
  last_check_ns :: u64

definition walltime_boot :: walltime where
  "walltime_boot = \<lparr>offset_ns = 0, started = False, set_delta_ns = 0, last_check_ns = 0\<rparr>"

definition walltime_from_date :: "rtc_time \<Rightarrow> u64" where
  "walltime_from_date date =
     (let days = days_from_civil (uint (year date)) (uint (month date)) (uint (day date))
      in word_of_int (days * 86400 + uint (hour date) * 3600 + uint (minute date) * 60 + uint (second date)))"

definition walltime_to_date :: "u64 \<Rightarrow> rtc_time" where
  "walltime_to_date seconds =
     (let (y, m, d) = civil_from_days (sint (seconds div 86400));
          rest = ucast (seconds mod 86400) :: u32
      in \<lparr>second = ucast (rest mod 60), minute = ucast (rest div 60 mod 60), hour = ucast (rest div 3600),
          day = word_of_int d, month = word_of_int m, year = word_of_int y\<rparr>)"

definition cmos_ns :: "rtc_time \<Rightarrow> u64" where
  "cmos_ns now =
     (if month now < 1 \<or> month now > 12 \<or> day now < 1 \<or> day now > 31 \<or> hour now > 23 \<or>
         minute now > 59 \<or> second now > 59 then 0
      else walltime_from_date now * NS_PER_SECOND)"

definition cmos_middle_ns :: "rtc_time \<Rightarrow> u64" where
  "cmos_middle_ns now = (let cmos = cmos_ns now in if cmos \<noteq> 0 then cmos + NS_PER_SECOND div 2 else 0)"

text \<open>\<open>rtc\<close> is what the CMOS clock shows, \<open>now\<close> what the nanosecond clock does.\<close>

definition walltime_check :: "walltime \<Rightarrow> rtc_time \<Rightarrow> u64 \<Rightarrow> walltime \<times> int" where
  "walltime_check w rtc now =
     (if \<not> started w then (w, 0)
      else let cmos = cmos_middle_ns rtc in
        if cmos = 0 then (w, 0)
        else let target = cmos + set_delta_ns w;
                 out = sint (now + offset_ns w - target);
                 w = (if out > WALLTIME_CHECK_LIMIT_NS \<or> out < - WALLTIME_CHECK_LIMIT_NS
                      then w\<lparr>offset_ns := target - now\<rparr> else w)
             in (w\<lparr>last_check_ns := now\<rparr>, out))"

text \<open>
  \<open>held\<close> is the number of spinlocks this CPU holds, \<open>now\<close> the first reading of the nanosecond clock
  and \<open>now'\<close> the one \<open>walltime_check\<close> takes. Calls do not overlap, so the exchange always succeeds.
\<close>

definition check_if_due :: "walltime \<Rightarrow> nat \<Rightarrow> u64 \<Rightarrow> rtc_time \<Rightarrow> u64 \<Rightarrow> walltime" where
  "check_if_due w held now rtc now' =
     (if now - last_check_ns w < NS_PER_SECOND \<or> held \<noteq> 0 then w
      else fst (walltime_check (w\<lparr>last_check_ns := now\<rparr>) rtc now'))"

definition walltime_test_skew :: "walltime \<Rightarrow> u64 \<Rightarrow> walltime" where
  "walltime_test_skew w delta_ns = w\<lparr>offset_ns := offset_ns w + delta_ns\<rparr>"

definition walltime_init :: "walltime \<Rightarrow> rtc_time \<Rightarrow> u64 \<Rightarrow> u64 \<Rightarrow> walltime" where
  "walltime_init w rtc now now' =
     w\<lparr>offset_ns := cmos_ns rtc - now, last_check_ns := now', started := True\<rparr>"

definition walltime_ns :: "walltime \<Rightarrow> nat \<Rightarrow> u64 \<Rightarrow> rtc_time \<Rightarrow> u64 \<Rightarrow> u64 \<Rightarrow> walltime \<times> u64" where
  "walltime_ns w held now rtc now' now'' =
     (if \<not> started w then (w, cmos_ns rtc)
      else let w = check_if_due w held now rtc now' in (w, now'' + offset_ns w))"

definition walltime_seconds :: "u64 \<Rightarrow> u32" where
  "walltime_seconds ns = ucast (ns div NS_PER_SECOND)"

definition walltime_set :: "walltime \<Rightarrow> u64 \<Rightarrow> u64 \<Rightarrow> rtc_time \<Rightarrow> walltime \<times> (errno + unit)" where
  "walltime_set w unix_ns now rtc =
     (let seconds = unix_ns div NS_PER_SECOND in
      if seconds < WALLTIME_MIN_SECONDS \<or> seconds > WALLTIME_MAX_SECONDS then (w, Inl EINVAL)
      else let w = w\<lparr>offset_ns := unix_ns - now\<rparr>;
               cmos = cmos_middle_ns rtc;
               w = (if cmos \<noteq> 0 then w\<lparr>set_delta_ns := unix_ns - cmos\<rparr> else w)
           in (w\<lparr>started := True\<rparr>, Inr ()))"

section \<open>Keeping the time\<close>

text \<open>
  A check against a readable CMOS clock leaves the time of day, seen as a signed difference, within
  the limit of what the CMOS clock (plus what was set) says. A time within the limit is left exactly
  as it was; one outside it is moved onto the target, so a clock found ahead goes back by more than
  the limit.
\<close>

theorem walltime_check_correct:
  assumes "started w" and "cmos_middle_ns rtc \<noteq> 0"
  defines "target \<equiv> cmos_middle_ns rtc + set_delta_ns w"
  shows "case walltime_check w rtc now of (w', out) \<Rightarrow>
      \<bar>sint (now + offset_ns w' - target)\<bar> \<le> WALLTIME_CHECK_LIMIT_NS
    \<and> out = sint (now + offset_ns w - target)
    \<and> (if \<bar>out\<bar> \<le> WALLTIME_CHECK_LIMIT_NS then offset_ns w' = offset_ns w
       else now + offset_ns w' = target)
    \<and> set_delta_ns w' = set_delta_ns w \<and> started w' \<and> last_check_ns w' = now"
  using assms by (auto simp: walltime_check_def Let_def)


text \<open>Outside the range the kernel accepts, setting the time changes nothing.\<close>

lemma walltime_set_range:
  "snd (walltime_set w unix_ns now rtc) = Inl EINVAL \<Longrightarrow> fst (walltime_set w unix_ns now rtc) = w"
  by (auto simp: walltime_set_def Let_def split: if_splits)

section \<open>Dates\<close>

lemma time_of_day:
  assumes "uint s < 86400"
  defines "rest \<equiv> ucast (s :: u64) :: u32"
  shows "uint (ucast (rest div 3600) :: u8) * 3600 + uint (ucast (rest div 60 mod 60) :: u8) * 60
    + uint (ucast (rest mod 60) :: u8) = uint s"
proof -
  have r: "uint rest = uint s" using assms by (simp add: unsigned_ucast_eq take_bit_eq_mod)
  have "0 \<le> uint s div 3600" "uint s div 3600 < 256" using assms(1) uint_nonnegative [of s] by linarith+
  then have "uint (ucast (rest div 3600) :: u8) = uint s div 3600"
    "uint (ucast (rest div 60 mod 60) :: u8) = uint s div 60 mod 60"
    "uint (ucast (rest mod 60) :: u8) = uint s mod 60"
    using assms(1) by (simp_all add: unsigned_ucast_eq take_bit_eq_mod uint_div_distrib uint_mod_distrib r)
  moreover have "uint s div 60 div 60 = uint s div 3600" by (simp flip: zdiv_zmult2_eq)
  ultimately show ?thesis
    using mult_div_mod_eq [of 60 "uint s"] mult_div_mod_eq [of 60 "uint s div 60"] by linarith
qed

text \<open>
  C29. Turning seconds since 1970 into a date and back gives the same seconds, for every time up to
  \<open>2 ^ 40\<close> (some 34,000 years on): no field of \<open>struct rtc_time\<close> is too narrow for its value.
\<close>

theorem walltime_date_roundtrip:
  assumes "seconds < 2 ^ 40"
  shows "walltime_from_date (walltime_to_date seconds) = seconds"
proof -
  define z where "z = uint seconds div 86400"
  have s: "0 \<le> uint seconds" "uint seconds < 1099511627776" using assms by (simp_all add: word_less_def)
  then have z: "0 \<le> z" "z < 12725830" unfolding z_def by linarith+
  have days: "sint (seconds div 86400) = z"
    using z by (simp add: sint_uint signed_take_bit_int_eq_self uint_div_distrib z_def)
  obtain y m d where dt: "civil_from_days z = (y, m, d)" "valid_date (y, m, d)" "0 \<le> y" "days_from_civil y m d = z"
    using civil_from_days_inverse [of z] z by auto
  have "y < 65536" using days_from_civil_ge [OF dt(2,3)] z unfolding dt(4) by simp
  then have fields: "uint (word_of_int y :: u16) = y" "uint (word_of_int m :: u8) = m" "uint (word_of_int d :: u8) = d"
    using valid_date_bounds [OF dt(2)] dt(3) by (simp_all add: uint_word_of_int_eq take_bit_eq_mod)
  have rest: "uint (seconds mod 86400) = uint seconds mod 86400" by (simp add: uint_mod_distrib)
  then have "uint (seconds mod 86400) < 86400" by simp
  note tod = time_of_day [OF this, unfolded rest]
  have "walltime_from_date (walltime_to_date seconds) = word_of_int (z * 86400 + uint seconds mod 86400)"
    unfolding walltime_to_date_def days dt(1) walltime_from_date_def Let_def
    using tod by (simp add: fields dt(4) ac_simps)
  also have "z * 86400 + uint seconds mod 86400 = uint seconds" by (simp add: z_def)
  finally show ?thesis by simp
qed

section \<open>Examples\<close>

definition noon_2024 :: rtc_time where
  "noon_2024 = \<lparr>second = 0, minute = 0, hour = 12, day = 29, month = 2, year = 2024\<rparr>"

lemma noon_2024_ns: "cmos_middle_ns noon_2024 = 1709208000500000000"
  by code_simp

theorem walltime_check_correct_witness:
  "snd (walltime_check (walltime_init walltime_boot noon_2024 0 0) noon_2024 5000000000) = 4500000000"
proof -
  define w where "w = walltime_init walltime_boot noon_2024 0 0"
  have w: "started w" "offset_ns w = 1709208000000000000" "set_delta_ns w = 0"
    unfolding w_def by code_simp+
  have "cmos_middle_ns noon_2024 \<noteq> 0" by (simp add: noon_2024_ns)
  from walltime_check_correct [OF w(1) this, of 5000000000]
  have "snd (walltime_check w noon_2024 5000000000) = sint (4500000000 :: u64)"
    by (simp add: split_beta w noon_2024_ns)
  then show ?thesis by (simp add: w_def)
qed


theorem walltime_date_roundtrip_witness:
  "walltime_from_date (walltime_to_date 1709208000) = 1709208000"
  using walltime_date_roundtrip [of 1709208000] by simp

end
