(* ===== verification/Chacha20.thy ===== *)
theory Chacha20
  imports Bytes
begin

text \<open>
  The ChaCha20 stream cipher of \<^verbatim>\<open>src/lib/crypto/chacha20.c\<close>. The cipher state is the list of its
  sixteen words; a missing input (\<open>in = NULL\<close>) stands for zeros, as in the code.
\<close>

unbundle bit_operations_syntax

section \<open>The code\<close>

definition ROTL32 :: "u32 \<Rightarrow> nat \<Rightarrow> u32" where
  "ROTL32 x n = push_bit n x OR drop_bit (32 - n) x"

text \<open>One line of the macro: \<open>a += b; d ^= a; d = ROTL32(d, n)\<close>.\<close>

definition quarter_line :: "nat \<Rightarrow> nat \<Rightarrow> nat \<Rightarrow> nat \<Rightarrow> u32 list \<Rightarrow> u32 list" where
  "quarter_line a b d n x =
     (let x = x[a := x ! a + x ! b]; x = x[d := x ! d XOR x ! a] in x[d := ROTL32 (x ! d) n])"

definition QUARTERROUND :: "nat \<Rightarrow> nat \<Rightarrow> nat \<Rightarrow> nat \<Rightarrow> u32 list \<Rightarrow> u32 list" where
  "QUARTERROUND a b c d x =
     (let x = quarter_line a b d 16 x; x = quarter_line c d b 12 x;
          x = quarter_line a b d 8 x; x = quarter_line c d b 7 x
      in x)"

definition load32_le :: "u8 list \<Rightarrow> nat \<Rightarrow> u32" where
  "load32_le src i = ucast (src ! i) OR push_bit 8 (ucast (src ! (i + 1)))
     OR push_bit 16 (ucast (src ! (i + 2))) OR push_bit 24 (ucast (src ! (i + 3)))"

definition store32_le :: "u32 \<Rightarrow> u8 list" where
  "store32_le val = [ucast (val AND 0xFF), ucast (drop_bit 8 val AND 0xFF),
     ucast (drop_bit 16 val AND 0xFF), ucast (drop_bit 24 val AND 0xFF)]"

definition chacha20_init :: "u8 list \<Rightarrow> u8 list \<Rightarrow> u32 \<Rightarrow> u32 list" where
  "chacha20_init key nonce counter =
     [0x61707865, 0x3320646e, 0x79622d32, 0x6b206574,
      load32_le key 0, load32_le key 4, load32_le key 8, load32_le key 12,
      load32_le key 16, load32_le key 20, load32_le key 24, load32_le key 28,
      counter,
      load32_le nonce 0, load32_le nonce 4, load32_le nonce 8]"

definition double_round :: "u32 list \<Rightarrow> u32 list" where
  "double_round x =
     (let x = QUARTERROUND 0 4 8 12 x; x = QUARTERROUND 1 5 9 13 x;
          x = QUARTERROUND 2 6 10 14 x; x = QUARTERROUND 3 7 11 15 x;
          x = QUARTERROUND 0 5 10 15 x; x = QUARTERROUND 1 6 11 12 x;
          x = QUARTERROUND 2 7 8 13 x; x = QUARTERROUND 3 4 9 14 x
      in x)"

definition chacha20_block :: "u32 list \<Rightarrow> u8 list" where
  "chacha20_block ctx =
     (let x = (double_round ^^ 10) ctx
      in concat (map (\<lambda>i. store32_le (x ! i + ctx ! i)) [0 ..< 16]))"

function chacha20_xor_loop :: "u32 list \<Rightarrow> u8 list option \<Rightarrow> nat \<Rightarrow> nat \<Rightarrow> u8 list \<Rightarrow> u8 list" where
  "chacha20_xor_loop ctx inp len offset out =
     (if offset < len
      then let key_stream = chacha20_block ctx;
               ctx = ctx[12 := ctx ! 12 + 1];
               bytes_to_process = (if len - offset < 64 then len - offset else 64);
               out = out @ map (\<lambda>i. (case inp of Some xs \<Rightarrow> xs ! (offset + i) | None \<Rightarrow> 0) XOR key_stream ! i)
                             [0 ..< bytes_to_process]
           in chacha20_xor_loop ctx inp len (offset + bytes_to_process) out
      else out)"
  by auto
termination by (relation "measure (\<lambda>(ctx, inp, len, offset, out). len - offset)") auto

definition chacha20_xor_stream :: "u32 list \<Rightarrow> u8 list option \<Rightarrow> nat \<Rightarrow> u8 list" where
  "chacha20_xor_stream ctx inp len = chacha20_xor_loop ctx inp len 0 []"

definition chacha20_encrypt :: "u8 list \<Rightarrow> u8 list \<Rightarrow> u32 \<Rightarrow> u8 list option \<Rightarrow> nat \<Rightarrow> u8 list" where
  "chacha20_encrypt key nonce counter inp len = chacha20_xor_stream (chacha20_init key nonce counter) inp len"

declare chacha20_xor_loop.simps [simp del]

section \<open>The quarter round\<close>

text \<open>The quarter round of RFC 8439, 2.1, on four words.\<close>

definition rfc_quarter :: "u32 \<Rightarrow> u32 \<Rightarrow> u32 \<Rightarrow> u32 \<Rightarrow> u32 \<times> u32 \<times> u32 \<times> u32" where
  "rfc_quarter a b c d =
     (let a = a + b; d = word_rotl 16 (d XOR a);
          c = c + d; b = word_rotl 12 (b XOR c);
          a = a + b; d = word_rotl 8 (d XOR a);
          c = c + d; b = word_rotl 7 (b XOR c)
      in (a, b, c, d))"

text \<open>The example of RFC 8439, 2.1.1.\<close>

lemma rfc_quarter_example:
  "rfc_quarter 0x11111111 0x01020304 0x9b8d6f43 0x01234567 = (0xea2a92f4, 0xcb1cf8ce, 0x4581472e, 0x5881c4bb)"
  by code_simp

lemma ROTL32_rotl:
  assumes "0 < n" and "n < 32"
  shows "ROTL32 x n = word_rotl n x"
proof (rule bit_word_eqI)
  fix k assume "k < LENGTH(32)"
  then have k: "k < 32" by simp
  have e: "LENGTH(32) - n mod LENGTH(32) = 32 - n" using assms by simp
  show "bit (ROTL32 x n) k = bit (word_rotl n x) k"
  proof (cases "k < n")
    case True
    moreover have "(k + (32 - n)) mod 32 = 32 + k - n" "32 - n + k = 32 + k - n" using True assms by simp_all
    ultimately show ?thesis using k e by (simp add: ROTL32_def bit_word_rotl_iff bit_simps add.commute [of k])
  next
    case False
    then have "(k + (32 - n)) mod 32 = k - n" using assms k by (simp add: mod_if)
    moreover have "\<not> bit x (32 - n + k)" using False assms bit_imp_le_length [of x "32 - n + k"] by auto
    ultimately show ?thesis using False k e by (simp add: ROTL32_def bit_word_rotl_iff bit_simps)
  qed
qed

lemma length_quarter_line [simp]: "length (quarter_line a b d n x) = length x"
  by (simp add: quarter_line_def Let_def)

lemma nth_quarter_line:
  assumes "a \<noteq> d" "a < length x" "d < length x" "0 < n" "n < 32"
  shows "quarter_line a b d n x ! i = (if i = d then word_rotl n (x ! d XOR (x ! a + x ! b))
    else if i = a then x ! a + x ! b else x ! i)"
  using assms by (simp add: quarter_line_def Let_def ROTL32_rotl nth_list_update)

lemma QUARTERROUND_rfc:
  assumes "distinct [a, b, c, d]" and "a < length x" "b < length x" "c < length x" "d < length x"
  shows "QUARTERROUND a b c d x = (case rfc_quarter (x ! a) (x ! b) (x ! c) (x ! d) of
    (p, q, r, s) \<Rightarrow> x[a := p, b := q, c := r, d := s])"
proof -
  obtain p q r s where quarter: "rfc_quarter (x ! a) (x ! b) (x ! c) (x ! d) = (p, q, r, s)"
    by (cases "rfc_quarter (x ! a) (x ! b) (x ! c) (x ! d)")
  define x1 x2 x3 where "x1 = quarter_line a b d 16 x" and "x2 = quarter_line c d b 12 x1"
    and "x3 = quarter_line a b d 8 x2"
  note line = nth_quarter_line [of a d _ _ b] nth_quarter_line [of c b _ _ d]
  have len: "length x1 = length x" "length x2 = length x" "length x3 = length x"
    by (simp_all add: x1_def x2_def x3_def)
  have x1: "x1 ! i = (if i = d then word_rotl 16 (x ! d XOR (x ! a + x ! b)) else if i = a then x ! a + x ! b else x ! i)" for i
    unfolding x1_def using assms by (intro line) auto
  have x2: "x2 ! i = (if i = b then word_rotl 12 (x1 ! b XOR (x1 ! c + x1 ! d)) else if i = c then x1 ! c + x1 ! d else x1 ! i)" for i
    unfolding x2_def using assms len by (intro line) auto
  have x3: "x3 ! i = (if i = d then word_rotl 8 (x2 ! d XOR (x2 ! a + x2 ! b)) else if i = a then x2 ! a + x2 ! b else x2 ! i)" for i
    unfolding x3_def using assms len by (intro line) auto
  have x4: "QUARTERROUND a b c d x ! i = (if i = b then word_rotl 7 (x3 ! b XOR (x3 ! c + x3 ! d)) else if i = c then x3 ! c + x3 ! d else x3 ! i)" for i
    unfolding QUARTERROUND_def Let_def x1_def [symmetric] x2_def [symmetric] x3_def [symmetric]
    using assms len by (intro line) auto
  have "QUARTERROUND a b c d x ! i = x[a := p, b := q, c := r, d := s] ! i" for i
    using assms quarter by (auto simp: nth_list_update x4 x3 x2 x1 rfc_quarter_def Let_def)
  moreover have "length (QUARTERROUND a b c d x) = length x" by (simp add: QUARTERROUND_def Let_def)
  ultimately show ?thesis unfolding quarter by (auto intro: nth_equalityI)
qed

lemma load32_le_of_le: "i + 4 \<le> length src \<Longrightarrow> load32_le src i = of_le (take 4 (drop i src))"
proof -
  assume "i + 4 \<le> length src"
  then have e: "take 4 (drop i src) = [src ! i, src ! (i + 1), src ! (i + 2), src ! (i + 3)]"
    by (auto intro!: nth_equalityI simp: less_Suc_eq numeral_eq_Suc)
  show ?thesis unfolding e load32_le_def by (rule bit_word_eqI) (auto simp: bit_simps)
qed

section \<open>The stream\<close>

text \<open>Byte \<open>j\<close> of the key stream: block \<open>j div 64\<close> after the state's own, whose number wraps at \<open>2 ^ 32\<close>.\<close>

definition keystream :: "u32 list \<Rightarrow> nat \<Rightarrow> u8" where
  "keystream ctx j = chacha20_block (ctx[12 := ctx ! 12 + of_nat (j div 64)]) ! (j mod 64)"

definition input_byte :: "u8 list option \<Rightarrow> nat \<Rightarrow> u8" where
  "input_byte inp j = (case inp of Some xs \<Rightarrow> xs ! j | None \<Rightarrow> 0)"

lemma keystream_next_block:
  assumes "12 < length ctx"
  shows "keystream (ctx[12 := ctx ! 12 + 1]) j = keystream ctx (64 + j)"
proof -
  have "(64 + j) div 64 = Suc (j div 64)" by simp
  then show ?thesis using assms unfolding keystream_def by (simp add: add.assoc del: div_add_self1)
qed

lemma chacha20_xor_loop_correct:
  assumes "12 < length ctx" and "offset \<le> len"
  shows "chacha20_xor_loop ctx inp len offset out
    = out @ map (\<lambda>j. input_byte inp (offset + j) XOR keystream ctx j) [0 ..< len - offset]"
  using assms
proof (induction ctx inp len offset out rule: chacha20_xor_loop.induct)
  case (1 ctx inp len offset out)
  define n where "n = (if len - offset < 64 then len - offset else 64)"
  define ctx' where "ctx' = ctx[12 := ctx ! 12 + 1]"
  define part where "part = map (\<lambda>i. input_byte inp (offset + i) XOR chacha20_block ctx ! i) [0 ..< n]"
  show ?case
  proof (cases "offset < len")
    case False
    then show ?thesis using 1(3) by (simp add: chacha20_xor_loop.simps)
  next
    case True
    have n: "0 < n" "n \<le> len - offset" "n \<le> 64" "offset + n \<le> len" "n = 64 \<or> offset + n = len"
      using True 1(3) by (auto simp: n_def)
    have step: "chacha20_xor_loop ctx inp len offset out = chacha20_xor_loop ctx' inp len (offset + n) (out @ part)"
      using True by (subst chacha20_xor_loop.simps) (simp add: n_def ctx'_def part_def input_byte_def Let_def)
    have IH: "chacha20_xor_loop ctx' inp len (offset + n) (out @ part) = (out @ part)
        @ map (\<lambda>j. input_byte inp (offset + n + j) XOR keystream ctx' j) [0 ..< len - (offset + n)]"
      using 1(1) [OF True refl refl refl refl] 1(2) n(4)
      unfolding n_def ctx'_def part_def input_byte_def by simp
    have part: "part = map (\<lambda>j. input_byte inp (offset + j) XOR keystream ctx j) [0 ..< n]"
      unfolding part_def keystream_def using n(3) by (intro map_cong) auto
    have rest: "map (\<lambda>j. input_byte inp (offset + n + j) XOR keystream ctx' j) [0 ..< len - (offset + n)]
        = map (\<lambda>j. input_byte inp (offset + j) XOR keystream ctx j) [n ..< len - offset]"
    proof (cases "offset + n = len")
      case False
      then have "n = 64" using n(5) by simp
      have "[n ..< len - offset] = map (\<lambda>i. i + n) [0 ..< len - (offset + n)]"
        using n(4) map_add_upt [of n "len - (offset + n)"] by simp
      then show ?thesis using \<open>n = 64\<close> keystream_next_block [OF 1(2)]
        by (simp add: ctx'_def comp_def ac_simps)
    qed simp
    have "[0 ..< len - offset] = [0 ..< n] @ [n ..< len - offset]"
      using upt_add_eq_append [of 0 n "len - offset - n"] n(2) by (simp del: diff_diff_left)
    then show ?thesis unfolding step IH unfolding part rest by simp
  qed
qed

lemma chacha20_encrypt_correct:
  "chacha20_encrypt key nonce counter inp len =
     map (\<lambda>j. input_byte inp j XOR keystream (chacha20_init key nonce counter) j) [0 ..< len]"
  by (simp add: chacha20_encrypt_def chacha20_xor_stream_def chacha20_xor_loop_correct chacha20_init_def)

lemma length_chacha20_encrypt [simp]: "length (chacha20_encrypt key nonce counter inp len) = len"
  by (simp add: chacha20_encrypt_correct)


text \<open>A longer stream extends a shorter one.\<close>

lemma chacha20_prefix:
  "n \<le> len \<Longrightarrow> take n (chacha20_encrypt key nonce counter inp len) = chacha20_encrypt key nonce counter inp n"
  by (simp add: chacha20_encrypt_correct take_map)

lemma length_QUARTERROUND [simp]: "length (QUARTERROUND a b c d x) = length x"
  by (simp add: QUARTERROUND_def Let_def)

lemma length_chacha20_block [simp]: "length (chacha20_block ctx) = 64"
proof -
  have "length (concat (map f [0 ..< n])) = 4 * n" if "\<And>i. length (f i) = 4" for f :: "nat \<Rightarrow> u8 list" and n
    using that by (induction n) simp_all
  then show ?thesis by (simp add: chacha20_block_def Let_def store32_le_def)
qed

section \<open>The cipher of RFC 8439\<close>

text \<open>
  The cipher as RFC 8439 has it: the state is the sixteen words of the constant, the key, the block number and the
  nonce; a double round is a quarter round on each column of the four by four words and then on
  each diagonal; a block is the state after ten double rounds, with the state before them added, as bytes.
\<close>

definition rfc_words :: "u8 list \<Rightarrow> u32 list" where
  "rfc_words bs = map (\<lambda>i. of_le (take 4 (drop (4 * i) bs))) [0 ..< length bs div 4]"

definition rfc_state :: "u8 list \<Rightarrow> u8 list \<Rightarrow> u32 \<Rightarrow> u32 list" where
  "rfc_state key nonce counter = rfc_words (map of_char ''expand 32-byte k'') @ rfc_words key @ [counter] @ rfc_words nonce"

definition rfc_on :: "u32 list \<Rightarrow> nat \<times> nat \<times> nat \<times> nat \<Rightarrow> u32 list" where
  "rfc_on x = (\<lambda>(a, b, c, d). case rfc_quarter (x ! a) (x ! b) (x ! c) (x ! d) of (p, q, r, s) \<Rightarrow> x[a := p, b := q, c := r, d := s])"

definition rfc_columns :: "(nat \<times> nat \<times> nat \<times> nat) list" where
  "rfc_columns = map (\<lambda>i. (i, 4 + i, 8 + i, 12 + i)) [0 ..< 4]"

definition rfc_diagonals :: "(nat \<times> nat \<times> nat \<times> nat) list" where
  "rfc_diagonals = map (\<lambda>i. (i, 4 + (i + 1) mod 4, 8 + (i + 2) mod 4, 12 + (i + 3) mod 4)) [0 ..< 4]"

definition rfc_double_round :: "u32 list \<Rightarrow> u32 list" where
  "rfc_double_round x = foldl rfc_on x (rfc_columns @ rfc_diagonals)"

definition rfc_block :: "u8 list \<Rightarrow> u8 list \<Rightarrow> u32 \<Rightarrow> u8 list" where
  "rfc_block key nonce counter =
     (let s = rfc_state key nonce counter in concat (map (to_le 4) (map2 (+) ((rfc_double_round ^^ 10) s) s)))"

text \<open>The first \<open>n\<close> blocks of the key stream, and the cipher.\<close>

definition rfc_stream :: "u8 list \<Rightarrow> u8 list \<Rightarrow> u32 \<Rightarrow> nat \<Rightarrow> u8 list" where
  "rfc_stream key nonce counter n = concat (map (\<lambda>i. rfc_block key nonce (counter + of_nat i)) [0 ..< n])"

definition rfc_chacha20 :: "u8 list \<Rightarrow> u8 list \<Rightarrow> u32 \<Rightarrow> u8 list \<Rightarrow> u8 list" where
  "rfc_chacha20 key nonce counter msg = map2 (XOR) msg (rfc_stream key nonce counter ((length msg + 63) div 64))"

lemma upt_four: "[0 ..< 4] = [0, 1, 2, 3 :: nat]"
  by (simp add: upt_rec)

lemma double_round_rfc: "length x = 16 \<Longrightarrow> double_round x = rfc_double_round x"
proof -
  assume "length x = 16"
  moreover have "rfc_on y (a, b, c, d) = QUARTERROUND a b c d y"
    if "distinct [a, b, c, d]" "a < 16" "b < 16" "c < 16" "d < 16" "length y = 16" for y a b c d
    using QUARTERROUND_rfc [of a b c d y] that by (simp add: rfc_on_def)
  ultimately show ?thesis
    by (simp add: rfc_double_round_def double_round_def rfc_columns_def rfc_diagonals_def upt_four Let_def length_QUARTERROUND)
qed

lemma length_double_round [simp]: "length (double_round x) = length x"
  by (simp add: double_round_def Let_def)

lemma double_rounds_rfc: "length x = 16 \<Longrightarrow> (double_round ^^ n) x = (rfc_double_round ^^ n) x \<and> length ((double_round ^^ n) x) = 16"
  by (induction n) (auto simp: double_round_rfc)

lemma store32_le_to_le: "store32_le w = to_le 4 w"
proof -
  have "(0xFF :: u32) = mask 8" by (simp add: mask_eq_exp_minus_1)
  then have "bit (0xFF :: u32) n" if "n < 8" for n using that by (simp only: bit_mask_iff) (simp add: possible_bit_word)
  then show ?thesis
    unfolding store32_le_def to_le_def upt_four by (auto intro!: bit_word_eqI simp: byte_of_def bit_simps)
qed

lemma chacha20_init_rfc:
  assumes "length key = 32" and "length nonce = 12"
  shows "chacha20_init key nonce counter = rfc_state key nonce counter"
proof -
  have "rfc_words (map of_char ''expand 32-byte k'') = [0x61707865, 0x3320646e, 0x79622d32, 0x6b206574]" by code_simp
  then show ?thesis using assms by (simp add: chacha20_init_def rfc_state_def rfc_words_def load32_le_of_le upt_rec)
qed

lemma chacha20_block_rfc:
  assumes "length key = 32" and "length nonce = 12"
  shows "chacha20_block (rfc_state key nonce counter) = rfc_block key nonce counter"
proof -
  define s where "s = rfc_state key nonce counter"
  have s: "length s = 16" unfolding s_def chacha20_init_rfc [OF assms, symmetric] by (simp add: chacha20_init_def)
  define x where "x = (double_round ^^ 10) s"
  have x: "length x = 16" "x = (rfc_double_round ^^ 10) s" using double_rounds_rfc [OF s, of 10] unfolding x_def by blast+
  have "map (\<lambda>i. x ! i + s ! i) [0 ..< 16] = map2 (+) x s" by (rule nth_equalityI) (simp_all add: x(1) s)
  then have "map (to_le 4) (map (\<lambda>i. x ! i + s ! i) [0 ..< 16]) = map (to_le 4) (map2 (+) x s)" by (rule arg_cong)
  then have "map (\<lambda>i. store32_le (x ! i + s ! i)) [0 ..< 16] = map (to_le 4) (map2 (+) x s)"
    unfolding map_map comp_def store32_le_to_le .
  then show ?thesis unfolding chacha20_block_def rfc_block_def Let_def s_def [symmetric] x_def [symmetric] x(2) [symmetric] by simp
qed

lemma nth_concat_blocks:
  "(\<And>i. length (f i) = m) \<Longrightarrow> j < m * n \<Longrightarrow> concat (map f [0 ..< n]) ! j = f (j div m) ! (j mod m)"
proof (induction n)
  case (Suc n)
  have len: "length (concat (map f [0 ..< n])) = m * n" using Suc.prems(1) by (induction n) simp_all
  show ?case
  proof (cases "j < m * n")
    case True
    then show ?thesis using Suc len by (simp add: nth_append)
  next
    case False
    then have "j div m = n" "j mod m = j - m * n" using Suc.prems(2)
      by (auto intro!: div_nat_eqI simp: algebra_simps) (metis Suc.prems(2) div_nat_eqI minus_mult_div_eq_mod mult.commute mult_Suc_right not_less add.commute)
    then show ?thesis using False len by (simp add: nth_append)
  qed
qed simp

lemma length_rfc_block:
  assumes "length key = 32" and "length nonce = 12"
  shows "length (rfc_block key nonce counter) = 64"
  unfolding chacha20_block_rfc [OF assms, symmetric] by simp

lemma length_rfc_stream:
  "length key = 32 \<Longrightarrow> length nonce = 12 \<Longrightarrow> length (rfc_stream key nonce counter n) = 64 * n"
  by (induction n) (simp_all add: rfc_stream_def length_rfc_block)

lemma keystream_rfc:
  assumes "length key = 32" and "length nonce = 12" and "j < 64 * n"
  shows "keystream (chacha20_init key nonce counter) j = rfc_stream key nonce counter n ! j"
proof -
  have "(chacha20_init key nonce counter)[12 := chacha20_init key nonce counter ! 12 + of_nat (j div 64)]
      = chacha20_init key nonce (counter + of_nat (j div 64))"
    by (simp add: chacha20_init_def)
  then show ?thesis
    unfolding keystream_def rfc_stream_def using assms
    by (simp add: nth_concat_blocks length_rfc_block chacha20_block_rfc chacha20_init_rfc)
qed

lemma chacha20_zeros:
  assumes "length key = 32" and "length nonce = 12" and "len \<le> 64 * n" and "inp = None \<or> inp = Some (replicate len 0)"
  shows "chacha20_encrypt key nonce counter inp len = take len (rfc_stream key nonce counter n)"
proof (rule nth_equalityI)
  show "length (chacha20_encrypt key nonce counter inp len) = length (take len (rfc_stream key nonce counter n))"
    using assms(1-3) by (simp add: length_rfc_stream)
  fix j assume "j < length (chacha20_encrypt key nonce counter inp len)"
  then have j: "j < len" "j < 64 * n" using assms(3) by simp_all
  then have "input_byte inp j = 0" using assms(4) by (auto simp: input_byte_def)
  then show "chacha20_encrypt key nonce counter inp len ! j = take len (rfc_stream key nonce counter n) ! j"
    using j keystream_rfc [OF assms(1,2) j(2)] by (simp add: chacha20_encrypt_correct)
qed

text \<open>
  C30. The cipher is ChaCha20: for every key, nonce, block number and message of any length, what the loop
  over blocks of 64 bytes gives, the last one partial, is the message combined with the key stream of RFC 8439,
  whose blocks are numbered on from the given one; and with no input it gives that key stream itself.
\<close>

theorem chacha20_correct:
  assumes "length key = 32" and "length nonce = 12"
  shows "chacha20_encrypt key nonce counter (Some msg) (length msg) = rfc_chacha20 key nonce counter msg
    \<and> chacha20_encrypt key nonce counter None len = take len (rfc_stream key nonce counter ((len + 63) div 64))"
proof
  define n where "n = (length msg + 63) div 64"
  have n: "length msg \<le> 64 * n" by (simp add: n_def)
  have "chacha20_encrypt key nonce counter (Some msg) (length msg) = map2 (XOR) msg (rfc_stream key nonce counter n)"
  proof (rule nth_equalityI)
    show "length (chacha20_encrypt key nonce counter (Some msg) (length msg)) = length (map2 (XOR) msg (rfc_stream key nonce counter n))"
      using n assms by (simp add: length_rfc_stream)
    fix j assume "j < length (chacha20_encrypt key nonce counter (Some msg) (length msg))"
    then have j: "j < length msg" "j < 64 * n" using n by simp_all
    then show "chacha20_encrypt key nonce counter (Some msg) (length msg) ! j = map2 (XOR) msg (rfc_stream key nonce counter n) ! j"
      using keystream_rfc [OF assms j(2)] assms by (simp add: chacha20_encrypt_correct input_byte_def length_rfc_stream)
  qed
  then show "chacha20_encrypt key nonce counter (Some msg) (length msg) = rfc_chacha20 key nonce counter msg"
    by (simp add: rfc_chacha20_def n_def)
  show "chacha20_encrypt key nonce counter None len = take len (rfc_stream key nonce counter ((len + 63) div 64))"
    by (rule chacha20_zeros [OF assms]) simp_all
qed

text \<open>The key, nonce and block number of the example of RFC 8439, 2.4.2, with the start of its message.\<close>

theorem chacha20_correct_witness:
  "chacha20_encrypt (map of_nat [0 ..< 32]) [0, 0, 0, 0, 0, 0, 0, 0x4A, 0, 0, 0, 0] 1 (Some (map of_char ''Ladies'')) 6
     = rfc_chacha20 (map of_nat [0 ..< 32]) [0, 0, 0, 0, 0, 0, 0, 0x4A, 0, 0, 0, 0] 1 (map of_char ''Ladies'')"
proof -
  define k :: "u8 list" where "k = map of_nat [0 ..< 32]"
  define n :: "u8 list" where "n = [0, 0, 0, 0, 0, 0, 0, 0x4A, 0, 0, 0, 0]"
  define m :: "u8 list" where "m = map of_char ''Ladies''"
  have len: "length k = 32" "length n = 12" "length m = 6" by (simp_all add: k_def n_def m_def)
  have "chacha20_encrypt k n 1 (Some m) 6 = rfc_chacha20 k n 1 m"
    using chacha20_correct [OF len(1,2), of 1 m] unfolding len(3) by blast
  then show ?thesis unfolding k_def n_def m_def .
qed

end
