(* ===== verification/Sha256.thy ===== *)
theory Sha256
  imports Bytes
begin

text \<open>
  The SHA-256 hash of \<^verbatim>\<open>src/lib/crypto/sha256.c\<close>, compiled into the kernel (passwords, the random
  number generator) and the user library. The code hashes a stream: it fills a block byte by byte,
  mixes full blocks in and pads the last one in place. The specification is the standard's: the whole
  message is padded first, cut into blocks, and the compression function is folded over them.
\<close>

unbundle bit_operations_syntax

section \<open>The code\<close>

record sha256_ctx =
  block :: "u8 list"
  datalen :: nat
  bitlen :: u64
  state :: "u32 list"

definition ROTRIGHT :: "u32 \<Rightarrow> nat \<Rightarrow> u32" where
  "ROTRIGHT a b = drop_bit b a OR push_bit (32 - b) a"

definition CH :: "u32 \<Rightarrow> u32 \<Rightarrow> u32 \<Rightarrow> u32" where
  "CH x y z = (x AND y) XOR (NOT x AND z)"

definition MAJ :: "u32 \<Rightarrow> u32 \<Rightarrow> u32 \<Rightarrow> u32" where
  "MAJ x y z = (x AND y) XOR (x AND z) XOR (y AND z)"

definition EP0 :: "u32 \<Rightarrow> u32" where
  "EP0 x = ROTRIGHT x 2 XOR ROTRIGHT x 13 XOR ROTRIGHT x 22"

definition EP1 :: "u32 \<Rightarrow> u32" where
  "EP1 x = ROTRIGHT x 6 XOR ROTRIGHT x 11 XOR ROTRIGHT x 25"

definition SIG0 :: "u32 \<Rightarrow> u32" where
  "SIG0 x = ROTRIGHT x 7 XOR ROTRIGHT x 18 XOR drop_bit 3 x"

definition SIG1 :: "u32 \<Rightarrow> u32" where
  "SIG1 x = ROTRIGHT x 17 XOR ROTRIGHT x 19 XOR drop_bit 10 x"

definition K :: "u32 list" where
  "K = concat [
    [0x428a2f98, 0x71374491, 0xb5c0fbcf, 0xe9b5dba5], [0x3956c25b, 0x59f111f1, 0x923f82a4, 0xab1c5ed5],
    [0xd807aa98, 0x12835b01, 0x243185be, 0x550c7dc3], [0x72be5d74, 0x80deb1fe, 0x9bdc06a7, 0xc19bf174],
    [0xe49b69c1, 0xefbe4786, 0x0fc19dc6, 0x240ca1cc], [0x2de92c6f, 0x4a7484aa, 0x5cb0a9dc, 0x76f988da],
    [0x983e5152, 0xa831c66d, 0xb00327c8, 0xbf597fc7], [0xc6e00bf3, 0xd5a79147, 0x06ca6351, 0x14292967],
    [0x27b70a85, 0x2e1b2138, 0x4d2c6dfc, 0x53380d13], [0x650a7354, 0x766a0abb, 0x81c2c92e, 0x92722c85],
    [0xa2bfe8a1, 0xa81a664b, 0xc24b8b70, 0xc76c51a3], [0xd192e819, 0xd6990624, 0xf40e3585, 0x106aa070],
    [0x19a4c116, 0x1e376c08, 0x2748774c, 0x34b0bcb5], [0x391c0cb3, 0x4ed8aa4a, 0x5b9cca4f, 0x682e6ff3],
    [0x748f82ee, 0x78a5636f, 0x84c87814, 0x8cc70208], [0x90befffa, 0xa4506ceb, 0xbef9a3f7, 0xc67178f2]]"

text \<open>The two loops that fill the message schedule \<open>m\<close>.\<close>

definition schedule_load :: "u8 list \<Rightarrow> nat \<Rightarrow> u32" where
  "schedule_load data j = push_bit 24 (ucast (data ! j)) OR push_bit 16 (ucast (data ! (j + 1)))
     OR push_bit 8 (ucast (data ! (j + 2))) OR ucast (data ! (j + 3))"

fun schedule_extend :: "nat \<Rightarrow> u32 list \<Rightarrow> u32 list" where
  "schedule_extend 0 m = m"
| "schedule_extend (Suc n) m =
     (let i = length m
      in schedule_extend n (m @ [SIG1 (m ! (i - 2)) + m ! (i - 7) + SIG0 (m ! (i - 15)) + m ! (i - 16)]))"

definition schedule :: "u8 list \<Rightarrow> u32 list" where
  "schedule data = schedule_extend 48 (map (\<lambda>i. schedule_load data (4 * i)) [0 ..< 16])"

type_synonym working = "u32 \<times> u32 \<times> u32 \<times> u32 \<times> u32 \<times> u32 \<times> u32 \<times> u32"

definition sha256_round :: "u32 list \<Rightarrow> working \<Rightarrow> nat \<Rightarrow> working" where
  "sha256_round m = (\<lambda>(a, b, c, d, e, f, g, h) i.
     let t1 = h + EP1 e + CH e f g + K ! i + m ! i; t2 = EP0 a + MAJ a b c
     in (t1 + t2, a, b, c, d + t1, e, f, g))"

definition sha256_transform :: "u32 list \<Rightarrow> u8 list \<Rightarrow> u32 list" where
  "sha256_transform st data =
     (let m = schedule data;
          (a, b, c, d, e, f, g, h) = foldl (sha256_round m)
             (st ! 0, st ! 1, st ! 2, st ! 3, st ! 4, st ! 5, st ! 6, st ! 7) [0 ..< 64]
      in [st ! 0 + a, st ! 1 + b, st ! 2 + c, st ! 3 + d, st ! 4 + e, st ! 5 + f, st ! 6 + g, st ! 7 + h])"

definition sha256_init :: "sha256_ctx \<Rightarrow> sha256_ctx" where
  "sha256_init ctx = ctx\<lparr>datalen := 0, bitlen := 0,
     state := [0x6a09e667, 0xbb67ae85, 0x3c6ef372, 0xa54ff53a, 0x510e527f, 0x9b05688c, 0x1f83d9ab, 0x5be0cd19]\<rparr>"

definition sha256_update_byte :: "sha256_ctx \<Rightarrow> u8 \<Rightarrow> sha256_ctx" where
  "sha256_update_byte ctx b =
     (let ctx = ctx\<lparr>block := (block ctx)[datalen ctx := b], datalen := datalen ctx + 1\<rparr>
      in if datalen ctx = 64
         then ctx\<lparr>state := sha256_transform (state ctx) (block ctx), bitlen := bitlen ctx + 512, datalen := 0\<rparr>
         else ctx)"

definition sha256_update :: "sha256_ctx \<Rightarrow> u8 list \<Rightarrow> sha256_ctx" where
  "sha256_update ctx data = foldl sha256_update_byte ctx data"

text \<open>\<open>while (i < n) data[i++] = 0\<close>.\<close>

definition zero_from :: "nat \<Rightarrow> nat \<Rightarrow> u8 list \<Rightarrow> u8 list" where
  "zero_from i n data = foldl (\<lambda>d j. d[j := 0]) data [i ..< n]"

definition sha256_final :: "sha256_ctx \<Rightarrow> sha256_ctx \<times> u8 list" where
  "sha256_final ctx =
     (let i = datalen ctx;
          ctx = ctx\<lparr>bitlen := bitlen ctx + of_nat (datalen ctx * 8)\<rparr>;
          ctx = (if datalen ctx < 56
                 then ctx\<lparr>block := zero_from (i + 1) 56 ((block ctx)[i := 0x80])\<rparr>
                 else (let ctx = ctx\<lparr>block := zero_from (i + 1) 64 ((block ctx)[i := 0x80])\<rparr>;
                           ctx = ctx\<lparr>state := sha256_transform (state ctx) (block ctx)\<rparr>
                       in ctx\<lparr>block := zero_from 0 56 (block ctx)\<rparr>));
          n = bitlen ctx;
          ctx = ctx\<lparr>block := (block ctx)[63 := ucast n, 62 := ucast (drop_bit 8 n), 61 := ucast (drop_bit 16 n),
             60 := ucast (drop_bit 24 n), 59 := ucast (drop_bit 32 n), 58 := ucast (drop_bit 40 n),
             57 := ucast (drop_bit 48 n), 56 := ucast (drop_bit 56 n)]\<rparr>;
          ctx = ctx\<lparr>state := sha256_transform (state ctx) (block ctx)\<rparr>
      in (ctx, map (\<lambda>j. ucast (drop_bit (24 - j mod 4 * 8) (state ctx ! (j div 4)) AND 0x000000ff)) [0 ..< 32]))"

definition sha256_hash :: "sha256_ctx \<Rightarrow> u8 list \<Rightarrow> u8 list" where
  "sha256_hash ctx data = snd (sha256_final (sha256_update (sha256_init ctx) data))"

section \<open>The standard\<close>

text \<open>FIPS 180-4: the functions of 4.1.2, the message schedule and the rounds of 6.2.2, the padding of 5.1.1.\<close>

definition fips_ch :: "u32 \<Rightarrow> u32 \<Rightarrow> u32 \<Rightarrow> u32" where
  "fips_ch x y z = (x AND y) OR (NOT x AND z)"

definition fips_maj :: "u32 \<Rightarrow> u32 \<Rightarrow> u32 \<Rightarrow> u32" where
  "fips_maj x y z = (x AND y) OR (x AND z) OR (y AND z)"

definition fips_Sigma0 :: "u32 \<Rightarrow> u32" where
  "fips_Sigma0 x = word_rotr 2 x XOR word_rotr 13 x XOR word_rotr 22 x"

definition fips_Sigma1 :: "u32 \<Rightarrow> u32" where
  "fips_Sigma1 x = word_rotr 6 x XOR word_rotr 11 x XOR word_rotr 25 x"

definition fips_sigma0 :: "u32 \<Rightarrow> u32" where
  "fips_sigma0 x = word_rotr 7 x XOR word_rotr 18 x XOR drop_bit 3 x"

definition fips_sigma1 :: "u32 \<Rightarrow> u32" where
  "fips_sigma1 x = word_rotr 17 x XOR word_rotr 19 x XOR drop_bit 10 x"

fun fips_W :: "u8 list \<Rightarrow> nat \<Rightarrow> u32" where
  "fips_W b t = (if t < 16 then of_be (take 4 (drop (4 * t) b))
     else fips_sigma1 (fips_W b (t - 2)) + fips_W b (t - 7) + fips_sigma0 (fips_W b (t - 15)) + fips_W b (t - 16))"

fun fips_rounds :: "u8 list \<Rightarrow> nat \<Rightarrow> working \<Rightarrow> working" where
  "fips_rounds blk 0 v = v"
| "fips_rounds blk (Suc t) v =
     (case fips_rounds blk t v of (a, b, c, d, e, f, g, h) \<Rightarrow>
        let t1 = h + fips_Sigma1 e + fips_ch e f g + K ! t + fips_W blk t; t2 = fips_Sigma0 a + fips_maj a b c
        in (t1 + t2, a, b, c, d + t1, e, f, g))"

definition fips_compress :: "u32 list \<Rightarrow> u8 list \<Rightarrow> u32 list" where
  "fips_compress H blk =
     (case fips_rounds blk 64 (H ! 0, H ! 1, H ! 2, H ! 3, H ! 4, H ! 5, H ! 6, H ! 7) of
        (a, b, c, d, e, f, g, h) \<Rightarrow>
          [a + H ! 0, b + H ! 1, c + H ! 2, d + H ! 3, e + H ! 4, f + H ! 5, g + H ! 6, h + H ! 7])"

definition fips_H0 :: "u32 list" where
  "fips_H0 = [0x6a09e667, 0xbb67ae85, 0x3c6ef372, 0xa54ff53a, 0x510e527f, 0x9b05688c, 0x1f83d9ab, 0x5be0cd19]"

definition fips_pad :: "u8 list \<Rightarrow> u8 list" where
  "fips_pad msg = msg @ [0x80] @ replicate ((119 - length msg mod 64) mod 64) 0 @ to_be 8 (of_nat (8 * length msg) :: u64)"

function blocks :: "'a list \<Rightarrow> 'a list list" where
  "blocks xs = (if length xs < 64 then [] else take 64 xs # blocks (drop 64 xs))"
  by auto
termination by (relation "measure length") auto

definition fips_sha256 :: "u8 list \<Rightarrow> u8 list" where
  "fips_sha256 msg = concat (map (to_be 4) (foldl fips_compress fips_H0 (blocks (fips_pad msg))))"

declare blocks.simps [simp del] fips_W.simps [simp del]

section \<open>The compression function\<close>

lemma ROTRIGHT_rotr:
  assumes "0 < n" and "n < 32"
  shows "ROTRIGHT x n = word_rotr n x"
proof (rule bit_word_eqI)
  fix k assume "k < LENGTH(32)"
  then have k: "k < 32" by simp
  show "bit (ROTRIGHT x n) k = bit (word_rotr n x) k"
  proof (cases "k + n < 32")
    case True
    then have "\<not> 32 - n \<le> k" by simp
    then show ?thesis using True assms k by (simp add: ROTRIGHT_def bit_word_rotr_iff bit_simps add.commute)
  next
    case False
    then have "(k + n) mod 32 = k - (32 - n)" using assms k by (simp add: mod_if)
    moreover have "\<not> bit x (n + k)" using False bit_imp_le_length [of x "n + k"] by auto
    moreover have "32 - n \<le> k" using False by simp
    ultimately show ?thesis using False assms k by (simp add: ROTRIGHT_def bit_word_rotr_iff bit_simps)
  qed
qed

lemma CH_fips: "CH x y z = fips_ch x y z"
  by (rule bit_word_eqI) (auto simp: CH_def fips_ch_def bit_simps)

lemma MAJ_fips: "MAJ x y z = fips_maj x y z"
  by (rule bit_word_eqI) (auto simp: MAJ_def fips_maj_def bit_simps)

lemmas sha256_functions =
  EP0_def EP1_def SIG0_def SIG1_def fips_Sigma0_def fips_Sigma1_def fips_sigma0_def fips_sigma1_def

lemma sigma_fips:
  "EP0 = fips_Sigma0" "EP1 = fips_Sigma1" "SIG0 = fips_sigma0" "SIG1 = fips_sigma1"
  by (simp_all add: fun_eq_iff sha256_functions ROTRIGHT_rotr)

lemma schedule_load_be:
  assumes "j + 4 \<le> length data"
  shows "schedule_load data j = of_be (take 4 (drop j data))"
proof -
  have "take 4 (drop j data) = [data ! j, data ! (j + 1), data ! (j + 2), data ! (j + 3)]"
    using assms by (auto intro!: nth_equalityI simp: less_Suc_eq numeral_eq_Suc)
  then have "of_be (take 4 (drop j data)) = (of_le [data ! (j + 3), data ! (j + 2), data ! (j + 1), data ! j] :: u32)"
    by (simp only: of_be_def rev.simps append.simps)
  also have "\<dots> = schedule_load data j"
    unfolding schedule_load_def by (rule bit_word_eqI) (auto simp: bit_simps)
  finally show ?thesis ..
qed

lemma length_schedule_extend [simp]: "length (schedule_extend n m) = length m + n"
  by (induction n arbitrary: m) (simp_all add: Let_def)

lemma schedule_extend_W:
  "16 \<le> length m \<Longrightarrow> (\<And>i. i < length m \<Longrightarrow> m ! i = fips_W b i) \<Longrightarrow>
     i < length m + n \<Longrightarrow> schedule_extend n m ! i = fips_W b i"
proof (induction n arbitrary: m)
  case (Suc n)
  let ?k = "length m"
  define w where "w = SIG1 (m ! (?k - 2)) + m ! (?k - 7) + SIG0 (m ! (?k - 15)) + m ! (?k - 16)"
  have "w = fips_W b ?k"
    using Suc.prems(1,2) by (subst fips_W.simps) (simp add: w_def sigma_fips)
  then have "(m @ [w]) ! i = fips_W b i" if "i < length (m @ [w])" for i
    using that Suc.prems(2) by (auto simp: nth_append less_Suc_eq)
  from Suc.IH [of "m @ [w]", OF _ this] Suc.prems show ?case by (simp add: Let_def w_def)
qed simp

lemma schedule_W:
  assumes "length blk = 64" and "i < 64"
  shows "schedule blk ! i = fips_W blk i"
proof -
  have "map (\<lambda>i. schedule_load blk (4 * i)) [0 ..< 16] ! j = fips_W blk j" if "j < 16" for j
    using that assms(1) by (subst fips_W.simps) (simp add: schedule_load_be)
  then show ?thesis unfolding schedule_def using assms(2) by (intro schedule_extend_W) simp_all
qed

lemma rounds_fips:
  "length blk = 64 \<Longrightarrow> n \<le> 64 \<Longrightarrow> foldl (sha256_round (schedule blk)) v [0 ..< n] = fips_rounds blk n v"
proof (induction n)
  case (Suc n)
  then show ?case
    by (simp add: sha256_round_def CH_fips MAJ_fips sigma_fips schedule_W split: prod.splits)
qed simp

lemma transform_fips: "length blk = 64 \<Longrightarrow> sha256_transform st blk = fips_compress st blk"
  by (simp add: sha256_transform_def fips_compress_def rounds_fips Let_def add.commute split: prod.splits)

section \<open>Blocks\<close>

lemma blocks_short: "length xs < 64 \<Longrightarrow> blocks xs = []"
  by (simp add: blocks.simps)

lemma blocks_one: "length xs = 64 \<Longrightarrow> blocks xs = [xs]"
  by (subst blocks.simps) (simp add: blocks_short)

lemma blocks_append: "64 dvd length xs \<Longrightarrow> blocks (xs @ ys) = blocks xs @ blocks ys"
proof (induction xs rule: blocks.induct)
  case (1 xs)
  show ?case
  proof (cases "length xs < 64")
    case True
    then have "xs = []" using 1(2) by (auto dest: dvd_imp_le)
    then show ?thesis by (simp add: blocks_short)
  next
    case False
    then have "64 dvd length (drop 64 xs)" using 1(2) by (simp add: dvd_minus_self)
    from 1(1) [OF False this] False show ?thesis
      by (subst (1 2) blocks.simps) simp
  qed
qed

section \<open>Hashing a stream\<close>

text \<open>What the context holds after the message \<open>msg\<close>: whole blocks mixed in, the rest waiting.\<close>

definition absorbed :: "u8 list \<Rightarrow> sha256_ctx \<Rightarrow> bool" where
  "absorbed msg c \<longleftrightarrow> length (block c) = 64 \<and> datalen c < 64 \<and>
     (\<exists>full rest. msg = full @ rest \<and> 64 dvd length full \<and> length rest = datalen c
        \<and> take (datalen c) (block c) = rest
        \<and> state c = foldl fips_compress fips_H0 (blocks full) \<and> bitlen c = of_nat (8 * length full))"

lemma absorbed_init: "length (block c) = 64 \<Longrightarrow> absorbed [] (sha256_init c)"
  by (simp add: absorbed_def sha256_init_def fips_H0_def blocks_short)

lemma absorbed_byte:
  assumes "absorbed msg c"
  shows "absorbed (msg @ [b]) (sha256_update_byte c b)"
proof -
  obtain full rest where f: "msg = full @ rest" "64 dvd length full" "length rest = datalen c"
      "take (datalen c) (block c) = rest" "state c = foldl fips_compress fips_H0 (blocks full)"
      "bitlen c = of_nat (8 * length full)" and l: "length (block c) = 64" "datalen c < 64"
    using assms unfolding absorbed_def by blast
  have take: "take (datalen c + 1) ((block c)[datalen c := b]) = rest @ [b]"
    using f(4) l by (simp add: take_Suc_conv_app_nth)
  show ?thesis
  proof (cases "datalen c + 1 = 64")
    case True
    then have full: "(block c)[63 := b] = rest @ [b]" using take l by simp
    have len: "length (rest @ [b]) = 64" using True f(3) by simp
    then have "sha256_update_byte c b = c\<lparr>block := rest @ [b], datalen := 0,
        state := fips_compress (state c) (rest @ [b]), bitlen := bitlen c + 512\<rparr>"
      using True by (simp add: sha256_update_byte_def full transform_fips [OF len] Let_def)
    moreover have "blocks (full @ rest @ [b]) = blocks full @ [rest @ [b]]"
      using f(2) len by (simp add: blocks_append blocks_one)
    ultimately show ?thesis using f len unfolding absorbed_def
      by (intro conjI exI [of _ "full @ rest @ [b]"] exI [of _ "[]"]) simp_all
  next
    case False
    then have "sha256_update_byte c b = c\<lparr>block := (block c)[datalen c := b], datalen := datalen c + 1\<rparr>"
      by (simp add: sha256_update_byte_def Let_def)
    then show ?thesis using f l False take unfolding absorbed_def
      by (intro conjI exI [of _ full] exI [of _ "rest @ [b]"]) simp_all
  qed
qed

lemma absorbed_update: "absorbed msg c \<Longrightarrow> absorbed (msg @ data) (sha256_update c data)"
proof (induction data arbitrary: msg c)
  case (Cons b data)
  from Cons.IH [OF absorbed_byte [OF Cons.prems, of b]] show ?case by (simp add: sha256_update_def)
qed (simp add: sha256_update_def)

lemma zero_from_eq:
  "i \<le> n \<Longrightarrow> n \<le> length d \<Longrightarrow> zero_from i n d = take i d @ replicate (n - i) 0 @ drop n d"
proof (induction n)
  case (Suc n)
  show ?case
  proof (cases "i = Suc n")
    case True
    then show ?thesis by (simp add: zero_from_def)
  next
    case False
    then have i: "i \<le> n" using Suc.prems by simp
    have "zero_from i (Suc n) d = (zero_from i n d)[n := 0]" using i by (simp add: zero_from_def)
    also have "\<dots> = (take i d @ replicate (n - i) 0 @ drop n d)[n := 0]" using Suc i by simp
    also have "\<dots> = take i d @ replicate (n - i) 0 @ 0 # drop (Suc n) d"
      using Suc.prems i by (simp add: list_update_append flip: Cons_nth_drop_Suc)
    also have "replicate (n - i) 0 @ 0 # drop (Suc n) d = replicate (Suc n - i) 0 @ drop (Suc n) d"
      using i by (simp add: Suc_diff_le replicate_app_Cons_same)
    finally show ?thesis .
  qed
qed (simp add: zero_from_def)

lemma length_zero_from [simp]: "length (zero_from i n d) = length d"
proof -
  have "length (foldl (\<lambda>d j. d[j := 0]) d js) = length d" for js by (induction js arbitrary: d) simp_all
  then show ?thesis by (simp add: zero_from_def)
qed

lemma to_be_8: "to_be 8 n = [ucast (drop_bit 56 n), ucast (drop_bit 48 n), ucast (drop_bit 40 n), ucast (drop_bit 32 n),
    ucast (drop_bit 24 n), ucast (drop_bit 16 n), ucast (drop_bit 8 n), ucast n]" for n :: u64
  by (simp add: to_be_def to_le_def byte_of_def upt_rec)

lemma put_length:
  assumes "length d = 64"
  shows "d[63 := ucast n, 62 := ucast (drop_bit 8 n), 61 := ucast (drop_bit 16 n),
     60 := ucast (drop_bit 24 n), 59 := ucast (drop_bit 32 n), 58 := ucast (drop_bit 40 n),
     57 := ucast (drop_bit 48 n), 56 := ucast (drop_bit 56 (n :: u64))] = take 56 d @ to_be 8 n"
proof -
  define a b where "a = take 56 d" and "b = drop 56 d"
  then have ab: "d = a @ b" "length a = 56" "length b = 8" using assms by simp_all
  obtain b0 b1 b2 b3 b4 b5 b6 b7 where "b = [b0, b1, b2, b3, b4, b5, b6, b7]"
    using ab(3) by (auto simp: numeral_eq_Suc length_Suc_conv)
  with ab(2) show ?thesis unfolding ab(1) by (simp add: to_be_8 list_update_append)
qed

text \<open>The last block or two, as \<open>sha256_final\<close> pads them in place.\<close>

lemma final_state:
  assumes "absorbed msg c"
  shows "state (fst (sha256_final c)) = foldl fips_compress fips_H0 (blocks (fips_pad msg))"
proof -
  obtain full rest where f: "msg = full @ rest" "64 dvd length full" "length rest = datalen c"
      "take (datalen c) (block c) = rest" "state c = foldl fips_compress fips_H0 (blocks full)"
      "bitlen c = of_nat (8 * length full)" and l: "length (block c) = 64" "datalen c < 64"
    using assms unfolding absorbed_def by blast
  define n where "n = (of_nat (8 * length msg) :: u64)"
  have n: "bitlen c + of_nat (datalen c * 8) = n" by (simp add: n_def f)
  have len: "length msg mod 64 = datalen c" using f(1,2,3) l(2) by (auto elim!: dvdE)
  have mark: "take (datalen c + 1) ((block c)[datalen c := 0x80]) = rest @ [0x80]"
    using f(4) l by (simp add: take_Suc_conv_app_nth)
  show ?thesis
  proof (cases "datalen c < 56")
    case True
    define blk where "blk = rest @ [0x80] @ replicate (55 - datalen c) 0 @ to_be 8 n"
    have z: "zero_from (datalen c + 1) 56 ((block c)[datalen c := 0x80])
        = (rest @ [0x80]) @ replicate (56 - (datalen c + 1)) 0 @ drop 56 ((block c)[datalen c := 0x80])"
      unfolding mark [symmetric] using True l by (intro zero_from_eq) simp_all
    have put: "take 56 (zero_from (datalen c + 1) 56 ((block c)[datalen c := 0x80])) @ to_be 8 n = blk"
    proof -
      have "length ((rest @ [0x80]) @ replicate (56 - (datalen c + 1)) 0) = 56" using True f(3) by simp
      then have "take 56 (zero_from (datalen c + 1) 56 ((block c)[datalen c := 0x80]))
          = (rest @ [0x80]) @ replicate (56 - (datalen c + 1)) 0"
        unfolding z append_assoc [symmetric] by (rule take_append_exact)
      then show ?thesis by (simp add: blk_def)
    qed
    have "state (fst (sha256_final c)) = sha256_transform (state c) blk"
      using True l n put unfolding sha256_final_def Let_def by (simp add: put_length)
    also have "\<dots> = fips_compress (state c) blk"
      using True f(3) by (intro transform_fips) (simp add: blk_def)
    also have "fips_pad msg = full @ blk"
      using True unfolding fips_pad_def len blk_def n_def by (simp add: f(1) mod_if)
    then have "fips_compress (state c) blk = foldl fips_compress fips_H0 (blocks (fips_pad msg))"
      using True f by (simp add: blocks_append blocks_one blk_def)
    finally show ?thesis .
  next
    case False
    define blk where "blk = rest @ [0x80] @ replicate (63 - datalen c) 0"
    define last where "last = replicate 56 0 @ to_be 8 n"
    have z: "zero_from (datalen c + 1) 64 ((block c)[datalen c := 0x80]) = blk"
      using zero_from_eq [of "datalen c + 1" 64 "(block c)[datalen c := 0x80]"] l
      unfolding mark blk_def by simp
    have lb: "length blk = 64" using f(3) l(2) by (simp add: blk_def)
    have "zero_from 0 56 blk = replicate 56 0 @ drop 56 blk" using lb by (simp add: zero_from_eq)
    then have put: "take 56 (zero_from 0 56 blk) @ to_be 8 n = last" by (simp add: last_def)
    have "state (fst (sha256_final c)) = sha256_transform (sha256_transform (state c) blk) last"
      using False l lb n put z unfolding sha256_final_def Let_def by (simp add: put_length)
    also have "\<dots> = fips_compress (fips_compress (state c) blk) last"
      using lb by (simp add: transform_fips last_def)
    also have "fips_pad msg = full @ blk @ last"
    proof -
      have "(119 - datalen c) mod 64 = 119 - datalen c" using False by simp
      moreover have "replicate (119 - datalen c) (0 :: u8) = replicate (63 - datalen c) 0 @ replicate 56 0"
        using l(2) by (simp flip: replicate_add)
      ultimately show ?thesis unfolding fips_pad_def len blk_def last_def n_def by (simp add: f(1))
    qed
    then have "fips_compress (fips_compress (state c) blk) last = foldl fips_compress fips_H0 (blocks (fips_pad msg))"
      using f lb by (simp add: blocks_append blocks_one last_def)
    finally show ?thesis .
  qed
qed


lemma digest_bytes:
  assumes "length st = 8"
  shows "map (\<lambda>j. ucast (drop_bit (24 - j mod 4 * 8) (st ! (j div 4)) AND 0x000000ff)) [0 ..< 32] = concat (map (to_be 4) (st :: u32 list))"
proof -
  have byte: "ucast (w AND 0x000000ff) = (ucast w :: u8)" for w :: u32
  proof (rule bit_word_eqI)
    fix n assume "n < LENGTH(8)"
    have m: "(0x000000ff :: u32) = mask 8" by (simp add: mask_eq_exp_minus_1)
    show "bit (ucast (w AND 0x000000ff) :: u8) n = bit (ucast w :: u8) n"
      using \<open>n < LENGTH(8)\<close> unfolding m bit_unsigned_iff bit_and_iff bit_mask_iff by simp
  qed
  have be: "to_be 4 w = [ucast (drop_bit 24 w), ucast (drop_bit 16 w), ucast (drop_bit 8 w), ucast w]" for w :: u32
    by (simp add: to_be_def to_le_def byte_of_def upt_rec)
  obtain a b c d e f g h where "st = [a, b, c, d, e, f, g, h]"
    using assms by (auto simp: numeral_eq_Suc length_Suc_conv)
  then show ?thesis by (simp add: upt_rec byte be)
qed

lemma length_compress_fold: "length st = 8 \<Longrightarrow> length (foldl fips_compress st bs) = 8"
  by (induction bs arbitrary: st) (simp_all add: fips_compress_def split: prod.splits)

lemma final_digest:
  assumes "absorbed msg c"
  shows "snd (sha256_final c) = fips_sha256 msg"
proof -
  have "length (state (fst (sha256_final c))) = 8"
    unfolding final_state [OF assms] by (rule length_compress_fold) (simp add: fips_H0_def)
  from digest_bytes [OF this] have "snd (sha256_final c) = concat (map (to_be 4) (state (fst (sha256_final c))))"
    by (simp add: sha256_final_def Let_def)
  then show ?thesis by (simp only: final_state [OF assms] fips_sha256_def)
qed

lemma absorbed_pieces:
  assumes "length (block ctx) = 64"
  shows "absorbed (concat pieces) (foldl sha256_update (sha256_init ctx) pieces)"
proof (induction pieces rule: rev_induct)
  case Nil
  then show ?case using absorbed_init [OF assms] by simp
next
  case (snoc p ps)
  then show ?case using absorbed_update by simp
qed

text \<open>
  C9. Hashing a message in any number of pieces gives the standard's hash of the whole message: the
  buffering, the block transform and the padding (in one block or in two) agree with FIPS 180-4,
  where the message is padded first and the compression function is folded over its blocks.
\<close>

theorem sha256_correct:
  assumes "length (block ctx) = 64"
  shows "snd (sha256_final (foldl sha256_update (sha256_init ctx) pieces)) = fips_sha256 (concat pieces)"
  by (rule final_digest) (rule absorbed_pieces [OF assms])

theorem sha256_correct_witness:
  "snd (sha256_final (foldl sha256_update (sha256_init \<lparr>block = replicate 64 0, datalen = 0, bitlen = 0, state = []\<rparr>) [[97], [98, 99]]))
     = fips_sha256 [97, 98, 99]"
  using sha256_correct [of "\<lparr>block = replicate 64 0, datalen = 0, bitlen = 0, state = []\<rparr>" "[[97], [98, 99]]"] by simp

end
