(* ===== verification/Krandom.thy ===== *)
theory Krandom
  imports Chacha20 Sha256
begin

text \<open>
  The random number generator, \<^verbatim>\<open>src/src/drivers/char/random.c\<close>. What the hardware contributes (the
  time stamp counter, the CPU's own generators) is an argument: a reseed is given an \<open>entropy\<close> record.
  The lock makes a step of the generator atomic; events from interrupt handlers are steps of their own.
\<close>

unbundle bit_operations_syntax

section \<open>The code\<close>

abbreviation (input) "RESEED_AFTER_EVENTS \<equiv> 32 :: u32"
abbreviation (input) "EXPAND_BLOCK \<equiv> 256 :: nat"

datatype random_source = Timing_only | RDSEED | RDRAND

record rng =
  key :: "u8 list"
  requests :: u64
  seeded :: bool
  reseeds :: u64
  pool :: "u64 list"
  pool_position :: u32
  pool_events :: u32
  source :: random_source

definition rng_boot :: rng where
  "rng_boot = \<lparr>key = replicate 32 0, requests = 0, seeded = False, reseeds = 0, pool = replicate 8 0,
     pool_position = 0, pool_events = 0, source = Timing_only\<rparr>"

text \<open>What one reseed reads: which generators the CPU has, what each try gave, and the time stamp counter.\<close>

record entropy =
  have_seed :: bool
  have_rand :: bool
  rdseed_try :: "nat \<Rightarrow> nat \<Rightarrow> u64 option"
  rdrand_try :: "nat \<Rightarrow> nat \<Rightarrow> u64 option"
  tsc :: u64

fun first_try :: "(nat \<Rightarrow> u64 option) \<Rightarrow> nat \<Rightarrow> nat \<Rightarrow> u64 option" where
  "first_try f i 0 = None"
| "first_try f i (Suc n) = (case f i of Some w \<Rightarrow> Some w | None \<Rightarrow> first_try f (i + 1) n)"

definition rdseed64 :: "entropy \<Rightarrow> nat \<Rightarrow> u64 option" where
  "rdseed64 e i = first_try (rdseed_try e i) 0 32"

definition rdrand64 :: "entropy \<Rightarrow> nat \<Rightarrow> u64 option" where
  "rdrand64 e i = first_try (rdrand_try e i) 0 16"

definition random_add_event :: "rng \<Rightarrow> u64 \<Rightarrow> u64 \<Rightarrow> rng" where
  "random_add_event r now val =
     (let at = unat (pool_position r mod 8); w = pool r ! at
      in r\<lparr>pool_position := pool_position r + 1,
           pool := (pool r)[at := (push_bit 13 w OR drop_bit 51 w) XOR now XOR (val * 0x9E3779B97F4A7C15)],
           pool_events := pool_events r + 1\<rparr>)"

text \<open>
  Word \<open>i\<close> of what the CPU's generators gave, and whether they gave any. An instruction that fails
  clears its operand, so a word neither filled is zero.
\<close>

definition hardware_word :: "entropy \<Rightarrow> nat \<Rightarrow> u64 \<times> bool" where
  "hardware_word e i =
     (case if have_seed e then rdseed64 e i else None of
        Some w \<Rightarrow> (w, True)
      | None \<Rightarrow> (case if have_rand e then rdrand64 e i else None of Some w \<Rightarrow> (w, True) | None \<Rightarrow> (0, False)))"

text \<open>A fresh context of the hash; what the block holds before it is filled does not matter.\<close>

definition fresh_ctx :: sha256_ctx where
  "fresh_ctx = \<lparr>block = replicate 64 0, datalen = 0, bitlen = 0, state = []\<rparr>"

definition reseed :: "rng \<Rightarrow> entropy \<Rightarrow> rng" where
  "reseed r e =
     (let hw = map (hardware_word e) [0 ..< 4];
          got = list_ex snd hw;
          ctx = sha256_init fresh_ctx;
          ctx = sha256_update ctx (key r);
          ctx = sha256_update ctx (concat (map (to_le 8) (pool r)));
          ctx = sha256_update ctx (concat (map (to_le 8) (map fst hw)));
          ctx = sha256_update ctx (to_le 8 (tsc e))
      in r\<lparr>source := (if got then (if have_seed e then RDSEED else RDRAND) else source r),
           key := snd (sha256_final ctx), pool_events := 0, seeded := True, reseeds := reseeds r + 1\<rparr>)"

text \<open>The next key and the output.\<close>

definition random_expand :: "u8 list \<Rightarrow> u64 \<Rightarrow> nat \<Rightarrow> u8 list \<times> u8 list" where
  "random_expand from_key request_number count =
     (let zeros = replicate EXPAND_BLOCK 0;
          nonce = to_le 8 request_number @ replicate 4 0;
          count = (if count > EXPAND_BLOCK - 32 then EXPAND_BLOCK - 32 else count);
          stream = chacha20_encrypt from_key nonce 0 (Some zeros) EXPAND_BLOCK
      in (take 32 stream, take count (drop 32 stream)))"

text \<open>One turn of the loop of \<open>get_random_bytes\<close>, under the lock.\<close>

definition random_step :: "rng \<Rightarrow> entropy \<Rightarrow> nat \<Rightarrow> rng \<times> u8 list" where
  "random_step r e chunk =
     (let r = (if \<not> seeded r \<or> pool_events r \<ge> RESEED_AFTER_EVENTS then reseed r e else r);
          (next_key, out) = random_expand (key r) (requests r) chunk
      in (r\<lparr>key := next_key, requests := requests r + 1\<rparr>, out))"

text \<open>
  The loop. Turn \<open>n\<close> finds the entropy \<open>env n\<close> should it reseed, and before it, while the lock is
  free, interrupt handlers have added the events of \<open>env n\<close> (each a time and a value).
\<close>

type_synonym rng_env = "nat \<Rightarrow> entropy \<times> (u64 \<times> u64) list"

function get_random_loop :: "rng \<Rightarrow> rng_env \<Rightarrow> nat \<Rightarrow> nat \<Rightarrow> u8 list \<Rightarrow> rng \<times> u8 list" where
  "get_random_loop r env n count out =
     (if count > 0
      then let chunk = (if count < EXPAND_BLOCK - 32 then count else EXPAND_BLOCK - 32);
               (e, evs) = env n;
               r = foldl (\<lambda>r (now, val). random_add_event r now val) r evs;
               (r, blk) = random_step r e chunk
           in get_random_loop r env (n + 1) (count - chunk) (out @ blk)
      else (r, out))"
  by auto
termination by (relation "measure (\<lambda>(r, env, n, count, out). count)") auto

definition get_random_bytes :: "rng \<Rightarrow> rng_env \<Rightarrow> nat \<Rightarrow> rng \<times> u8 list" where
  "get_random_bytes r env count = get_random_loop r env 0 count []"

definition get_random_u32 :: "rng \<Rightarrow> rng_env \<Rightarrow> rng \<times> u32" where
  "get_random_u32 r env = (let (r, bs) = get_random_bytes r env 4 in (r, of_le bs))"

definition random_init :: "rng \<Rightarrow> entropy \<Rightarrow> rng" where
  "random_init r e = reseed r e"

declare get_random_loop.simps [simp del]

section \<open>One step\<close>

lemma length_random_expand [simp]:
  "length (fst (random_expand k n count)) = 32" "length (snd (random_expand k n count)) = min count 224"
  by (auto simp: random_expand_def Let_def)

text \<open>The new key is the SHA-256 hash of the old key, the pool, the hardware's words and the time.\<close>

lemma reseed_key:
  "key (reseed r e) = fips_sha256 (key r @ concat (map (to_le 8) (pool r))
     @ concat (map (\<lambda>i. to_le 8 (fst (hardware_word e i))) [0 ..< 4]) @ to_le 8 (tsc e))"
proof -
  define pieces where "pieces = [key r, concat (map (to_le 8) (pool r)),
    concat (map (to_le 8) (map fst (map (hardware_word e) [0 ..< 4]))), to_le 8 (tsc e)]"
  have "absorbed (concat pieces) (foldl sha256_update (sha256_init fresh_ctx) pieces)"
    by (rule absorbed_pieces) (simp add: fresh_ctx_def)
  from final_digest [OF this] have "key (reseed r e) = fips_sha256 (concat pieces)"
    unfolding reseed_def pieces_def Let_def by simp
  then show ?thesis by (simp add: pieces_def comp_def)
qed

lemma length_reseed_key [simp]: "length (key (reseed r e)) = 32"
  unfolding reseed_def Let_def by (simp add: sha256_final_def Let_def)

lemma reseed_frame [simp]:
  "requests (reseed r e) = requests r" "seeded (reseed r e)" "pool (reseed r e) = pool r"
  by (simp_all add: reseed_def Let_def)

lemma add_events_frame [simp]:
  "requests (foldl (\<lambda>r (now, val). random_add_event r now val) r evs) = requests r"
  "key (foldl (\<lambda>r (now, val). random_add_event r now val) r evs) = key r"
  "seeded (foldl (\<lambda>r (now, val). random_add_event r now val) r evs) = seeded r"
  "length (pool (foldl (\<lambda>r (now, val). random_add_event r now val) r evs)) = length (pool r)"
  by (induction evs arbitrary: r) (auto simp: random_add_event_def Let_def)

section \<open>What a request draws\<close>

text \<open>
  The generator, without its state: request number \<open>n\<close> under the key \<open>k\<close> has a key stream of 256 bytes. A key is
  used as it is, if there is one at all, or hashed first together with 104 bytes (the pool, the
  hardware's words and the time). The first 32 bytes of the stream are the key after it; only the bytes behind them are given out.
\<close>

definition random_stream :: "u8 list \<Rightarrow> u64 \<Rightarrow> u8 list" where
  "random_stream k n = rfc_stream k (to_le 8 n @ replicate 4 0) 0 4"

definition key_from :: "bool \<Rightarrow> u8 list \<Rightarrow> u8 list \<Rightarrow> bool" where
  "key_from ready old k \<longleftrightarrow> ready \<and> k = old \<or> (\<exists>t. length t = 104 \<and> k = fips_sha256 (old @ t))"

inductive draws :: "bool \<Rightarrow> u8 list \<Rightarrow> u64 \<Rightarrow> nat \<Rightarrow> u8 list \<Rightarrow> u8 list \<Rightarrow> bool" where
  nothing: "draws ready old n 0 [] old"
| block: "draws ready old n count (take count (drop 32 (random_stream k n)) @ bytes) last_key"
    if "0 < count" "key_from ready old k" "draws True (take 32 (random_stream k n)) (n + 1) (count - 224) bytes last_key"

lemma random_expand_stream:
  assumes "length k = 32" and "count \<le> 224"
  shows "random_expand k n count = (take 32 (random_stream k n), take count (drop 32 (random_stream k n)))"
proof -
  have "chacha20_encrypt k (to_le 8 n @ replicate 4 0) 0 (Some (replicate 256 0)) 256 = random_stream k n"
    using chacha20_zeros [of k "to_le 8 n @ replicate 4 0" 256 4 "Some (replicate 256 0)" 0] assms(1)
      length_rfc_stream [of k "to_le 8 n @ replicate 4 0" 0 4] by (simp add: random_stream_def)
  then show ?thesis using assms(2) by (simp add: random_expand_def Let_def)
qed

lemma random_step_draws:
  assumes "random_step r e chunk = (r', out)" and "length (key r) = 32" and "length (pool r) = 8" and "chunk \<le> 224"
  obtains k where "key_from (seeded r) (key r) k" "key r' = take 32 (random_stream k (requests r))"
    "out = take chunk (drop 32 (random_stream k (requests r)))" "requests r' = requests r + 1" "seeded r'" "length (pool r') = 8" "length (key r') = 32"
    "length (random_stream k (requests r)) = 256"
proof -
  define r1 where "r1 = (if \<not> seeded r \<or> pool_events r \<ge> RESEED_AFTER_EVENTS then reseed r e else r)"
  have "key_from (seeded r) (key r) (key r1)"
  proof (cases "\<not> seeded r \<or> pool_events r \<ge> RESEED_AFTER_EVENTS")
    case True
    define t where "t = concat (map (to_le 8) (pool r)) @ concat (map (\<lambda>i. to_le 8 (fst (hardware_word e i))) [0 ..< 4]) @ to_le 8 (tsc e)"
    have "length t = 104" using assms(3) by (simp add: t_def length_concat comp_def sum_list_triv)
    then show ?thesis using True reseed_key [of r e] unfolding key_from_def r1_def t_def [symmetric] by auto
  qed (simp add: key_from_def r1_def)
  moreover have k: "length (key r1) = 32" "requests r1 = requests r" "seeded r1" "pool r1 = pool r"
    using assms(2) by (auto simp: r1_def)
  moreover have "r' = r1\<lparr>key := take 32 (random_stream (key r1) (requests r1)), requests := requests r1 + 1\<rparr>"
    "out = take chunk (drop 32 (random_stream (key r1) (requests r1)))"
    using assms(1) random_expand_stream [OF k(1) assms(4), of "requests r1"] unfolding random_step_def r1_def [symmetric] Let_def by simp_all
  ultimately show ?thesis using that [of "key r1"] assms(3) by (simp add: random_stream_def length_rfc_stream)
qed

section \<open>Getting random bytes\<close>

lemma steps_div: "0 < count \<Longrightarrow> (count + 223) div 224 = Suc ((count - 224 + 223) div (224 :: nat))"
proof (cases "count < 224")
  case False
  then obtain k where "count = 224 + k" by (metis le_Suc_ex not_less)
  then show ?thesis by simp
qed simp

lemma get_random_loop_correct:
  assumes "length (key r) = 32" and "length (pool r) = 8" and "get_random_loop r env n count out = (r', bytes)"
  shows "\<exists>drawn. bytes = out @ drawn \<and> length drawn = count \<and> draws (seeded r) (key r) (requests r) count drawn (key r')
    \<and> requests r' = requests r + of_nat ((count + 223) div 224) \<and> (0 < count \<longrightarrow> seeded r')"
  using assms
proof (induction r env n count out rule: get_random_loop.induct)
  case (1 r env n count out)
  show ?case
  proof (cases "0 < count")
    case False
    then show ?thesis using "1.prems"(3) draws.nothing by (simp add: get_random_loop.simps)
  next
    case True
    define chunk where "chunk = (if count < 256 - 32 then count else 256 - 32)"
    have chunk: "chunk \<le> 224" "chunk = min count 224" "count - chunk = count - 224" by (auto simp: chunk_def)
    obtain e evs where env: "env n = (e, evs)" by (cases "env n")
    define r1 where "r1 = foldl (\<lambda>r (now, val). random_add_event r now val) r evs"
    obtain r2 blk where step: "random_step r1 e chunk = (r2, blk)" by (cases "random_step r1 e chunk")
    have r1: "length (key r1) = 32" "length (pool r1) = 8" "key r1 = key r" "seeded r1 = seeded r" "requests r1 = requests r"
      using "1.prems"(1,2) by (simp_all add: r1_def)
    obtain k where k: "key_from (seeded r) (key r) k" "key r2 = take 32 (random_stream k (requests r))"
      "blk = take chunk (drop 32 (random_stream k (requests r)))" "requests r2 = requests r + 1" "seeded r2" "length (pool r2) = 8" "length (key r2) = 32"
      "length (random_stream k (requests r)) = 256"
      using random_step_draws [OF step r1(1,2) chunk(1)] unfolding r1(3-5) by blast
    have run: "get_random_loop r2 env (n + 1) (count - chunk) (out @ blk) = (r', bytes)"
      using "1.prems"(3) unfolding get_random_loop.simps [of r] Let_def chunk_def [symmetric] env prod.case r1_def [symmetric] step
      using True by simp
    from this obtain drawn where d: "bytes = (out @ blk) @ drawn" "length drawn = count - 224"
        "draws True (take 32 (random_stream k (requests r))) (requests r + 1) (count - 224) drawn (key r')"
        "requests r' = requests r2 + of_nat ((count - 224 + 223) div 224)" "0 < count - 224 \<longrightarrow> seeded r'"
      using "1.IH" [OF True chunk_def env [symmetric] refl r1_def step [symmetric] refl k(7,6)] k(2,4,5) chunk(3) by auto
    have rest: "seeded r'"
    proof (cases "count - chunk = 0")
      case True
      then show ?thesis using run k(5) by (simp add: get_random_loop.simps)
    qed (use d(5) chunk(3) in simp)
    have blk: "blk = take count (drop 32 (random_stream k (requests r)))" "length blk = chunk"
      using k(3,8) chunk(2) by (auto simp: min_def)
    have "draws (seeded r) (key r) (requests r) count (blk @ drawn) (key r')"
      unfolding blk(1) by (rule draws.block [OF True k(1) d(3)])
    then show ?thesis using d k(4) blk(2) chunk(2) steps_div [OF True] k(5) True rest by (intro exI [of _ "blk @ drawn"]) auto
  qed
qed

text \<open>
  C20. \<open>get_random_bytes\<close> ends and gives exactly the number of bytes asked for, whatever the hardware
  supplies and whatever events arrive between its steps. They are drawn as above: for every 224 bytes there
  is one request number, whose ChaCha20 key stream is split into the next key and the bytes that are given
  out, so that no byte of a key is given out and the key a byte came from is gone; a generator that has not been seeded yet
  hashes its key with what it gathered before it is first used.
\<close>

theorem get_random_bytes_correct:
  assumes "length (key r) = 32" and "length (pool r) = 8" and "get_random_bytes r env count = (r', bytes)"
  shows "length bytes = count \<and> draws (seeded r) (key r) (requests r) count bytes (key r')
    \<and> requests r' = requests r + of_nat ((count + 223) div 224) \<and> (0 < count \<longrightarrow> seeded r')"
  using get_random_loop_correct [OF assms(1,2), of env 0 count "[]" r' bytes] assms(3) by (simp add: get_random_bytes_def)

theorem get_random_bytes_correct_witness:
  "let r = get_random_bytes rng_boot (\<lambda>_. (\<lparr>have_seed = False, have_rand = False,
      rdseed_try = (\<lambda>_ _. None), rdrand_try = (\<lambda>_ _. None), tsc = 7\<rparr>, [(1, 2)])) 500
   in requests (fst r) = 3 \<and> draws False (replicate 32 0) 0 500 (snd r) (key (fst r))"
proof -
  define env :: rng_env where "env = (\<lambda>_. (\<lparr>have_seed = False, have_rand = False,
      rdseed_try = (\<lambda>_ _. None), rdrand_try = (\<lambda>_ _. None), tsc = 7\<rparr>, [(1, 2)]))"
  obtain r' bytes where run: "get_random_bytes rng_boot env 500 = (r', bytes)" by (cases "get_random_bytes rng_boot env 500")
  have "length (key rng_boot) = 32" "length (pool rng_boot) = 8" by (simp_all add: rng_boot_def)
  from get_random_bytes_correct [OF this run] have "requests r' = 3 \<and> draws False (replicate 32 0) 0 500 bytes (key r')"
    by (simp add: rng_boot_def)
  then show ?thesis unfolding env_def [symmetric] Let_def run by simp
qed

end
