(* ===== verification/Ring.thy ===== *)
theory Ring
  imports Prelude
begin

text \<open>
  Bounded first-in first-out queues. The kernel keeps several of them in circular buffers (pipes, the
  keyboard, the serial line, the mouse, the message log). \<open>ring_list\<close> is the list a circular buffer
  holds, with the two lemmas every such buffer needs. The locale \<open>bounded_fifo\<close> is the interface of a
  queue in terms of that list, and \<open>fifo_loops\<close> extends it with the loops that move whole runs of
  elements in and out; the clients' lemmas on those loops are proved here once.
\<close>

section \<open>Circular buffers\<close>

definition ring_list :: "'a list \<Rightarrow> nat \<Rightarrow> nat \<Rightarrow> 'a list" where
  "ring_list buf start n = map (\<lambda>i. buf ! ((start + i) mod length buf)) [0 ..< n]"

lemma length_ring_list [simp]: "length (ring_list buf start n) = n"
  by (simp add: ring_list_def)

lemma ring_list_0 [simp]: "ring_list buf start 0 = []"
  by (simp add: ring_list_def)

lemma ring_list_eq_Nil [simp]: "ring_list buf start n = [] \<longleftrightarrow> n = 0"
  by (simp add: ring_list_def)

lemma ring_list_push [ring_simps]:
  assumes "n < length buf"
  shows "ring_list (buf[(start + n) mod length buf := x]) start (Suc n) = ring_list buf start n @ [x]"
proof -
  have "(start + i) mod length buf \<noteq> (start + n) mod length buf" if "i < n" for i
  proof
    assume "(start + i) mod length buf = (start + n) mod length buf"
    then have "length buf dvd (start + n) - (start + i)" using that by (intro mod_eq_dvd_iff_nat [THEN iffD1]) auto
    then show False using that assms by (auto dest!: dvd_imp_le)
  qed
  moreover have "(start + n) mod length buf < length buf" using assms by (intro mod_less_divisor) auto
  ultimately show ?thesis by (auto simp: ring_list_def nth_list_update_neq [OF not_sym])
qed

lemma ring_list_pop [ring_simps]:
  "ring_list buf start (Suc n) = buf ! (start mod length buf) # ring_list buf ((start + 1) mod length buf) n"
proof -
  have "[0 ..< Suc n] = 0 # map Suc [0 ..< n]" by (metis map_Suc_upt upt_conv_Cons zero_less_Suc)
  then show ?thesis by (simp add: ring_list_def mod_add_left_eq comp_def)
qed

lemma ring_list_update:
  assumes "i < n" and "n \<le> length buf"
  shows "ring_list (buf[(start + i) mod length buf := x]) start n = (ring_list buf start n)[i := x]"
proof (rule nth_equalityI)
  fix j assume "j < length (ring_list (buf[(start + i) mod length buf := x]) start n)"
  then have j: "j < n" by simp
  have "(start + j) mod length buf = (start + i) mod length buf \<longleftrightarrow> j = i"
  proof
    assume e: "(start + j) mod length buf = (start + i) mod length buf"
    show "j = i"
    proof (rule ccontr)
      assume "j \<noteq> i"
      then consider "j < i" | "i < j" by linarith
      then show False
      proof cases
        case 1
        then have "length buf dvd (start + i) - (start + j)" using e by (intro mod_eq_dvd_iff_nat [THEN iffD1]) auto
        then show False using 1 assms by (auto dest!: dvd_imp_le)
      next
        case 2
        then have "length buf dvd (start + j) - (start + i)" using e by (intro mod_eq_dvd_iff_nat [THEN iffD1]) auto
        then show False using 2 j assms by (auto dest!: dvd_imp_le)
      qed
    qed
  qed simp
  moreover have "(start + i) mod length buf < length buf" using assms by (intro mod_less_divisor) auto
  ultimately show "ring_list (buf[(start + i) mod length buf := x]) start n ! j = (ring_list buf start n)[i := x] ! j"
    using j by (auto simp: ring_list_def nth_list_update)
qed simp

lemma mod_step: "(start + Suc n) mod k = ((start + n) mod k + 1) mod (k::nat)"
  by (simp add: mod_Suc_eq)

lemma mod_less_twice: "x < 2 * k \<Longrightarrow> x mod k = (if x < k then x else x - k)" for x k :: nat
  by (simp add: mod_if)

section \<open>The interface\<close>

locale bounded_fifo =
  fixes inv :: "'s \<Rightarrow> bool" and contents :: "'s \<Rightarrow> 'a list" and capacity :: nat
    and put :: "'a \<Rightarrow> 's \<Rightarrow> 's" and front :: "'s \<Rightarrow> 'a" and get :: "'s \<Rightarrow> 's"
  assumes bounded: "inv s \<Longrightarrow> length (contents s) \<le> capacity"
    and put_inv: "inv s \<Longrightarrow> length (contents s) < capacity \<Longrightarrow> inv (put x s)"
    and put_contents: "inv s \<Longrightarrow> length (contents s) < capacity \<Longrightarrow> contents (put x s) = contents s @ [x]"
    and get_inv: "inv s \<Longrightarrow> contents s \<noteq> [] \<Longrightarrow> inv (get s)"
    and front_contents: "inv s \<Longrightarrow> contents s \<noteq> [] \<Longrightarrow> contents s = front s # contents (get s)"
begin

lemma get_after_put_empty:
  "inv s \<Longrightarrow> contents s = [] \<Longrightarrow> 0 < capacity \<Longrightarrow> front (put x s) = x \<and> contents (get (put x s)) = []"
  using put_inv [of s x] put_contents [of s x] front_contents [of "put x s"] by simp

end

text \<open>
  Loops over such a queue: \<open>fill\<close> puts elements in until it is full and returns those left over,
  \<open>drain\<close> takes up to \<open>n\<close> out.
\<close>

locale fifo_loops = bounded_fifo inv contents capacity put front get
  for inv :: "'s \<Rightarrow> bool" and contents :: "'s \<Rightarrow> 'a list" and capacity :: nat
    and put :: "'a \<Rightarrow> 's \<Rightarrow> 's" and front :: "'s \<Rightarrow> 'a" and get :: "'s \<Rightarrow> 's" +
  fixes fill :: "'s \<Rightarrow> 'a list \<Rightarrow> 's \<times> 'a list" and drain :: "'s \<Rightarrow> nat \<Rightarrow> 's \<times> 'a list"
  assumes fill_Nil: "fill s [] = (s, [])"
    and fill_Cons: "inv s \<Longrightarrow> fill s (x # xs) = (if length (contents s) < capacity then fill (put x s) xs else (s, x # xs))"
    and drain_0: "drain s 0 = (s, [])"
    and drain_Suc: "inv s \<Longrightarrow> drain s (Suc n) =
      (if contents s = [] then (s, []) else case drain (get s) n of (s', xs) \<Rightarrow> (s', front s # xs))"
begin

lemma fill_correct:
  assumes "inv s"
  defines "room \<equiv> capacity - length (contents s)"
  shows "inv (fst (fill s xs)) \<and> contents (fst (fill s xs)) = contents s @ take room xs
    \<and> snd (fill s xs) = drop room xs"
  using assms(1) unfolding room_def
proof (induction xs arbitrary: s)
  case Nil
  then show ?case by (simp add: fill_Nil)
next
  case (Cons x xs)
  show ?case
  proof (cases "length (contents s) < capacity")
    case True
    then obtain k where k: "capacity - length (contents s) = Suc k" "capacity - Suc (length (contents s)) = k"
      by (metis Suc_diff_Suc)
    then show ?thesis
      using True Cons.IH [OF put_inv [OF Cons.prems True]] Cons.prems
      by (simp add: fill_Cons put_contents)
  next
    case False
    then show ?thesis using Cons.prems by (simp add: fill_Cons)
  qed
qed

lemma drain_correct:
  assumes "inv s"
  shows "inv (fst (drain s n)) \<and> snd (drain s n) = take n (contents s)
    \<and> contents (fst (drain s n)) = drop n (contents s)"
  using assms
proof (induction n arbitrary: s)
  case 0
  then show ?case by (simp add: drain_0)
next
  case (Suc n)
  show ?case
  proof (cases "contents s = []")
    case False
    note f = front_contents [OF Suc.prems False]
    have "take (Suc n) (contents s) = front s # take n (contents (get s))"
      "drop (Suc n) (contents s) = drop n (contents (get s))" by (subst f, simp)+
    then show ?thesis
      using Suc.IH [OF get_inv [OF Suc.prems False]] False Suc.prems
      by (simp only: drain_Suc if_False split_beta fst_conv snd_conv)
  qed (use Suc.prems in \<open>simp add: drain_Suc\<close>)
qed

text \<open>Nothing is lost, duplicated or reordered: what is drained and what stays is what was there.\<close>

lemma drain_append: "inv s \<Longrightarrow> snd (drain s n) @ contents (fst (drain s n)) = contents s"
  using drain_correct by simp

lemma fill_append:
  "inv s \<Longrightarrow> \<exists>taken. xs = taken @ snd (fill s xs) \<and> contents (fst (fill s xs)) = contents s @ taken"
  using fill_correct [of s xs] by (metis append_take_drop_id)

text \<open>Filling a queue that is not full makes progress; draining one that is not empty does too.\<close>

lemma fill_progress:
  "inv s \<Longrightarrow> length (contents s) < capacity \<Longrightarrow> xs \<noteq> [] \<Longrightarrow> length (snd (fill s xs)) < length xs"
  using fill_correct [of s xs] by (cases xs) auto

lemma fill_leftover_full:
  "inv s \<Longrightarrow> snd (fill s xs) \<noteq> [] \<Longrightarrow> length (contents (fst (fill s xs))) = capacity"
  using fill_correct [of s xs] bounded [of s] by auto

lemma drain_progress: "inv s \<Longrightarrow> contents s \<noteq> [] \<Longrightarrow> 0 < n \<Longrightarrow> snd (drain s n) \<noteq> []"
  using drain_correct [of s n] by (cases n) auto

end

end
