(* ===== verification/Pipe.thy ===== *)
theory Pipe
  imports Ring
begin

text \<open>
  Pipes, \<^verbatim>\<open>src/src/fs/pipe.c\<close>. A call runs under the pipe's lock until it returns or sleeps, so it
  is modelled one holding of the lock at a time: an attempt either finishes with a result or goes to
  sleep, and a sleeping call makes another attempt when it is woken. Whether a signal is pending is an
  argument. The interleavings of readers, writers and closing ends are the steps of a transition
  system, whose state remembers every byte that ever went in and came out.
\<close>

section \<open>The code\<close>

abbreviation (input) "PIPE_BUFFER_SIZE \<equiv> 4096 :: nat"

record pipe =
  buffer :: "u8 list"
  head :: nat
  tail :: nat
  count :: nat
  reader_open :: bool
  writer_open :: bool

text \<open>\<open>memory\<close> is whether \<open>kmalloc\<close> found room.\<close>

definition pipe_create :: "bool \<Rightarrow> pipe option" where
  "pipe_create memory = (if \<not> memory then None
     else Some \<lparr>buffer = replicate PIPE_BUFFER_SIZE 0, head = 0, tail = 0, count = 0,
        reader_open = True, writer_open = True\<rparr>)"

definition pipe_put :: "u8 \<Rightarrow> pipe \<Rightarrow> pipe" where
  "pipe_put b p = p\<lparr>buffer := (buffer p)[head p := b], head := (head p + 1) mod PIPE_BUFFER_SIZE, count := count p + 1\<rparr>"

definition pipe_front :: "pipe \<Rightarrow> u8" where
  "pipe_front p = buffer p ! tail p"

definition pipe_get :: "pipe \<Rightarrow> pipe" where
  "pipe_get p = p\<lparr>tail := (tail p + 1) mod PIPE_BUFFER_SIZE, count := count p - 1\<rparr>"

text \<open>The copying loops of the two calls.\<close>

fun pipe_drain :: "pipe \<Rightarrow> nat \<Rightarrow> pipe \<times> u8 list" where
  "pipe_drain p 0 = (p, [])"
| "pipe_drain p (Suc n) = (if count p > 0
     then case pipe_drain (pipe_get p) n of (p', bs) \<Rightarrow> (p', pipe_front p # bs)
     else (p, []))"

fun pipe_fill :: "pipe \<Rightarrow> u8 list \<Rightarrow> pipe \<times> u8 list" where
  "pipe_fill p [] = (p, [])"
| "pipe_fill p (b # bs) = (if count p < PIPE_BUFFER_SIZE then pipe_fill (pipe_put b p) bs else (p, b # bs))"

text \<open>How a holding of the lock ends: asleep, with what is left to do, or finished.\<close>

datatype ('w, 'r) attempt = Sleeps 'w | Finished 'r

definition pipe_read :: "pipe \<Rightarrow> nat \<Rightarrow> bool \<Rightarrow> pipe \<times> (unit, errno + u8 list) attempt" where
  "pipe_read p n interrupted =
     (if n = 0 then (p, Finished (Inr []))
      else if count p = 0 \<and> writer_open p
        then (p, if interrupted then Finished (Inl EINTR) else Sleeps ())
      else let (p, bs) = pipe_drain p n in (p, Finished (Inr bs)))"

text \<open>What \<open>pipe_write\<close> returns once its loop is left, \<open>done\<close> bytes in and \<open>rest\<close> not.\<close>

definition pipe_write_result :: "nat \<Rightarrow> u8 list \<Rightarrow> errno + nat" where
  "pipe_write_result dn rest = (if dn = 0 \<and> rest \<noteq> [] then Inl EPIPE else Inr dn)"

text \<open>
  The inner loop moves at least one byte into a pipe that is not full (\<open>pipe_write_unfold\<close> below), so the
  outer loop ends; the comparison of lengths only makes the recursion well-founded, and its other branch
  is never taken.
\<close>

function pipe_write :: "pipe \<Rightarrow> u8 list \<Rightarrow> nat \<Rightarrow> bool \<Rightarrow> pipe \<times> (u8 list \<times> nat, errno + nat) attempt" where
  "pipe_write p src dn interrupted =
     (if src = [] \<or> \<not> reader_open p then (p, Finished (pipe_write_result dn src))
      else if count p = PIPE_BUFFER_SIZE
        then (p, if interrupted then Finished (if dn > 0 then Inr dn else Inl EINTR) else Sleeps (src, dn))
      else let (p', rest) = pipe_fill p src
           in if length rest < length src
              then pipe_write p' rest (dn + (length src - length rest)) interrupted
              else (p', Sleeps (rest, dn)))"
  by auto
termination by (relation "measure (\<lambda>(p, src, dn, interrupted). length src)") auto

text \<open>Closing an end; the result is \<^const>\<open>None\<close> when the pipe is freed.\<close>

definition close_end :: "(pipe \<Rightarrow> pipe) \<Rightarrow> pipe \<Rightarrow> pipe option" where
  "close_end clear p = (let p = clear p; unused = (\<not> reader_open p \<and> \<not> writer_open p) in if unused then None else Some p)"

definition pipe_close_reader :: "pipe \<Rightarrow> pipe option" where
  "pipe_close_reader p = close_end (\<lambda>p. p\<lparr>reader_open := False\<rparr>) p"

definition pipe_close_writer :: "pipe \<Rightarrow> pipe option" where
  "pipe_close_writer p = close_end (\<lambda>p. p\<lparr>writer_open := False\<rparr>) p"

datatype poll_event = POLLIN | POLLOUT | POLLERR | POLLHUP | POLLNVAL

definition pipe_poll :: "pipe \<Rightarrow> bool \<Rightarrow> poll_event set" where
  "pipe_poll p reader =
     (if reader
      then (if count p > 0 then {POLLIN} else {}) \<union> (if \<not> writer_open p then {POLLIN, POLLHUP} else {})
      else if \<not> reader_open p then {POLLERR}
      else if count p < PIPE_BUFFER_SIZE then {POLLOUT} else {})"

declare pipe_write.simps [simp del]

section \<open>The ring buffer is a queue\<close>

definition pipe_inv :: "pipe \<Rightarrow> bool" where
  "pipe_inv p \<longleftrightarrow> length (buffer p) = PIPE_BUFFER_SIZE \<and> tail p < PIPE_BUFFER_SIZE
     \<and> count p \<le> PIPE_BUFFER_SIZE \<and> head p = (tail p + count p) mod PIPE_BUFFER_SIZE"

definition pipe_contents :: "pipe \<Rightarrow> u8 list" where
  "pipe_contents p = ring_list (buffer p) (tail p) (count p)"

lemma length_pipe_contents [simp]: "length (pipe_contents p) = count p"
  by (simp add: pipe_contents_def)

lemma pipe_contents_Nil [simp]: "pipe_contents p = [] \<longleftrightarrow> count p = 0" "[] = pipe_contents p \<longleftrightarrow> count p = 0"
  by (auto simp: pipe_contents_def dest: sym)

lemma pipe_put_contents:
  assumes "pipe_inv p" and "count p < PIPE_BUFFER_SIZE"
  shows "pipe_inv (pipe_put b p)" and "pipe_contents (pipe_put b p) = pipe_contents p @ [b]"
proof -
  show "pipe_inv (pipe_put b p)" using assms by (auto simp: pipe_inv_def pipe_put_def mod_Suc_eq)
  show "pipe_contents (pipe_put b p) = pipe_contents p @ [b]"
    using ring_list_push [of "count p" "buffer p" "tail p" b] assms
    by (simp add: pipe_contents_def pipe_put_def pipe_inv_def)
qed

lemma pipe_get_contents:
  assumes "pipe_inv p" and "count p \<noteq> 0"
  shows "pipe_inv (pipe_get p)" and "pipe_contents p = pipe_front p # pipe_contents (pipe_get p)"
proof -
  obtain c where c: "count p = Suc c" using assms(2) by (cases "count p") auto
  show "pipe_inv (pipe_get p)" using assms by (simp add: pipe_inv_def pipe_get_def c mod_add_left_eq)
  show "pipe_contents p = pipe_front p # pipe_contents (pipe_get p)"
    using ring_list_pop [of "buffer p" "tail p" c] assms
    by (simp add: pipe_contents_def pipe_get_def pipe_front_def pipe_inv_def c)
qed

interpretation pipe_queue: fifo_loops pipe_inv pipe_contents PIPE_BUFFER_SIZE pipe_put pipe_front pipe_get pipe_fill pipe_drain
proof unfold_locales
  show "pipe_drain p (Suc n) = (if pipe_contents p = [] then (p, [])
      else case pipe_drain (pipe_get p) n of (p', xs) \<Rightarrow> (p', pipe_front p # xs))" for p n
    by (cases "count p") auto
qed (auto simp: pipe_put_contents pipe_get_contents(1) pipe_get_contents(2) [symmetric], auto simp: pipe_inv_def)

lemma pipe_fill_frame [simp]:
  "reader_open (fst (pipe_fill p bs)) = reader_open p" "writer_open (fst (pipe_fill p bs)) = writer_open p"
  by (induction p bs rule: pipe_fill.induct) (simp_all add: pipe_put_def)

lemma pipe_drain_frame [simp]:
  "reader_open (fst (pipe_drain p n)) = reader_open p" "writer_open (fst (pipe_drain p n)) = writer_open p"
  by (induction p n rule: pipe_drain.induct) (auto simp: pipe_get_def split: prod.splits)

lemma pipe_write_unfold:
  assumes "pipe_inv p" and "src \<noteq> []" and "reader_open p" and "count p \<noteq> PIPE_BUFFER_SIZE"
  shows "pipe_write p src dn interrupted = (case pipe_fill p src of (p', rest) \<Rightarrow>
     pipe_write p' rest (dn + (length src - length rest)) interrupted)"
proof -
  have "count p < PIPE_BUFFER_SIZE" using assms(1,4) by (auto simp: pipe_inv_def)
  then have "length (snd (pipe_fill p src)) < length src"
    using pipe_queue.fill_progress [OF assms(1)] assms(2) by simp
  then show ?thesis using assms(2,3,4) by (subst pipe_write.simps) (simp add: split_beta)
qed

section \<open>One attempt\<close>

lemma pipe_read_cases:
  assumes "pipe_inv p" and "pipe_read p n interrupted = (p', r)"
  shows "pipe_inv p' \<and> reader_open p' = reader_open p \<and> writer_open p' = writer_open p
    \<and> (case r of Finished (Inr bs) \<Rightarrow> pipe_contents p = bs @ pipe_contents p' | _ \<Rightarrow> p' = p)"
  using assms pipe_queue.drain_correct [OF assms(1), of n]
  by (auto simp: pipe_read_def split_beta split: if_splits)

text \<open>
  How an attempt to write ends when it moved \<open>taken\<close> and left \<open>rest\<close>: it sleeps only on a full pipe,
  reports every byte moved, and fails only if it moved none.
\<close>

definition write_outcome :: "pipe \<Rightarrow> pipe \<Rightarrow> nat \<Rightarrow> bool \<Rightarrow> (u8 list \<times> nat, errno + nat) attempt \<Rightarrow> u8 list \<Rightarrow> u8 list \<Rightarrow> bool" where
  "write_outcome p p' dn interrupted r taken rest = (case r of
     Sleeps (src', dn') \<Rightarrow> src' = rest \<and> dn' = dn + length taken \<and> rest \<noteq> [] \<and> count p' = PIPE_BUFFER_SIZE \<and> \<not> interrupted
   | Finished (Inr k) \<Rightarrow> k = dn + length taken \<and> (rest = [] \<or> \<not> reader_open p \<or> interrupted \<and> 0 < k)
   | Finished (Inl e) \<Rightarrow> taken = [] \<and> rest \<noteq> [] \<and> dn = 0 \<and> (if reader_open p then e = EINTR \<and> interrupted else e = EPIPE))"

lemma write_outcome_fill:
  assumes "write_outcome p1 p' (dn + length taken1) interrupted r taken2 rest"
    and "taken1 \<noteq> []" and "reader_open p1 = reader_open p"
  shows "write_outcome p p' dn interrupted r (taken1 @ taken2) rest"
  using assms by (auto simp: write_outcome_def split: attempt.splits sum.splits)

text \<open>The bytes an attempt to write moves into the pipe are a prefix of what it was asked to write.\<close>

lemma pipe_write_cases:
  assumes "pipe_inv p" and "pipe_write p src dn interrupted = (p', r)"
  shows "\<exists>taken rest. src = taken @ rest \<and> pipe_inv p' \<and> pipe_contents p' = pipe_contents p @ taken
    \<and> reader_open p' = reader_open p \<and> writer_open p' = writer_open p \<and> write_outcome p p' dn interrupted r taken rest"
  using assms
proof (induction p src dn interrupted rule: pipe_write.induct)
  case (1 p src dn interrupted)
  consider "src = [] \<or> \<not> reader_open p" | "src \<noteq> []" "reader_open p" "count p = PIPE_BUFFER_SIZE"
    | "src \<noteq> []" "reader_open p" "count p \<noteq> PIPE_BUFFER_SIZE" by blast
  then show ?case
  proof cases
    case 1
    then show ?thesis using "1.prems"
      by (intro exI [of _ "[]"] exI [of _ src]) (auto simp: pipe_write.simps [of p] pipe_write_result_def write_outcome_def)
  next
    case 2
    then show ?thesis using "1.prems"
      by (intro exI [of _ "[]"] exI [of _ src]) (auto simp: pipe_write.simps [of p] write_outcome_def)
  next
    case 3
    obtain p1 rest1 where fill: "pipe_fill p src = (p1, rest1)" by (cases "pipe_fill p src")
    have lt: "count p < PIPE_BUFFER_SIZE" using 3 "1.prems"(1) by (auto simp: pipe_inv_def)
    have f: "pipe_inv p1" "reader_open p1 = reader_open p" "writer_open p1 = writer_open p" "length rest1 < length src"
      using pipe_queue.fill_correct [OF "1.prems"(1), of src] pipe_fill_frame [of p src] lt
        pipe_queue.fill_progress [OF "1.prems"(1), of src] 3(1) unfolding fill by auto
    obtain taken1 where t1: "src = taken1 @ rest1" "pipe_contents p1 = pipe_contents p @ taken1"
      using pipe_queue.fill_append [OF "1.prems"(1), of src] unfolding fill by auto
    have n: "length src - length rest1 = length taken1" "taken1 \<noteq> []" using t1(1) f(4) by auto
    have "pipe_write p1 rest1 (dn + (length src - length rest1)) interrupted = (p', r)"
      using "1.prems"(2) pipe_write_unfold [OF "1.prems"(1) 3] by (simp add: fill)
    from "1.IH" [OF _ 3(3) fill [symmetric] _ f(4) f(1) this] 3 obtain taken2 rest2 where
      IH: "rest1 = taken2 @ rest2" "pipe_inv p'" "pipe_contents p' = pipe_contents p1 @ taken2"
        "reader_open p' = reader_open p1" "writer_open p' = writer_open p1"
        "write_outcome p1 p' (dn + length taken1) interrupted r taken2 rest2"
      unfolding n(1) by blast
    from write_outcome_fill [OF IH(6) n(2) f(2)] IH f t1 show ?thesis
      by (intro exI [of _ "taken1 @ taken2"] exI [of _ rest2]) simp
  qed
qed

section \<open>Readers and writers together\<close>

text \<open>
  A pipe with everything that was ever accepted into it and handed out of it. Any number of processes
  read and write; each step is one holding of the lock by one of them, so a write that sleeps part way
  is several steps, with those of other processes in between.
\<close>

record pipe_system =
  the_pipe :: "pipe option"
  sent :: "u8 list"
  received :: "u8 list"

definition bytes_read :: "(unit, errno + u8 list) attempt \<Rightarrow> u8 list" where
  "bytes_read r = (case r of Finished (Inr bs) \<Rightarrow> bs | _ \<Rightarrow> [])"

text \<open>How many bytes went in during this holding of the lock, \<open>dn\<close> of the call having gone in before it.\<close>

definition bytes_moved :: "nat \<Rightarrow> (u8 list \<times> nat, errno + nat) attempt \<Rightarrow> nat" where
  "bytes_moved dn r = (case r of Sleeps (_, dn') \<Rightarrow> dn' - dn | Finished (Inr k) \<Rightarrow> k - dn | Finished (Inl _) \<Rightarrow> 0)"

lemma write_outcome_moved: "write_outcome p p' dn interrupted r taken rest \<Longrightarrow> bytes_moved dn r = length taken"
  by (auto simp: write_outcome_def bytes_moved_def split: attempt.splits sum.splits)

inductive pipe_step :: "pipe_system \<Rightarrow> pipe_system \<Rightarrow> bool" where
  reads: "the_pipe s = Some p \<Longrightarrow> pipe_read p n i = (p', r) \<Longrightarrow>
     pipe_step s (s\<lparr>the_pipe := Some p', received := received s @ bytes_read r\<rparr>)"
| writes: "the_pipe s = Some p \<Longrightarrow> pipe_write p src dn i = (p', r) \<Longrightarrow>
     pipe_step s (s\<lparr>the_pipe := Some p', sent := sent s @ take (bytes_moved dn r) src\<rparr>)"
| close_reader: "the_pipe s = Some p \<Longrightarrow> pipe_step s (s\<lparr>the_pipe := pipe_close_reader p\<rparr>)"
| close_writer: "the_pipe s = Some p \<Longrightarrow> pipe_step s (s\<lparr>the_pipe := pipe_close_writer p\<rparr>)"

inductive pipe_reachable :: "pipe_system \<Rightarrow> bool" where
  created: "pipe_create True = Some p \<Longrightarrow> pipe_reachable \<lparr>the_pipe = Some p, sent = [], received = []\<rparr>"
| step: "pipe_reachable s \<Longrightarrow> pipe_step s s' \<Longrightarrow> pipe_reachable s'"

inductive_cases pipe_stepE: "pipe_step s s'"

definition pipe_system_inv :: "pipe_system \<Rightarrow> bool" where
  "pipe_system_inv s \<longleftrightarrow> (case the_pipe s of None \<Rightarrow> True
     | Some p \<Rightarrow> pipe_inv p \<and> sent s = received s @ pipe_contents p)"

lemma close_end_inv:
  assumes "pipe_inv p" and "\<And>p. buffer (clear p) = buffer p" "\<And>p. head (clear p) = head p"
    "\<And>p. tail (clear p) = tail p" "\<And>p. count (clear p) = count p"
  shows "case close_end clear p of None \<Rightarrow> True | Some p' \<Rightarrow> pipe_inv p' \<and> pipe_contents p' = pipe_contents p"
  using assms by (simp add: close_end_def pipe_inv_def pipe_contents_def Let_def)

lemma pipe_step_inv:
  assumes "pipe_step s s'" and "pipe_system_inv s"
  shows "pipe_system_inv s'"
  using assms(1)
proof (cases rule: pipe_step.cases)
  case (reads p n i p' r)
  with assms(2) have p: "pipe_inv p" "sent s = received s @ pipe_contents p" by (auto simp: pipe_system_inv_def)
  from pipe_read_cases [OF p(1) reads(3)] p(2) reads(1) show ?thesis
    by (auto simp: pipe_system_inv_def bytes_read_def split: attempt.splits sum.splits)
next
  case (writes p src dn i p' r)
  with assms(2) have p: "pipe_inv p" "sent s = received s @ pipe_contents p" by (auto simp: pipe_system_inv_def)
  from pipe_write_cases [OF p(1) writes(3)] obtain taken rest where w: "src = taken @ rest"
    "pipe_inv p'" "pipe_contents p' = pipe_contents p @ taken" "write_outcome p p' dn i r taken rest" by blast
  from write_outcome_moved [OF w(4)] have "take (bytes_moved dn r) src = taken" by (simp add: w(1))
  with w(2,3) p(2) writes(1) show ?thesis by (simp add: pipe_system_inv_def)
next
  case (close_reader p)
  with assms(2) have p: "pipe_inv p" "sent s = received s @ pipe_contents p" by (auto simp: pipe_system_inv_def)
  from close_end_inv [OF p(1), of "\<lambda>p. p\<lparr>reader_open := False\<rparr>"] p(2) close_reader(1) show ?thesis
    by (simp add: pipe_system_inv_def pipe_close_reader_def split: option.splits)
next
  case (close_writer p)
  with assms(2) have p: "pipe_inv p" "sent s = received s @ pipe_contents p" by (auto simp: pipe_system_inv_def)
  from close_end_inv [OF p(1), of "\<lambda>p. p\<lparr>writer_open := False\<rparr>"] p(2) close_writer(1) show ?thesis
    by (simp add: pipe_system_inv_def pipe_close_writer_def split: option.splits)
qed

lemma pipe_create_inv: "pipe_create True = Some p \<Longrightarrow> pipe_inv p \<and> count p = 0"
  by (auto simp: pipe_create_def pipe_inv_def)

lemma pipe_reachable_inv: "pipe_reachable s \<Longrightarrow> pipe_system_inv s"
proof (induction rule: pipe_reachable.induct)
  case (created p)
  then have "pipe_inv p" "pipe_contents p = []" using pipe_create_inv [OF created] by simp_all
  then show ?case by (simp add: pipe_system_inv_def)
qed (rule pipe_step_inv)

text \<open>
  C7. A pipe is a reliable byte stream. However readers, writers and closing ends interleave, what has
  been read followed by what is buffered is exactly what has been written, in order, with nothing lost
  or repeated; at most 4096 bytes are ever buffered; and a read reports the end of the stream only
  when no writer is left and every byte has been read.
\<close>

theorem pipe_fifo:
  assumes "pipe_reachable s" and "the_pipe s = Some p"
  shows "sent s = received s @ pipe_contents p \<and> length (pipe_contents p) \<le> PIPE_BUFFER_SIZE
    \<and> (\<forall>n i p'. 0 < n \<and> pipe_read p n i = (p', Finished (Inr [])) \<longrightarrow> \<not> writer_open p \<and> received s = sent s)"
proof -
  have inv: "pipe_inv p" "sent s = received s @ pipe_contents p"
    using pipe_reachable_inv [OF assms(1)] assms(2) by (auto simp: pipe_system_inv_def)
  have "\<not> writer_open p \<and> received s = sent s" if "0 < n" "pipe_read p n i = (p', Finished (Inr []))" for n i p'
  proof -
    have "count p = 0"
    proof (rule ccontr)
      assume c: "count p \<noteq> 0"
      then have "snd (pipe_drain p n) = []" using that by (auto simp: pipe_read_def split_beta)
      then show False using pipe_queue.drain_progress [OF inv(1), of n] c that(1) by simp
    qed
    moreover have "\<not> writer_open p" using that calculation by (auto simp: pipe_read_def split: if_splits)
    ultimately show ?thesis using inv(2) by simp
  qed
  moreover have "length (pipe_contents p) \<le> PIPE_BUFFER_SIZE" using pipe_queue.bounded [OF inv(1)] .
  ultimately show ?thesis using inv(2) by blast
qed

lemma pipe_write_room:
  assumes "pipe_inv p" and "reader_open p" and "src \<noteq> []" and "count p < PIPE_BUFFER_SIZE"
  defines "room \<equiv> PIPE_BUFFER_SIZE - count p"
  shows "snd (pipe_write p src 0 False) = (if length src \<le> room then Finished (Inr (length src)) else Sleeps (drop room src, room))"
proof -
  obtain p' rest where f: "pipe_fill p src = (p', rest)" by (cases "pipe_fill p src")
  have fill: "pipe_inv p'" "pipe_contents p' = pipe_contents p @ take room src" "rest = drop room src" "reader_open p'"
    using pipe_queue.fill_correct [OF assms(1), of src] pipe_fill_frame(1) [of p src] assms(2) unfolding f room_def by auto
  have count: "count p' = count p + min room (length src)" using arg_cong [OF fill(2), of length] by simp
  have "pipe_write p src 0 False = pipe_write p' rest (length src - length rest) False"
    using pipe_write_unfold [OF assms(1,3,2), of 0 False] assms(4) f by simp
  also have "\<dots> = (p', if length src \<le> room then Finished (Inr (length src)) else Sleeps (rest, room))"
    using fill(3,4) count assms(4) by (subst pipe_write.simps) (auto simp: room_def pipe_write_result_def)
  finally show ?thesis using fill(3) by simp
qed


section \<open>Examples\<close>

definition pipe_example :: pipe where
  "pipe_example = the (pipe_create True)"

lemma pipe_example_created: "pipe_create True = Some pipe_example"
  by (simp add: pipe_example_def pipe_create_def)

theorem pipe_fifo_witness:
  "\<exists>s p. pipe_reachable s \<and> the_pipe s = Some p \<and> sent s = [7, 8] \<and> received s = [7] \<and> pipe_contents p = [8]"
proof -
  define s0 where "s0 = \<lparr>the_pipe = Some pipe_example, sent = [], received = []\<rparr>"
  have r0: "pipe_reachable s0" unfolding s0_def by (rule created) (rule pipe_example_created)
  define p1 where "p1 = fst (pipe_write pipe_example [7, 8] 0 False)"
  have ex: "count pipe_example = 0" "reader_open pipe_example" "head pipe_example = 0" "tail pipe_example = 0"
      "buffer pipe_example = replicate 4096 0" "writer_open pipe_example"
    by (simp_all add: pipe_example_def pipe_create_def)
  have w: "pipe_write pipe_example [7, 8] 0 False = (p1, Finished (Inr 2))"
    unfolding p1_def by (subst (1 2) pipe_write.simps) (simp add: ex pipe_put_def pipe_write.simps pipe_write_result_def)
  define s1 where "s1 = s0\<lparr>the_pipe := Some p1, sent := [7, 8]\<rparr>"
  have r1: "pipe_reachable s1"
    using step [OF r0 writes [of s0 pipe_example "[7, 8]" 0 False p1 "Finished (Inr 2)"]] w
    by (simp add: s0_def s1_def bytes_moved_def)
  have inv1: "pipe_inv p1" "[7, 8] = pipe_contents p1"
    using pipe_reachable_inv [OF r1] by (auto simp: pipe_system_inv_def s1_def s0_def)
  define p2 where "p2 = fst (pipe_drain p1 1)"
  have d: "pipe_drain p1 1 = (p2, [7])" "pipe_contents p2 = [8]"
    using pipe_queue.drain_correct [OF inv1(1), of 1] inv1(2) [symmetric] by (simp_all add: p2_def prod_eq_iff)
  have "count p1 = 2" using inv1(2) length_pipe_contents [of p1] by (metis length_Cons list.size(3) numeral_2_eq_2)
  then have "pipe_read p1 1 False = (p2, Finished (Inr [7]))" using d by (simp add: pipe_read_def)
  note read = this
  define s2 where "s2 = s1\<lparr>the_pipe := Some p2, received := [7]\<rparr>"
  have "pipe_reachable s2"
    using step [OF r1 reads [of s1 p1 1 False p2 "Finished (Inr [7])"]] read by (simp add: s2_def s1_def s0_def bytes_read_def)
  moreover have s2: "the_pipe s2 = Some p2" "sent s2 = [7, 8]" "received s2 = [7]" by (simp_all add: s2_def s1_def s0_def)
  moreover have "[7, 8] = [7] @ pipe_contents p2" using pipe_fifo [OF calculation(1) s2(1)] unfolding s2 by blast
  ultimately show ?thesis by auto
qed


end
