(* ===== verification/Klog.thy ===== *)
theory Klog
  imports Ring
begin

text \<open>
  The kernel message log, \<^verbatim>\<open>src/src/kernel/log/klog.c\<close>: a circular buffer that always holds the newest
  bytes. The lock makes each call one step. The position counter has 64 bits in the code and does not
  wrap in the life of a machine; it is a natural number here.
\<close>

section \<open>The code\<close>

abbreviation (input) "KLOG_SIZE \<equiv> 65536 :: nat"

record klog =
  ring :: "u8 list"
  total_written :: nat

definition klog_boot :: klog where
  "klog_boot = \<lparr>ring = replicate KLOG_SIZE 0, total_written = 0\<rparr>"

definition klog_putchar :: "klog \<Rightarrow> u8 \<Rightarrow> klog" where
  "klog_putchar k c = k\<lparr>ring := (ring k)[total_written k mod KLOG_SIZE := c], total_written := total_written k + 1\<rparr>"

text \<open>The message is a string: it ends at its first zero byte.\<close>

fun klog_write :: "klog \<Rightarrow> u8 list \<Rightarrow> klog" where
  "klog_write k [] = k"
| "klog_write k (c # msg) = (if c = 0 then k else klog_write (klog_putchar k c) msg)"

definition klog_length :: "klog \<Rightarrow> nat" where
  "klog_length k = (if total_written k < KLOG_SIZE then total_written k else KLOG_SIZE)"

function klog_read_loop :: "klog \<Rightarrow> nat \<Rightarrow> nat \<Rightarrow> nat \<Rightarrow> nat \<Rightarrow> nat \<Rightarrow> u8 list \<Rightarrow> u8 list" where
  "klog_read_loop k oldest held offset cnt n buf =
     (if n < cnt \<and> offset + n < held
      then klog_read_loop k oldest held offset cnt (n + 1) (buf @ [ring k ! ((oldest + offset + n) mod KLOG_SIZE)])
      else buf)"
  by auto
termination by (relation "measure (\<lambda>(k, oldest, held, offset, cnt, n, buf). cnt - n)") auto

definition klog_read :: "klog \<Rightarrow> nat \<Rightarrow> nat \<Rightarrow> u8 list" where
  "klog_read k offset cnt =
     (let held = klog_length k; oldest = total_written k - held in klog_read_loop k oldest held offset cnt 0 [])"

text \<open>What \<open>dmesg\<close> sends to the terminal, chunk by chunk. \<open>ks n\<close> is the log as the \<open>n\<close>-th read finds it.\<close>

function klog_print_loop :: "(nat \<Rightarrow> klog) \<Rightarrow> nat \<Rightarrow> nat \<Rightarrow> nat \<Rightarrow> u8 list \<Rightarrow> u8 list" where
  "klog_print_loop ks i offset limit out =
     (if offset < limit
      then let chunk = klog_read (ks i) offset 128 in
        if chunk \<noteq> []
        then let chunk = (if offset + length chunk > limit then take (limit - offset) chunk else chunk)
             in klog_print_loop ks (i + 1) (offset + length chunk) limit (out @ chunk)
        else out
      else out)"
  by auto
termination by (relation "measure (\<lambda>(ks, i, offset, limit, out). limit - offset)") (auto intro!: diff_less_mono2)

definition klog_print_dmesg :: "(nat \<Rightarrow> klog) \<Rightarrow> u8 list" where
  "klog_print_dmesg ks = klog_print_loop ks 1 0 (klog_length (ks 0)) []"

declare klog_read_loop.simps [simp del] klog_print_loop.simps [simp del]

section \<open>The newest bytes\<close>

text \<open>The log after the bytes \<open>hist\<close> were appended to it, one after the other, since boot.\<close>

definition klog_after :: "u8 list \<Rightarrow> klog" where
  "klog_after hist = foldl klog_putchar klog_boot hist"

definition newest :: "nat \<Rightarrow> 'a list \<Rightarrow> 'a list" where
  "newest n xs = drop (length xs - n) xs"

lemma klog_after_snoc: "klog_after (hist @ [c]) = klog_putchar (klog_after hist) c"
  by (simp add: klog_after_def)

lemma klog_after_fields: "total_written (klog_after hist) = length hist \<and> length (ring (klog_after hist)) = KLOG_SIZE"
  by (induction hist rule: rev_induct) (simp_all add: klog_after_def klog_putchar_def klog_boot_def)

lemma klog_holds:
  "i < length hist \<Longrightarrow> length hist \<le> i + KLOG_SIZE \<Longrightarrow> ring (klog_after hist) ! (i mod KLOG_SIZE) = hist ! i"
proof (induction hist rule: rev_induct)
  case (snoc c hist)
  have f: "total_written (klog_after hist) = length hist" "length (ring (klog_after hist)) = KLOG_SIZE"
    using klog_after_fields by auto
  show ?case
  proof (cases "i = length hist")
    case True
    then show ?thesis using f by (simp add: klog_after_snoc klog_putchar_def)
  next
    case False
    then have i: "i < length hist" "length hist < i + KLOG_SIZE" using snoc.prems by auto
    have "length hist mod KLOG_SIZE \<noteq> i mod KLOG_SIZE"
    proof
      assume "length hist mod KLOG_SIZE = i mod KLOG_SIZE"
      then have "KLOG_SIZE dvd length hist - i" using i(1) by (intro mod_eq_dvd_iff_nat [THEN iffD1]) auto
      then show False using i by (auto dest!: dvd_imp_le)
    qed
    then show ?thesis using snoc.IH i f by (simp add: klog_after_snoc klog_putchar_def nth_append)
  qed
qed simp

lemma length_newest [simp]: "length (newest n xs) = min (length xs) n"
  by (simp add: newest_def)

lemma klog_length_after: "klog_length (klog_after hist) = length (newest KLOG_SIZE hist)"
  using klog_after_fields [of hist] by (simp add: klog_length_def)

lemma klog_read_loop_correct:
  fixes hist :: "u8 list"
  assumes "n \<le> cnt"
  defines "held \<equiv> klog_length (klog_after hist)"
  shows "klog_read_loop (klog_after hist) (length hist - held) held offset cnt n buf
    = buf @ take (cnt - n) (drop (offset + n) (newest KLOG_SIZE hist))"
  using assms(1)
proof (induction "cnt - n" arbitrary: n buf)
  case 0
  then show ?case by (simp add: klog_read_loop.simps)
next
  case (Suc m)
  have held: "held = min (length hist) KLOG_SIZE" by (simp add: held_def klog_length_after)
  show ?case
  proof (cases "offset + n < held")
    case True
    define j where "j = length hist - held + (offset + n)"
    have j: "j < length hist" "length hist \<le> j + KLOG_SIZE" using True held by (auto simp: j_def)
    have new: "newest KLOG_SIZE hist ! (offset + n) = hist ! j"
      using True held by (simp add: newest_def j_def min_def split: if_splits)
    have "ring (klog_after hist) ! ((length hist - held + offset + n) mod KLOG_SIZE) = newest KLOG_SIZE hist ! (offset + n)"
      using klog_holds [OF j] by (simp add: new j_def add.assoc)
    moreover have "drop (offset + n) (newest KLOG_SIZE hist)
        = newest KLOG_SIZE hist ! (offset + n) # drop (offset + (n + 1)) (newest KLOG_SIZE hist)"
      using True held by (simp add: Cons_nth_drop_Suc)
    moreover have "cnt - n = Suc (cnt - (n + 1))" "m = cnt - (n + 1)" "n + 1 \<le> cnt" "n < cnt" using Suc.hyps(2) by auto
    ultimately show ?thesis using Suc.hyps(1) [of "n + 1"] True
      by (subst klog_read_loop.simps) simp
  next
    case False
    then have "length (newest KLOG_SIZE hist) \<le> offset + n" using held by (simp only: length_newest not_less)
    then show ?thesis using False by (subst klog_read_loop.simps) (simp del: length_newest)
  qed
qed

lemma klog_read_after: "klog_read (klog_after hist) offset cnt = take cnt (drop offset (newest KLOG_SIZE hist))"
  using klog_read_loop_correct [of 0 cnt hist offset "[]"] klog_after_fields [of hist]
  by (simp add: klog_read_def Let_def)

lemma klog_print_loop_correct:
  assumes "\<And>i. ks i = klog_after hist" and "offset \<le> length (newest KLOG_SIZE hist)"
  shows "klog_print_loop ks i offset (length (newest KLOG_SIZE hist)) out = out @ drop offset (newest KLOG_SIZE hist)"
  using assms(2)
proof (induction "length (newest KLOG_SIZE hist) - offset" arbitrary: i offset out rule: less_induct)
  case less
  let ?new = "newest KLOG_SIZE hist"
  show ?case
  proof (cases "offset < length ?new")
    case True
    define chunk where "chunk = take 128 (drop offset ?new)"
    have read: "klog_read (ks i) offset 128 = chunk" by (simp add: assms(1) klog_read_after chunk_def)
    have chunk: "chunk \<noteq> []" "offset + length chunk \<le> length ?new" using True unfolding chunk_def by auto
    have "take 128 ys @ drop (length (take 128 ys)) ys = ys" for ys :: "u8 list" by (simp add: min_def)
    from this [of "drop offset ?new"] have all: "chunk @ drop (offset + length chunk) ?new = drop offset ?new"
      unfolding drop_drop chunk_def [symmetric] add.commute [of offset] .
    have "klog_print_loop ks i offset (length ?new) out
        = klog_print_loop ks (i + 1) (offset + length chunk) (length ?new) (out @ chunk)"
      using True chunk by (subst klog_print_loop.simps) (simp add: read Let_def del: length_newest)
    also have "\<dots> = (out @ chunk) @ drop (offset + length chunk) ?new"
    proof (rule less.hyps)
      have "0 < length chunk" using chunk(1) by simp
      then show "length ?new - (offset + length chunk) < length ?new - offset" using True by linarith
    qed (rule chunk)
    finally show ?thesis using all by simp
  next
    case False
    then show ?thesis by (subst klog_print_loop.simps) (simp del: length_newest)
  qed
qed

text \<open>
  C32. The log always holds the newest 65536 bytes written to it, in order, however many were written
  before: reading any window of it gives that part of them, and \<open>dmesg\<close> prints all of them.
\<close>

theorem klog_newest:
  "klog_read (klog_after hist) offset cnt = take cnt (drop offset (newest KLOG_SIZE hist))
   \<and> klog_print_dmesg (\<lambda>_. klog_after hist) = newest KLOG_SIZE hist"
  using klog_print_loop_correct [of "\<lambda>_. klog_after hist" hist 0 1 "[]"] klog_read_after
  by (simp add: klog_print_dmesg_def klog_length_after del: length_newest)

end
