(* ===== verification/Tty.thy ===== *)
theory Tty
  imports Prelude
begin

text \<open>
  The terminal's line discipline, \<^verbatim>\<open>src/src/drivers/tty/tty.c\<close>. The keyboard is a parameter: the keys
  \<open>keyboard_getchar\<close> would return, in order, with 0 for a wait that a signal interrupted; running out of
  keys is going to sleep. What is echoed is part of the result. The lock makes \<open>tty_input\<close> and the final
  copy one step each.
\<close>

section \<open>The code\<close>

abbreviation (input) "TTY_LINE_MAX \<equiv> 256 :: nat"
abbreviation (input) "CTRL_D \<equiv> 0x04 :: u8"
abbreviation (input) "CTRL_U \<equiv> 0x15 :: u8"
abbreviation (input) "DEL \<equiv> 0x7F :: u8"
abbreviation (input) "ESC \<equiv> 0x1B :: u8"

record tty =
  line :: "u8 list"
  line_len :: nat
  line_pos :: nat
  line_ready :: bool
  raw_mode :: bool
  raw_owner :: u32
  input_escape :: nat

definition tty_init :: "tty \<Rightarrow> tty" where
  "tty_init t = t\<lparr>line_len := 0, line_pos := 0, line_ready := False, raw_mode := False, input_escape := 0\<rparr>"

text \<open>Step back, overwrite with a space, step back.\<close>

abbreviation (input) "erase_echo \<equiv> [8, 32, 8] :: u8 list"

fun erase_all :: "tty \<Rightarrow> nat \<Rightarrow> u8 list \<Rightarrow> tty \<times> u8 list" where
  "erase_all t 0 out = (t, out)"
| "erase_all t (Suc n) out = erase_all (t\<lparr>line_len := line_len t - 1\<rparr>) n (out @ erase_echo)"

definition tty_input :: "tty \<Rightarrow> u8 \<Rightarrow> tty \<times> u8 list \<times> bool" where
  "tty_input t c =
     (let (t, echo) =
        (if line_ready t then (t, [])
         else if input_escape t = 1 then (t\<lparr>input_escape := (if c = 91 then 2 else 0)\<rparr>, [])
         else if input_escape t = 2 then (if c \<ge> 0x40 \<and> c \<le> 0x7E then t\<lparr>input_escape := 0\<rparr> else t, [])
         else if c = ESC then (t\<lparr>input_escape := 1\<rparr>, [])
         else if c = 10 \<or> c = 13
           then (t\<lparr>line := (line t)[line_len t := 10], line_len := line_len t + 1, line_ready := True\<rparr>, [10])
         else if c = CTRL_D then (t\<lparr>line_ready := True\<rparr>, [])
         else if c = 8 \<or> c = DEL
           then (if line_len t > 0 then (t\<lparr>line_len := line_len t - 1\<rparr>, erase_echo) else (t, []))
         else if c = CTRL_U then erase_all t (line_len t) []
         else if c < 0x20 \<and> c \<noteq> 9 then (t, [])
         else if line_len t < TTY_LINE_MAX - 1
           then (t\<lparr>line := (line t)[line_len t := c], line_len := line_len t + 1\<rparr>, [c])
         else (t, []))
      in (t, echo, line_ready t))"

definition tty_set_raw :: "tty \<Rightarrow> bool \<Rightarrow> u32 \<Rightarrow> tty" where
  "tty_set_raw t raw owner_pid =
     (let t = t\<lparr>raw_mode := raw, raw_owner := (if raw then owner_pid else 0)\<rparr>
      in if raw then t\<lparr>line_len := 0, line_pos := 0, line_ready := False, input_escape := 0\<rparr> else t)"

definition tty_process_exited :: "tty \<Rightarrow> u32 \<Rightarrow> tty" where
  "tty_process_exited t pid = (if raw_mode t \<and> raw_owner t = pid then tty_set_raw t False 0 else t)"

text \<open>\<open>tty_poll\<close> puts the keys already typed through the discipline; \<open>keys\<close> are those waiting now.\<close>

fun tty_poll_line :: "tty \<Rightarrow> u8 list \<Rightarrow> u8 list \<Rightarrow> tty \<times> u8 list \<times> u8 list \<times> bool" where
  "tty_poll_line t [] out = (t, out, [], line_ready t)"
| "tty_poll_line t (c # keys) out =
     (if line_ready t then (t, out, c # keys, True)
      else if c = 0 then (t, out, keys, False)
      else let (t, echo, _) = tty_input t c in tty_poll_line t keys (out @ echo))"

text \<open>Whether the terminal polls readable (it always polls writable).\<close>

definition tty_poll :: "tty \<Rightarrow> u8 list \<Rightarrow> tty \<times> u8 list \<times> u8 list \<times> bool" where
  "tty_poll t keys = (if raw_mode t then (t, [], keys, keys \<noteq> []) else tty_poll_line t keys [])"

text \<open>Raw mode: one key, then whatever else has already arrived. \<^const>\<open>None\<close> is going to sleep.\<close>

fun read_raw_more :: "u8 list \<Rightarrow> nat \<Rightarrow> u8 list \<Rightarrow> u8 list \<times> u8 list" where
  "read_raw_more [] room out = (out, [])"
| "read_raw_more (c # keys) room out =
     (if room = 0 then (out, c # keys) else if c = 0 then (out, keys) else read_raw_more keys (room - 1) (out @ [c]))"

definition read_raw :: "u8 list \<Rightarrow> nat \<Rightarrow> ((errno + u8 list) \<times> u8 list) option" where
  "read_raw keys count =
     (case keys of [] \<Rightarrow> None
      | c # keys \<Rightarrow> if c = 0 then Some (Inl EINTR, keys)
          else let (out, keys) = read_raw_more keys (count - 1) [c] in Some (Inr out, keys))"

text \<open>Waiting for a whole line.\<close>

fun tty_collect :: "tty \<Rightarrow> u8 list \<Rightarrow> u8 list \<Rightarrow> tty \<times> u8 list \<times> u8 list \<times> (errno + unit) option" where
  "tty_collect t keys out =
     (if line_ready t then (t, out, keys, Some (Inr ()))
      else case keys of [] \<Rightarrow> (t, out, [], None)
        | c # keys' \<Rightarrow> if c = 0 then (t, out, keys', Some (Inl EINTR))
            else let (t, echo, _) = tty_input t c in tty_collect t keys' (out @ echo))"

text \<open>Handing over up to \<open>count\<close> bytes of it; a line used up makes room for the next.\<close>

fun copy_line :: "tty \<Rightarrow> nat \<Rightarrow> u8 list \<Rightarrow> tty \<times> u8 list" where
  "copy_line t 0 out = (t, out)"
| "copy_line t (Suc n) out =
     (if line_pos t < line_len t then copy_line (t\<lparr>line_pos := line_pos t + 1\<rparr>) n (out @ [line t ! line_pos t]) else (t, out))"

definition tty_take_line :: "tty \<Rightarrow> nat \<Rightarrow> tty \<times> u8 list" where
  "tty_take_line t count =
     (let (t, out) = copy_line t count []
      in (if line_pos t = line_len t then t\<lparr>line_len := 0, line_pos := 0, line_ready := False\<rparr> else t, out))"

definition tty_read :: "tty \<Rightarrow> u8 list \<Rightarrow> nat \<Rightarrow> tty \<times> u8 list \<times> u8 list \<times> (errno + u8 list) option" where
  "tty_read t keys count =
     (if count = 0 then (t, [], keys, Some (Inr []))
      else if raw_mode t
        then (case read_raw keys count of None \<Rightarrow> (t, [], keys, None) | Some (r, keys) \<Rightarrow> (t, [], keys, Some r))
      else (case tty_collect t keys [] of
          (t, echo, keys, Some (Inr _)) \<Rightarrow> let (t, out) = tty_take_line t count in (t, echo, keys, Some (Inr out))
        | (t, echo, keys, Some (Inl e)) \<Rightarrow> (t, echo, keys, Some (Inl e))
        | (t, echo, keys, None) \<Rightarrow> (t, echo, keys, None)))"

declare tty_collect.simps [simp del]

section \<open>Line editing\<close>

text \<open>
  What the user means by the keys: escape sequences (cursor keys) are not text, and the editing keys
  act on the line typed so far. Both are described on the whole sequence of keys.
\<close>

fun drop_sequence :: "u8 list \<Rightarrow> u8 list" where
  "drop_sequence [] = []"
| "drop_sequence (c # cs) = (if c \<ge> 0x40 \<and> c \<le> 0x7E then cs else drop_sequence cs)"

lemma length_drop_sequence: "length (drop_sequence cs) \<le> length cs"
  by (induction cs) auto

function strip_escapes :: "u8 list \<Rightarrow> u8 list" where
  "strip_escapes [] = []"
| "strip_escapes (c # cs) =
     (if c = ESC then (case cs of [] \<Rightarrow> [] | d # ds \<Rightarrow> if d = 91 then strip_escapes (drop_sequence ds) else strip_escapes ds)
      else c # strip_escapes cs)"
  by pat_completeness auto
termination
  by (relation "measure length") (auto intro: le_imp_less_Suc le_SucI length_drop_sequence)

definition edit_key :: "u8 list \<Rightarrow> u8 \<Rightarrow> u8 list" where
  "edit_key l c =
     (if c = 8 \<or> c = DEL then butlast l else if c = CTRL_U then []
      else if c < 0x20 \<and> c \<noteq> 9 then l else if length l < 255 then l @ [c] else l)"

section \<open>The line collected\<close>

definition line_text :: "tty \<Rightarrow> u8 list" where
  "line_text t = take (line_len t) (line t)"

text \<open>There is always room for the newline: 255 characters at most before it.\<close>

definition tty_inv :: "tty \<Rightarrow> bool" where
  "tty_inv t \<longleftrightarrow> length (line t) = TTY_LINE_MAX \<and> input_escape t \<le> 2 \<and> line_pos t \<le> line_len t
     \<and> (if line_ready t then line_len t \<le> 256 else line_len t \<le> 255 \<and> line_pos t = 0)"

lemma erase_all_eq: "erase_all t n out = (t\<lparr>line_len := line_len t - n\<rparr>, out @ concat (replicate n erase_echo))"
  by (induction n arbitrary: t out) simp_all

lemma tty_input_inv:
  assumes "tty_inv t"
  shows "tty_inv (fst (tty_input t c))"
  using assms by (auto simp: tty_inv_def tty_input_def erase_all_eq Let_def)

lemma tty_set_raw_inv: "tty_inv t \<Longrightarrow> tty_inv (tty_set_raw t raw pid)"
  by (auto simp: tty_inv_def tty_set_raw_def Let_def)

lemma copy_line_eq:
  "line_pos t \<le> line_len t \<Longrightarrow> line_len t \<le> length (line t) \<Longrightarrow>
   copy_line t n out = (t\<lparr>line_pos := min (line_pos t + n) (line_len t)\<rparr>, out @ take n (drop (line_pos t) (line_text t)))"
proof (induction n arbitrary: t out)
  case (Suc n)
  show ?case
  proof (cases "line_pos t < line_len t")
    case True
    have "drop (line_pos t) (line_text t) = line t ! line_pos t # drop (Suc (line_pos t)) (line_text t)"
      using True Suc.prems by (subst Cons_nth_drop_Suc [symmetric]) (simp_all add: line_text_def)
    then show ?thesis using True Suc.IH [of "t\<lparr>line_pos := line_pos t + 1\<rparr>"] Suc.prems by (simp add: line_text_def)
  next
    case False
    then show ?thesis using Suc.prems by (simp add: line_text_def min_def)
  qed
qed (simp add: min_def)

lemma tty_take_line_correct:
  assumes "tty_inv t" and "line_ready t" and "tty_take_line t count = (t', out)"
  shows "tty_inv t' \<and> out = take count (drop (line_pos t) (line_text t))
    \<and> (if line_len t \<le> line_pos t + count then \<not> line_ready t' \<and> line_len t' = 0
       else line_ready t' \<and> line_text t' = line_text t \<and> line_pos t' = line_pos t + count)"
  using assms copy_line_eq [of t count "[]"]
  by (auto simp: tty_take_line_def tty_inv_def line_text_def Let_def min_def split: if_splits)

text \<open>What is left of the keys as text when an escape sequence has already begun.\<close>

definition strip_from :: "nat \<Rightarrow> u8 list \<Rightarrow> u8 list" where
  "strip_from e cs = (if e = 1 then (case cs of [] \<Rightarrow> [] | d # ds \<Rightarrow> if d = 91 then strip_escapes (drop_sequence ds) else strip_escapes ds)
     else if e = 2 then strip_escapes (drop_sequence cs) else strip_escapes cs)"

definition finishes_line :: "u8 \<Rightarrow> bool" where
  "finishes_line c \<longleftrightarrow> c = 10 \<or> c = 13 \<or> c = CTRL_D"

lemma input_escape_step:
  assumes "\<not> line_ready t" and "input_escape t \<le> 2" and "input_escape t \<noteq> 0 \<or> c = ESC"
  defines "t' \<equiv> fst (tty_input t c)"
  shows "t' = t\<lparr>input_escape := input_escape t'\<rparr>" and "input_escape t' \<le> 2"
    and "strip_from (input_escape t) (c # cs) = strip_from (input_escape t') cs"
proof -
  consider "input_escape t = 0" "c = ESC" | "input_escape t = 1" | "input_escape t = 2" using assms(2,3) by fastforce
  then have "t' = t\<lparr>input_escape := input_escape t'\<rparr> \<and> input_escape t' \<le> 2
      \<and> strip_from (input_escape t) (c # cs) = strip_from (input_escape t') cs"
    by cases (auto simp: t'_def tty_input_def assms(1) strip_from_def Let_def)
  then show "t' = t\<lparr>input_escape := input_escape t'\<rparr>" "input_escape t' \<le> 2"
    "strip_from (input_escape t) (c # cs) = strip_from (input_escape t') cs" by blast+
qed

lemma input_text_step:
  assumes "tty_inv t" and "\<not> line_ready t" and "input_escape t = 0" and "c \<noteq> ESC" and "\<not> finishes_line c"
  defines "t' \<equiv> fst (tty_input t c)"
  shows "line_text t' = edit_key (line_text t) c" and "\<not> line_ready t'" and "input_escape t' = 0" and "line_pos t' = line_pos t"
proof -
  have len: "line_len t \<le> 255" "length (line t) = 256" using assms(1,2) by (auto simp: tty_inv_def)
  have "butlast (line_text t) = take (line_len t - 1) (line t)" using len by (simp add: line_text_def butlast_take)
  moreover have "take (line_len t + 1) ((line t)[line_len t := c]) = line_text t @ [c]"
    using len by (simp add: line_text_def take_Suc_conv_app_nth)
  ultimately show "line_text t' = edit_key (line_text t) c"
    using assms(2-5) len unfolding t'_def tty_input_def edit_key_def finishes_line_def
    by (auto simp: line_text_def erase_all_eq Let_def)
  show "\<not> line_ready t'" "input_escape t' = 0" "line_pos t' = line_pos t"
    using assms(2-5) unfolding t'_def tty_input_def finishes_line_def by (auto simp: erase_all_eq Let_def)
qed

lemma input_newline:
  assumes "tty_inv t" and "\<not> line_ready t" and "input_escape t = 0" and "c = 10 \<or> c = 13"
  defines "t' \<equiv> fst (tty_input t c)"
  shows "line_ready t'" and "line_text t' = line_text t @ [10]" and "line_pos t' = line_pos t"
proof -
  have len: "line_len t \<le> 255" "length (line t) = 256" using assms(1,2) by (auto simp: tty_inv_def)
  then have "take (line_len t + 1) ((line t)[line_len t := 10]) = line_text t @ [10]"
    by (simp add: line_text_def take_Suc_conv_app_nth)
  with assms(2-4) show "line_ready t'" "line_text t' = line_text t @ [10]" "line_pos t' = line_pos t"
    by (auto simp: t'_def tty_input_def line_text_def Let_def)
qed

lemma tty_collect_correct:
  assumes "tty_inv t" and "\<not> line_ready t" and "0 \<notin> set keys"
    and "strip_from (input_escape t) keys = body @ [nl]" and "nl = 10 \<or> nl = 13" and "\<forall>c \<in> set body. \<not> finishes_line c"
  shows "\<exists>t' echo rest. tty_collect t keys out = (t', echo, rest, Some (Inr ())) \<and> tty_inv t' \<and> line_ready t'
    \<and> line_text t' = foldl edit_key (line_text t) body @ [10] \<and> line_pos t' = line_pos t"
  using assms
proof (induction keys arbitrary: t body out)
  case Nil
  then show ?case by (auto simp: strip_from_def split: if_splits)
next
  case (Cons c keys)
  define t1 echo where "t1 = fst (tty_input t c)" and "echo = fst (snd (tty_input t c))"
  have inv1: "tty_inv t1" using tty_input_inv [OF Cons.prems(1)] by (simp add: t1_def)
  have step: "tty_collect t (c # keys) out = tty_collect t1 keys (out @ echo)"
    using Cons.prems(2,3) by (subst tty_collect.simps) (simp add: t1_def echo_def split_beta)
  have ks: "0 \<notin> set keys" using Cons.prems(3) by simp
  show ?case
  proof (cases "input_escape t \<noteq> 0 \<or> c = ESC")
    case True
    have e2: "input_escape t \<le> 2" using Cons.prems(1) by (simp add: tty_inv_def)
    note esc = input_escape_step [OF Cons.prems(2) e2 True, folded t1_def]
    have same: "\<not> line_ready t1" "line_text t1 = line_text t" "line_pos t1 = line_pos t"
      using Cons.prems(2) by (subst esc(1), simp add: line_text_def)+
    from Cons.IH [OF inv1 same(1) ks _ Cons.prems(5,6)] Cons.prems(4) esc(3) show ?thesis
      unfolding step same by simp
  next
    case False
    then have e0: "input_escape t = 0" "c \<noteq> ESC" by auto
    have strip: "c # strip_escapes keys = body @ [nl]" using Cons.prems(4) e0 by (simp add: strip_from_def)
    show ?thesis
    proof (cases body)
      case Nil
      then have "c = 10 \<or> c = 13" using strip Cons.prems(5) by simp
      note nl = input_newline [OF Cons.prems(1,2) e0(1) this, folded t1_def]
      have "tty_collect t1 keys (out @ echo) = (t1, out @ echo, keys, Some (Inr ()))"
        using nl(1) by (simp add: tty_collect.simps)
      then show ?thesis using nl inv1 Nil unfolding step by simp
    next
      case (Cons d body')
      then have c: "d = c" "strip_escapes keys = body' @ [nl]" using strip by auto
      then have "\<not> finishes_line c" "\<forall>c \<in> set body'. \<not> finishes_line c" using Cons Cons.prems(6) by auto
      note key = input_text_step [OF Cons.prems(1,2) e0 this(1), folded t1_def]
      have "strip_from (input_escape t1) keys = body' @ [nl]" using c(2) key(3) by (simp add: strip_from_def)
      from Cons.IH [OF inv1 key(2) ks this Cons.prems(5)] \<open>\<forall>c \<in> set body'. \<not> finishes_line c\<close> show ?thesis
        unfolding step by (simp add: key(1,4) Cons c(1))
    qed
  qed
qed

text \<open>
  C15. Reading a line gives the line the user edited. Take any keys whose text, once cursor-key
  sequences are taken out, is \<open>body\<close> followed by Enter, with no earlier Enter or Ctrl-D: a read on an
  idle terminal returns the first \<open>count\<close> bytes of \<open>body\<close> with backspaces and Ctrl-U applied, cut off
  at 255 characters, and a newline. The line buffer is never overrun.
\<close>

theorem tty_read_line:
  assumes "tty_inv t" and "\<not> raw_mode t" and "\<not> line_ready t" and "line_len t = 0" and "input_escape t = 0"
    and "0 < count" and "0 \<notin> set keys"
    and "strip_escapes keys = body @ [nl]" and "nl = 10 \<or> nl = 13" and "\<forall>c \<in> set body. \<not> finishes_line c"
  shows "\<exists>t' echo rest. tty_read t keys count = (t', echo, rest, Some (Inr (take count (foldl edit_key [] body @ [10])))) \<and> tty_inv t'"
proof -
  have "strip_from (input_escape t) keys = body @ [nl]" using assms(5,8) by (simp add: strip_from_def)
  from tty_collect_correct [OF assms(1,3,7) this assms(9,10), of "[]"] obtain t1 echo rest where
    c: "tty_collect t keys [] = (t1, echo, rest, Some (Inr ()))" "tty_inv t1" "line_ready t1"
       "line_text t1 = foldl edit_key (line_text t) body @ [10]" "line_pos t1 = line_pos t" by blast
  have pos: "line_pos t = 0" "line_text t = []" using assms(1,3,4) by (auto simp: tty_inv_def line_text_def)
  obtain t2 out where "tty_take_line t1 count = (t2, out)" by (cases "tty_take_line t1 count")
  with tty_take_line_correct [OF c(2,3) this] c pos assms(2,6) show ?thesis by (simp add: tty_read_def)
qed

section \<open>Example\<close>

definition tty_example :: tty where
  "tty_example = tty_init \<lparr>line = replicate 256 0, line_len = 0, line_pos = 0, line_ready = False, raw_mode = False,
     raw_owner = 0, input_escape = 0\<rparr>"

text \<open>``ax'', backspace, cursor up, ``b'', Enter reads as ``ab''.\<close>

theorem tty_read_line_witness:
  "\<exists>t' echo rest. tty_read tty_example [97, 120, 8, 27, 91, 65, 98, 13] 10 = (t', echo, rest, Some (Inr [97, 98, 10]))"
proof -
  have t: "tty_inv tty_example" "\<not> raw_mode tty_example" "\<not> line_ready tty_example" "line_len tty_example = 0" "input_escape tty_example = 0"
    by (simp_all add: tty_example_def tty_init_def tty_inv_def)
  have "strip_escapes [97, 120, 8, 27, 91, 65, 98, 13] = [97, 120, 8, 98] @ [13]" by simp
  from tty_read_line [OF t, of 10 _ "[97, 120, 8, 98]" 13, OF _ _ this] show ?thesis
    by (auto simp: finishes_line_def edit_key_def)
qed

end
