(* ===== verification/Keyboard.thy ===== *)
theory Keyboard
  imports Ring
begin

text \<open>
  The keyboard driver, \<^verbatim>\<open>src/src/drivers/input/keyboard.c\<close>: the scancode decoder, the ring buffer of
  typed characters and the calls that take them out. What the controller's status and data ports show,
  whether the terminal is in raw mode and whether a foreground job took a signal are arguments; what
  the driver does to processes is recorded as effects. The second serial source of input is a
  parameter too: the character it would give, or none.
\<close>

unbundle bit_operations_syntax

section \<open>The code\<close>

abbreviation (input) "KEYBOARD_BUFFER_SIZE \<equiv> 256 :: nat"
abbreviation (input) "CTRL_C \<equiv> 0x03 :: u8"
abbreviation (input) "CTRL_Z \<equiv> 0x1A :: u8"

record kbd =
  kbd_buffer :: "u8 list"
  kbd_head :: nat
  kbd_tail :: nat
  shift_pressed :: bool
  ctrl_pressed :: bool
  extended :: bool

definition kbd_boot :: kbd where
  "kbd_boot = \<lparr>kbd_buffer = replicate KEYBOARD_BUFFER_SIZE 0, kbd_head = 0, kbd_tail = 0,
     shift_pressed = False, ctrl_pressed = False, extended = False\<rparr>"

datatype kbd_effect = Interrupt_all | Stop_foreground

text \<open>\<open>raw\<close>: the terminal is in raw mode; \<open>fg\<close>: there is a foreground job to stop.\<close>

record kbd_env =
  raw :: bool
  fg :: bool

definition kbd_store :: "u8 \<Rightarrow> kbd \<Rightarrow> kbd" where
  "kbd_store c k =
     (let next_head = (kbd_head k + 1) mod KEYBOARD_BUFFER_SIZE
      in if next_head \<noteq> kbd_tail k
         then k\<lparr>kbd_buffer := (kbd_buffer k)[kbd_head k := c], kbd_head := next_head\<rparr> else k)"

definition kbd_buffer_push :: "kbd_env \<Rightarrow> kbd \<Rightarrow> u8 \<Rightarrow> kbd \<times> kbd_effect list" where
  "kbd_buffer_push e k c =
     (if c = CTRL_C then (k, [Interrupt_all])
      else if c = CTRL_Z \<and> \<not> raw e \<and> fg e then (k, [Stop_foreground])
      else (kbd_store c k, []))"

fun kbd_push_all :: "kbd_env \<Rightarrow> kbd \<Rightarrow> u8 list \<Rightarrow> kbd \<times> kbd_effect list" where
  "kbd_push_all e k [] = (k, [])"
| "kbd_push_all e k (c # cs) =
     (let (k, fx) = kbd_buffer_push e k c; (k, fx') = kbd_push_all e k cs in (k, fx @ fx'))"

definition scancode_ascii :: "u8 list" where
  "scancode_ascii = [
     0, 27, 49, 50, 51, 52, 53, 54, 55, 56, 57, 48, 45, 61, 8, 9,
     113, 119, 101, 114, 116, 121, 117, 105, 111, 112, 91, 93, 10, 0, 97, 115,
     100, 102, 103, 104, 106, 107, 108, 59, 39, 96, 0, 92, 122, 120, 99, 118,
     98, 110, 109, 44, 46, 47, 0, 42, 0, 32, 0, 0, 0, 0, 0, 0,
     0, 0, 0, 0, 0, 0, 0, 55, 56, 57, 45, 52, 53, 54, 43, 49,
     50, 51, 48, 46] @ replicate 44 0"

definition scancode_ascii_shift :: "u8 list" where
  "scancode_ascii_shift = [
     0, 27, 33, 64, 35, 36, 37, 94, 38, 42, 40, 41, 95, 43, 8, 9,
     81, 87, 69, 82, 84, 89, 85, 73, 79, 80, 123, 125, 10, 0, 65, 83,
     68, 70, 71, 72, 74, 75, 76, 58, 34, 126, 0, 124, 90, 88, 67, 86,
     66, 78, 77, 60, 62, 63, 0, 42, 0, 32, 0, 0, 0, 0, 0, 0,
     0, 0, 0, 0, 0, 0, 0, 55, 56, 57, 45, 52, 53, 54, 43, 49,
     50, 51, 48, 46] @ replicate 44 0"

text \<open>What an extended key sends: ESC [ and a letter, as a serial terminal does.\<close>

definition extended_sequence :: "u8 \<Rightarrow> u8 list" where
  "extended_sequence scancode =
     (if scancode = 0x48 then [27, 91, 65] else if scancode = 0x50 then [27, 91, 66]
      else if scancode = 0x4D then [27, 91, 67] else if scancode = 0x4B then [27, 91, 68]
      else if scancode = 0x47 then [27, 91, 72] else if scancode = 0x4F then [27, 91, 70]
      else if scancode = 0x53 then [27, 91, 51, 126] else [])"

definition keyboard_handle_port :: "kbd_env \<Rightarrow> u8 \<Rightarrow> u8 \<Rightarrow> kbd \<Rightarrow> kbd \<times> kbd_effect list" where
  "keyboard_handle_port e status scancode k =
     (if status AND 0x01 = 0 then (k, [])
      else if status AND 0x20 \<noteq> 0 then (k, [])
      else if scancode = 0x2A \<or> scancode = 0x36 then (k\<lparr>shift_pressed := True\<rparr>, [])
      else if scancode = 0xAA \<or> scancode = 0xB6 then (k\<lparr>shift_pressed := False\<rparr>, [])
      else if scancode = 0xE0 then (k\<lparr>extended := True\<rparr>, [])
      else if extended k
        then let k = k\<lparr>extended := False\<rparr>;
                 k = (if scancode = 0x1D then k\<lparr>ctrl_pressed := True\<rparr>
                      else if scancode = 0x9D then k\<lparr>ctrl_pressed := False\<rparr> else k)
             in kbd_push_all e k (extended_sequence scancode)
      else if scancode = 0x1D then (k\<lparr>ctrl_pressed := True\<rparr>, [])
      else if scancode = 0x9D then (k\<lparr>ctrl_pressed := False\<rparr>, [])
      else if scancode AND 0x80 \<noteq> 0 then (k, [])
      else let c = (if shift_pressed k then scancode_ascii_shift else scancode_ascii) ! unat scancode
           in if c = 0 then (k, [])
              else let c = (if ctrl_pressed k \<and> (97 \<le> c \<and> c \<le> 122 \<or> 65 \<le> c \<and> c \<le> 90) then c AND 0x1F else c)
                   in kbd_buffer_push e k c)"

definition kbd_buffer_pop :: "kbd_env \<Rightarrow> u8 \<Rightarrow> u8 \<Rightarrow> kbd \<Rightarrow> kbd \<times> kbd_effect list \<times> u8" where
  "kbd_buffer_pop e status scancode k =
     (let (k, fx) = keyboard_handle_port e status scancode k
      in if kbd_head k \<noteq> kbd_tail k
         then (k\<lparr>kbd_tail := (kbd_tail k + 1) mod KEYBOARD_BUFFER_SIZE\<rparr>, fx, kbd_buffer k ! kbd_tail k)
         else (k, fx, 0))"

text \<open>\<open>serial\<close> is the character the serial line has waiting, if any.\<close>

definition keyboard_try_getchar :: "kbd_env \<Rightarrow> u8 \<Rightarrow> u8 \<Rightarrow> u8 option \<Rightarrow> kbd \<Rightarrow> kbd \<times> kbd_effect list \<times> u8" where
  "keyboard_try_getchar e status scancode serial k =
     (let (k, fx, c) = kbd_buffer_pop e status scancode k
      in (k, fx, if c = 0 then (case serial of Some s \<Rightarrow> s | None \<Rightarrow> c) else c))"

definition keyboard_has_char :: "kbd_env \<Rightarrow> u8 \<Rightarrow> u8 \<Rightarrow> u8 option \<Rightarrow> kbd \<Rightarrow> kbd \<times> kbd_effect list \<times> bool" where
  "keyboard_has_char e status scancode serial k =
     (let (k, fx) = keyboard_handle_port e status scancode k
      in (k, fx, kbd_head k \<noteq> kbd_tail k \<or> serial \<noteq> None))"

text \<open>One turn of the loop of \<open>keyboard_getchar\<close>; \<^const>\<open>None\<close> is going to sleep.\<close>

definition keyboard_getchar :: "kbd_env \<Rightarrow> u8 \<Rightarrow> u8 \<Rightarrow> u8 option \<Rightarrow> bool \<Rightarrow> kbd \<Rightarrow> kbd \<times> kbd_effect list \<times> u8 option" where
  "keyboard_getchar e status scancode serial interrupted k =
     (let (k, fx, c) = kbd_buffer_pop e status scancode k
      in if c \<noteq> 0 then (k, fx, Some c)
         else (case serial of
             Some s \<Rightarrow> if s \<noteq> 0 then (k, fx, Some s) else (k, fx, if interrupted then Some 0 else None)
           | None \<Rightarrow> (k, fx, if interrupted then Some 0 else None)))"

section \<open>The ring buffer is a queue\<close>

text \<open>One place stays free, so that a full buffer is not mistaken for an empty one.\<close>

definition kbd_count :: "kbd \<Rightarrow> nat" where
  "kbd_count k = (kbd_head k + KEYBOARD_BUFFER_SIZE - kbd_tail k) mod KEYBOARD_BUFFER_SIZE"

definition kbd_inv :: "kbd \<Rightarrow> bool" where
  "kbd_inv k \<longleftrightarrow> length (kbd_buffer k) = KEYBOARD_BUFFER_SIZE \<and> kbd_head k < KEYBOARD_BUFFER_SIZE \<and> kbd_tail k < KEYBOARD_BUFFER_SIZE"

definition kbd_contents :: "kbd \<Rightarrow> u8 list" where
  "kbd_contents k = ring_list (kbd_buffer k) (kbd_tail k) (kbd_count k)"

definition kbd_take :: "kbd \<Rightarrow> kbd" where
  "kbd_take k = k\<lparr>kbd_tail := (kbd_tail k + 1) mod KEYBOARD_BUFFER_SIZE\<rparr>"

definition kbd_next :: "kbd \<Rightarrow> u8" where
  "kbd_next k = kbd_buffer k ! kbd_tail k"

lemma mod_256: "x < 512 \<Longrightarrow> x mod 256 = (if x < 256 then x else x - 256)" for x :: nat
  using mod_less_twice [of x 256] by simp

lemma kbd_count_head:
  assumes "kbd_inv k"
  shows "kbd_head k = (kbd_tail k + kbd_count k) mod KEYBOARD_BUFFER_SIZE" "kbd_count k < KEYBOARD_BUFFER_SIZE"
    "kbd_count k = 0 \<longleftrightarrow> kbd_head k = kbd_tail k"
    "(kbd_head k + 1) mod KEYBOARD_BUFFER_SIZE = kbd_tail k \<longleftrightarrow> kbd_count k = 255"
proof -
  have b: "kbd_head k < 256" "kbd_tail k < 256" using assms by (auto simp: kbd_inv_def)
  have c: "kbd_count k = (if kbd_tail k \<le> kbd_head k then kbd_head k - kbd_tail k else kbd_head k + 256 - kbd_tail k)"
    using b unfolding kbd_count_def by (subst mod_256) auto
  then have n: "kbd_count k < 256" using b by auto
  then show "kbd_count k < 256" .
  show "kbd_count k = 0 \<longleftrightarrow> kbd_head k = kbd_tail k" using b c by auto
  have "(kbd_tail k + kbd_count k) mod 256 = (if kbd_tail k + kbd_count k < 256 then kbd_tail k + kbd_count k else kbd_tail k + kbd_count k - 256)"
    using b n by (intro mod_256) simp
  then show "kbd_head k = (kbd_tail k + kbd_count k) mod 256" using b c by auto
  have "(kbd_head k + 1) mod 256 = (if kbd_head k + 1 < 256 then kbd_head k + 1 else kbd_head k + 1 - 256)"
    using b by (intro mod_256) simp
  then show "(kbd_head k + 1) mod 256 = kbd_tail k \<longleftrightarrow> kbd_count k = 255" using b c by auto
qed

lemma kbd_count_step:
  assumes "kbd_inv k"
  shows "kbd_count k \<noteq> 255 \<Longrightarrow> kbd_count (k\<lparr>kbd_buffer := b, kbd_head := (kbd_head k + 1) mod 256\<rparr>) = Suc (kbd_count k)"
    and "kbd_count k \<noteq> 0 \<Longrightarrow> Suc (kbd_count (kbd_take k)) = kbd_count k"
proof -
  have b: "kbd_head k < 256" "kbd_tail k < 256" using assms by (auto simp: kbd_inv_def)
  define cnt :: "nat \<Rightarrow> nat \<Rightarrow> nat" where "cnt h t = (h + 256 - t) mod 256" for h t
  have kc: "kbd_count k = cnt (kbd_head k) (kbd_tail k)" for k by (simp add: kbd_count_def cnt_def)
  have c: "cnt h t = (if t \<le> h then h - t else h + 256 - t)" if "h < 256" "t < 256" for h t
    using that unfolding cnt_def by (subst mod_256) auto
  have s: "(x + 1) mod 256 = (if x = 255 then 0 else x + 1)" if "x < 256" for x :: nat
    using that by (subst mod_256) auto
  have up: "cnt ((h + 1) mod 256) t = Suc (cnt h t)" if "h < 256" "t < 256" "cnt h t \<noteq> 255" for h t
    using that(3) c [OF that(1,2)] c [OF _ that(2), of 0] c [OF _ that(2), of "h + 1"] that(1,2)
    unfolding s [OF that(1)] by (auto split: if_splits)
  have down: "Suc (cnt h ((t + 1) mod 256)) = cnt h t" if "h < 256" "t < 256" "cnt h t \<noteq> 0" for h t
    using that(3) c [OF that(1,2)] c [OF that(1), of 0] c [OF that(1), of "t + 1"] that(1,2)
    unfolding s [OF that(2)] by (auto split: if_splits)
  show "kbd_count k \<noteq> 255 \<Longrightarrow> kbd_count (k\<lparr>kbd_buffer := b, kbd_head := (kbd_head k + 1) mod 256\<rparr>) = Suc (kbd_count k)"
    using up [OF b] by (simp add: kc)
  show "kbd_count k \<noteq> 0 \<Longrightarrow> Suc (kbd_count (kbd_take k)) = kbd_count k"
    using down [OF b] by (simp add: kc kbd_take_def)
qed

lemma kbd_store_correct:
  assumes "kbd_inv k"
  shows "kbd_inv (kbd_store c k)"
    and "kbd_contents (kbd_store c k) = (if kbd_count k < 255 then kbd_contents k @ [c] else kbd_contents k)"
proof -
  note f = kbd_count_head [OF assms]
  show "kbd_inv (kbd_store c k)" using assms by (auto simp: kbd_inv_def kbd_store_def Let_def)
  show "kbd_contents (kbd_store c k) = (if kbd_count k < 255 then kbd_contents k @ [c] else kbd_contents k)"
  proof (cases "kbd_count k = 255")
    case True
    then show ?thesis using f(4) by (simp add: kbd_store_def)
  next
    case False
    then have c: "kbd_count k < 255" using f(2) by simp
    have "kbd_count (kbd_store c k) = Suc (kbd_count k)"
      using kbd_count_step(1) [OF assms False] f(4) False by (simp add: kbd_store_def Let_def)
    then show ?thesis
      using c f(1,4) assms ring_list_push [of "kbd_count k" "kbd_buffer k" "kbd_tail k" c]
      by (simp add: kbd_contents_def kbd_store_def kbd_inv_def Let_def)
  qed
qed

lemma kbd_take_correct:
  assumes "kbd_inv k" and "kbd_count k \<noteq> 0"
  shows "kbd_inv (kbd_take k)" and "kbd_contents k = kbd_next k # kbd_contents (kbd_take k)"
proof -
  obtain n where n: "kbd_count k = Suc n" using assms(2) by (cases "kbd_count k") auto
  have "kbd_count (kbd_take k) = n" using kbd_count_step(2) [OF assms] n by simp
  then show "kbd_contents k = kbd_next k # kbd_contents (kbd_take k)"
    using n assms(1) ring_list_pop [of "kbd_buffer k" "kbd_tail k" n]
    by (simp add: kbd_contents_def kbd_next_def kbd_take_def kbd_inv_def)
  show "kbd_inv (kbd_take k)" using assms(1) by (simp add: kbd_inv_def kbd_take_def)
qed

lemma length_kbd_contents [simp]: "length (kbd_contents k) = kbd_count k"
  by (simp add: kbd_contents_def)

interpretation kbd_queue: bounded_fifo kbd_inv kbd_contents 255 kbd_store kbd_next kbd_take
proof unfold_locales
  fix k c
  assume "kbd_inv k"
  show "length (kbd_contents k) \<le> 255" using kbd_count_head(2) [OF \<open>kbd_inv k\<close>] by simp
  show "kbd_inv (kbd_store c k)" by (rule kbd_store_correct) fact
  show "length (kbd_contents k) < 255 \<Longrightarrow> kbd_contents (kbd_store c k) = kbd_contents k @ [c]"
    using kbd_store_correct(2) [OF \<open>kbd_inv k\<close>] by simp
  assume "kbd_contents k \<noteq> []"
  then have "kbd_count k \<noteq> 0" by (simp flip: length_kbd_contents)
  then show "kbd_inv (kbd_take k)" "kbd_contents k = kbd_next k # kbd_contents (kbd_take k)"
    using kbd_take_correct [OF \<open>kbd_inv k\<close>] by auto
qed

section \<open>What is buffered\<close>

text \<open>A character that may be buffered: not zero, which stands for no character, and not Ctrl-C.\<close>

definition storable :: "u8 \<Rightarrow> bool" where
  "storable c \<longleftrightarrow> c \<noteq> 0 \<and> c \<noteq> CTRL_C"

definition kbd_ok :: "kbd \<Rightarrow> bool" where
  "kbd_ok k \<longleftrightarrow> kbd_inv k \<and> (\<forall>c \<in> set (kbd_contents k). storable c)"

text \<open>The buffer of \<open>k'\<close> is that of \<open>k\<close> with storable characters added at its end.\<close>

definition kbd_extends :: "kbd \<Rightarrow> kbd \<Rightarrow> bool" where
  "kbd_extends k k' \<longleftrightarrow> kbd_inv k' \<and> (\<exists>new. kbd_contents k' = kbd_contents k @ new \<and> (\<forall>c \<in> set new. storable c))"

lemma kbd_extends_refl: "kbd_inv k \<Longrightarrow> kbd_extends k k"
  by (auto simp: kbd_extends_def)

lemma kbd_extends_trans: "kbd_extends k k1 \<Longrightarrow> kbd_extends k1 k2 \<Longrightarrow> kbd_extends k k2"
  by (fastforce simp: kbd_extends_def)

lemma kbd_ok_extends: "kbd_ok k \<Longrightarrow> kbd_extends k k' \<Longrightarrow> kbd_ok k'"
  by (auto simp: kbd_ok_def kbd_extends_def)

text \<open>The shift, control and prefix flags do not touch the buffer.\<close>

lemma kbd_flags [simp]:
  "kbd_inv (k\<lparr>shift_pressed := x\<rparr>) = kbd_inv k" "kbd_contents (k\<lparr>shift_pressed := x\<rparr>) = kbd_contents k"
  "kbd_inv (k\<lparr>ctrl_pressed := x\<rparr>) = kbd_inv k" "kbd_contents (k\<lparr>ctrl_pressed := x\<rparr>) = kbd_contents k"
  "kbd_inv (k\<lparr>extended := x\<rparr>) = kbd_inv k" "kbd_contents (k\<lparr>extended := x\<rparr>) = kbd_contents k"
  by (simp_all add: kbd_inv_def kbd_contents_def kbd_count_def)

lemma kbd_buffer_push_extends:
  assumes "kbd_inv k" and "c \<noteq> 0"
  shows "kbd_extends k (fst (kbd_buffer_push e k c))"
  using assms kbd_store_correct [OF assms(1), of c]
  by (auto simp: kbd_buffer_push_def kbd_extends_def storable_def)

lemma kbd_push_all_extends:
  "kbd_inv k \<Longrightarrow> 0 \<notin> set cs \<Longrightarrow> kbd_extends k (fst (kbd_push_all e k cs))"
proof (induction cs arbitrary: k)
  case Nil
  then show ?case by (simp add: kbd_extends_refl)
next
  case (Cons c cs)
  then have step: "kbd_extends k (fst (kbd_buffer_push e k c))" by (intro kbd_buffer_push_extends) auto
  then have "kbd_inv (fst (kbd_buffer_push e k c))" by (simp add: kbd_extends_def)
  from Cons.IH [OF this] Cons.prems(2) kbd_extends_trans [OF step] show ?case
    by (simp add: split_beta)
qed

lemma extended_sequence_nonzero: "0 \<notin> set (extended_sequence scancode)"
  by (simp add: extended_sequence_def)

text \<open>No letter of the tables becomes zero when Ctrl is held.\<close>

lemma scancode_tables:
  "list_all (\<lambda>c. (97 \<le> c \<and> c \<le> 122 \<or> 65 \<le> c \<and> c \<le> 90) \<longrightarrow> c AND 0x1F \<noteq> 0) (scancode_ascii @ scancode_ascii_shift)"
  "length scancode_ascii = 128" "length scancode_ascii_shift = 128"
  by code_simp+

lemma unat_low7: "scancode AND 0x80 = 0 \<Longrightarrow> unat scancode < 128" for scancode :: u8
proof -
  assume "scancode AND 0x80 = 0"
  then have "\<not> bit scancode 7" using and_push_bit_one_eq_0_iff [of scancode 7] by simp
  then have "bit scancode n \<Longrightarrow> n < 8 \<Longrightarrow> n < 7" for n by (cases "n = 7") auto
  then have "scancode = take_bit 7 scancode" by (intro bit_word_eqI) (auto simp: bit_take_bit_iff)
  then have "unat scancode = unat (take_bit 7 scancode)" by simp
  also have "\<dots> < 128" unfolding unsigned_take_bit_eq using take_bit_nat_less_exp [of 7 "unat scancode"] by simp
  finally show ?thesis .
qed

lemma keyboard_handle_port_extends:
  assumes "kbd_inv k"
  shows "kbd_extends k (fst (keyboard_handle_port e status scancode k))"
proof -
  define c where "c = (if shift_pressed k then scancode_ascii_shift else scancode_ascii) ! unat scancode"
  define c' where "c' = (if ctrl_pressed k \<and> (97 \<le> c \<and> c \<le> 122 \<or> 65 \<le> c \<and> c \<le> 90) then c AND 0x1F else c)"
  have letters: "c' \<noteq> 0" if "scancode AND 0x80 = 0" "c \<noteq> 0"
  proof -
    have "c \<in> set (scancode_ascii @ scancode_ascii_shift)"
      using unat_low7 [OF that(1)] scancode_tables(2,3) nth_mem by (auto simp: c_def)
    then show ?thesis using scancode_tables(1) that(2) unfolding list_all_iff c'_def by auto
  qed
  have inv: "kbd_inv (k\<lparr>extended := False, ctrl_pressed := x\<rparr>)" "kbd_inv (k\<lparr>extended := False\<rparr>)" for x
    using assms by simp_all
  have push: "kbd_extends k (fst (kbd_push_all e k1 (extended_sequence scancode)))"
    if "kbd_inv k1" "kbd_contents k1 = kbd_contents k" for k1
    using kbd_push_all_extends [OF that(1) extended_sequence_nonzero] that(2) by (simp add: kbd_extends_def)
  show ?thesis
    unfolding keyboard_handle_port_def Let_def c_def [symmetric] c'_def [symmetric]
    using assms push [OF inv(1)] push [OF inv(2)] kbd_buffer_push_extends [OF assms letters]
    by (auto simp: kbd_extends_def)
qed

text \<open>
  C33. The keyboard delivers what was decoded, once and in order. Whatever the controller shows, the
  decoder only adds characters at the end of the buffer, and never a zero byte or Ctrl-C (which
  interrupts programs instead of being typed); taking a character gives the oldest one, and the zero
  that stands for "no character" exactly when none is buffered.
\<close>

theorem keyboard_delivers:
  assumes "kbd_ok k" and "kbd_buffer_pop e status scancode k = (k', fx, c)"
  defines "k1 \<equiv> fst (keyboard_handle_port e status scancode k)"
  shows "kbd_ok k' \<and> kbd_extends k k1
    \<and> (if kbd_contents k1 = [] then c = 0 \<and> k' = k1 else c \<noteq> 0 \<and> kbd_contents k1 = c # kbd_contents k')"
proof -
  have ext: "kbd_extends k k1" using keyboard_handle_port_extends assms(1) by (simp add: k1_def kbd_ok_def)
  then have ok1: "kbd_ok k1" using kbd_ok_extends [OF assms(1)] by simp
  then have inv1: "kbd_inv k1" by (simp add: kbd_ok_def)
  have pop: "kbd_buffer_pop e status scancode k = (if kbd_count k1 = 0 then (k1, fx, 0) else (kbd_take k1, fx, kbd_next k1))"
    using assms(2) kbd_count_head(3) [OF inv1]
    by (auto simp: kbd_buffer_pop_def k1_def kbd_take_def kbd_next_def split_beta split: if_splits)
  have empty: "kbd_contents k1 = [] \<longleftrightarrow> kbd_count k1 = 0" by (simp flip: length_kbd_contents)
  show ?thesis
  proof (cases "kbd_count k1 = 0")
    case True
    then show ?thesis using pop assms(2) ok1 ext empty by simp
  next
    case False
    note t = kbd_take_correct [OF inv1 False]
    then have "storable (kbd_next k1)" "kbd_ok (kbd_take k1)" using ok1 by (auto simp: kbd_ok_def)
    then show ?thesis using pop assms(2) False ext empty t(2) by (simp add: storable_def)
  qed
qed

section \<open>Example\<close>

lemma kbd_boot_ok: "kbd_ok kbd_boot"
  by (simp add: kbd_ok_def kbd_inv_def kbd_contents_def kbd_count_def kbd_boot_def)

text \<open>The key A, scancode 0x1E, on an idle keyboard.\<close>

theorem keyboard_delivers_witness:
  "kbd_ok kbd_boot \<and> snd (snd (kbd_buffer_pop \<lparr>raw = False, fg = False\<rparr> 0x01 0x1E kbd_boot)) = 97"
proof -
  obtain k' fx c where pop: "kbd_buffer_pop \<lparr>raw = False, fg = False\<rparr> 0x01 0x1E kbd_boot = (k', fx, c)"
    by (cases "kbd_buffer_pop \<lparr>raw = False, fg = False\<rparr> 0x01 0x1E kbd_boot")
  have port: "keyboard_handle_port \<lparr>raw = False, fg = False\<rparr> 0x01 0x1E kbd_boot = (kbd_store 97 kbd_boot, [])"
    by (simp add: keyboard_handle_port_def kbd_boot_def scancode_ascii_def kbd_buffer_push_def)
  have "kbd_inv kbd_boot" "kbd_contents kbd_boot = []" "kbd_count kbd_boot = 0"
    by (simp_all add: kbd_inv_def kbd_contents_def kbd_count_def kbd_boot_def)
  then have "kbd_contents (kbd_store 97 kbd_boot) = [97]" using kbd_store_correct(2) [of kbd_boot 97] by simp
  with keyboard_delivers [OF kbd_boot_ok pop] kbd_boot_ok pop show ?thesis by (simp add: port)
qed

end
