(* ===== verification/Mouse.thy ===== *)
theory Mouse
  imports Ring
begin

text \<open>
  The PS/2 mouse driver, \<^verbatim>\<open>src/src/drivers/input/mouse.c\<close>: the packet decoder, the queue of movements
  and the reader. The sums of movement are 32-bit signed numbers, with their wrap-around. A read is one
  holding of the lock, as for pipes.
\<close>

unbundle bit_operations_syntax

section \<open>The code\<close>

abbreviation (input) "QUEUE_SIZE \<equiv> 64 :: nat"
abbreviation (input) "PACKET_ALWAYS_ONE \<equiv> 0x08 :: u8"
abbreviation (input) "MOUSE_EVENT_SIZE \<equiv> 3 :: nat"

record mouse_entry =
  entry_dx :: int
  entry_dy :: int
  entry_buttons :: u8

record mouse =
  queue :: "mouse_entry list"
  queue_head :: nat
  queue_count :: nat
  packet :: "u8 list"
  packet_have :: nat
  last_buttons :: u8

definition mouse_flush :: "mouse \<Rightarrow> mouse" where
  "mouse_flush m = m\<lparr>queue_head := 0, queue_count := 0, packet_have := 0, last_buttons := 0\<rparr>"

text \<open>The value an \<^verbatim>\<open>int32_t\<close> ends up with.\<close>

definition int32 :: "int \<Rightarrow> int" where
  "int32 x = signed_take_bit 31 x"

definition push_event :: "mouse \<Rightarrow> int \<Rightarrow> int \<Rightarrow> u8 \<Rightarrow> mouse" where
  "push_event m dx dy buttons =
     (let newest = (queue_head m + queue_count m - 1) mod QUEUE_SIZE; e = queue m ! newest
      in if queue_count m > 0 \<and> (entry_buttons e = buttons \<or> queue_count m = QUEUE_SIZE)
         then m\<lparr>queue := (queue m)[newest := \<lparr>entry_dx = int32 (entry_dx e + dx), entry_dy = int32 (entry_dy e + dy), entry_buttons = buttons\<rparr>]\<rparr>
         else let at = (queue_head m + queue_count m) mod QUEUE_SIZE
              in m\<lparr>queue := (queue m)[at := \<lparr>entry_dx = dx, entry_dy = dy, entry_buttons = buttons\<rparr>], queue_count := queue_count m + 1\<rparr>)"

text \<open>The movement a packet stands for: nine-bit two's complement, meaningless on overflow.\<close>

definition packet_move :: "u8 \<Rightarrow> u8 \<Rightarrow> u8 \<Rightarrow> int \<times> int" where
  "packet_move p0 p1 p2 =
     (let dx = uint p1 - (if p0 AND 0x10 \<noteq> 0 then 256 else 0);
          dy = uint p2 - (if p0 AND 0x20 \<noteq> 0 then 256 else 0)
      in if p0 AND 0xC0 \<noteq> 0 then (0, 0) else (dx, dy))"

definition mouse_handle_byte :: "mouse \<Rightarrow> u8 \<Rightarrow> mouse" where
  "mouse_handle_byte m byte =
     (if packet_have m = 0 \<and> byte AND PACKET_ALWAYS_ONE = 0 then m
      else let m = m\<lparr>packet := (packet m)[packet_have m := byte], packet_have := packet_have m + 1\<rparr>
        in if packet_have m < 3 then m
           else let m = m\<lparr>packet_have := 0\<rparr>;
                    buttons = packet m ! 0 AND 0x07;
                    (dx, dy) = packet_move (packet m ! 0) (packet m ! 1) (packet m ! 2)
                in if dx \<noteq> 0 \<or> dy \<noteq> 0 \<or> buttons \<noteq> last_buttons m
                   then (push_event m dx dy buttons)\<lparr>last_buttons := buttons\<rparr> else m)"

definition clamp :: "int \<Rightarrow> int" where
  "clamp d = (if d > 127 then 127 else if d < - 127 then - 127 else d)"

text \<open>\<open>n\<close> is how many whole events still fit the caller's buffer.\<close>

fun mouse_read_loop :: "mouse \<Rightarrow> nat \<Rightarrow> u8 list \<Rightarrow> mouse \<times> u8 list" where
  "mouse_read_loop m 0 out = (m, out)"
| "mouse_read_loop m (Suc n) out =
     (if queue_count m > 0
      then let e = queue m ! queue_head m; step_x = clamp (entry_dx e); step_y = clamp (entry_dy e);
               out = out @ [entry_buttons e OR PACKET_ALWAYS_ONE, word_of_int step_x, word_of_int step_y];
               e = e\<lparr>entry_dx := entry_dx e - step_x, entry_dy := entry_dy e - step_y\<rparr>;
               m = m\<lparr>queue := (queue m)[queue_head m := e]\<rparr>;
               m = (if entry_dx e = 0 \<and> entry_dy e = 0
                    then m\<lparr>queue_head := (queue_head m + 1) mod QUEUE_SIZE, queue_count := queue_count m - 1\<rparr> else m)
           in mouse_read_loop m n out
      else (m, out))"

text \<open>\<^const>\<open>None\<close> is going to sleep.\<close>

definition mouse_read :: "mouse \<Rightarrow> nat \<Rightarrow> bool \<Rightarrow> bool \<Rightarrow> mouse \<times> (errno + u8 list) option" where
  "mouse_read m count block interrupted =
     (if count < MOUSE_EVENT_SIZE then (m, Some (Inl EINVAL))
      else if queue_count m = 0 \<and> block then (m, if interrupted then Some (Inl EINTR) else None)
      else let (m, out) = mouse_read_loop m (count div MOUSE_EVENT_SIZE) [] in (m, Some (Inr out)))"

definition mouse_poll :: "mouse \<Rightarrow> bool" where
  "mouse_poll m \<longleftrightarrow> queue_count m > 0"

section \<open>Movement is conserved\<close>

definition mouse_inv :: "mouse \<Rightarrow> bool" where
  "mouse_inv m \<longleftrightarrow> length (queue m) = QUEUE_SIZE \<and> queue_head m < QUEUE_SIZE \<and> queue_count m \<le> QUEUE_SIZE
     \<and> length (packet m) = 3 \<and> packet_have m < 3"

definition entries :: "mouse \<Rightarrow> mouse_entry list" where
  "entries m = ring_list (queue m) (queue_head m) (queue_count m)"

text \<open>How far the movements still queued go.\<close>

definition pending :: "mouse \<Rightarrow> int \<times> int" where
  "pending m = (sum_list (map entry_dx (entries m)), sum_list (map entry_dy (entries m)))"

definition add_move :: "int \<times> int \<Rightarrow> int \<times> int \<Rightarrow> int \<times> int" where
  "add_move a b = (fst a + fst b, snd a + snd b)"

text \<open>How far the events a program read say the mouse moved: signed bytes.\<close>

fun read_moves :: "u8 list \<Rightarrow> int \<times> int" where
  "read_moves (b # x # y # rest) = add_move (sint x, sint y) (read_moves rest)"
| "read_moves _ = (0, 0)"

lemma add_move_simps [simp]:
  "add_move a (0, 0) = a" "add_move (0, 0) a = a" "add_move (add_move a b) c = add_move a (add_move b c)"
  by (simp_all add: add_move_def)

lemma read_moves_append: "length a mod 3 = 0 \<Longrightarrow> read_moves (a @ b) = add_move (read_moves a) (read_moves b)"
  by (induction a rule: read_moves.induct) (auto simp: mod_Suc split: if_splits)

lemma sint_clamp: "sint (word_of_int (clamp d) :: u8) = clamp d"
  by (rule signed_take_bit_int_eq_self [THEN trans [OF sint_sbintrunc']]) (auto simp: clamp_def)

lemma sum_list_map_update:
  "i < length xs \<Longrightarrow> sum_list (map f (xs[i := x])) = sum_list (map f xs) + f x - f (xs ! i)" for f :: "'a \<Rightarrow> int"
  by (induction xs arbitrary: i) (auto split: nat.splits)

lemma length_entries [simp]: "length (entries m) = queue_count m"
  by (simp add: entries_def)

text \<open>No queued movement is further than \<open>B\<close>.\<close>

definition within :: "int \<Rightarrow> mouse \<Rightarrow> bool" where
  "within B m \<longleftrightarrow> (\<forall>e\<in>set (entries m). \<bar>entry_dx e\<bar> \<le> B \<and> \<bar>entry_dy e\<bar> \<le> B)"

lemma int32_id: "\<bar>x\<bar> < 2 ^ 31 \<Longrightarrow> int32 x = x"
  unfolding int32_def by (rule signed_take_bit_int_eq_self) auto

lemma packet_move_bound: "packet_move p0 p1 p2 = (dx, dy) \<Longrightarrow> \<bar>dx\<bar> \<le> 256 \<and> \<bar>dy\<bar> \<le> 256"
  using uint_lt2p [of p1] uint_lt2p [of p2] uint_ge_0 [of p1] uint_ge_0 [of p2]
  by (auto simp: packet_move_def Let_def split: if_splits)

lemma push_event_correct:
  assumes "mouse_inv m" and B: "within B m" "0 \<le> B" "B + 256 < 2 ^ 31" and d: "\<bar>dx\<bar> \<le> 256" "\<bar>dy\<bar> \<le> 256"
  shows "mouse_inv (push_event m dx dy b)" and "pending (push_event m dx dy b) = add_move (pending m) (dx, dy)"
    and "entries (push_event m dx dy b) \<noteq> [] \<and> entry_buttons (last (entries (push_event m dx dy b))) = b"
    and "within (B + 256) (push_event m dx dy b)"
proof -
  have q: "length (queue m) = 64" "queue_count m \<le> 64" using assms(1) by (auto simp: mouse_inv_def)
  define n where "n = (queue_head m + queue_count m - 1) mod 64"
  define e where "e = queue m ! n"
  define merged where "merged = \<lparr>entry_dx = int32 (entry_dx e + dx), entry_dy = int32 (entry_dy e + dy), entry_buttons = b\<rparr>"
  define fresh where "fresh = \<lparr>entry_dx = dx, entry_dy = dy, entry_buttons = b\<rparr>"
  show "mouse_inv (push_event m dx dy b)" using assms(1) by (auto simp: mouse_inv_def push_event_def Let_def)
  have "pending (push_event m dx dy b) = add_move (pending m) (dx, dy) \<and> within (B + 256) (push_event m dx dy b)
    \<and> entries (push_event m dx dy b) \<noteq> [] \<and> entry_buttons (last (entries (push_event m dx dy b))) = b"
  proof (cases "queue_count m > 0 \<and> (entry_buttons e = b \<or> queue_count m = 64)")
    case True
    then have c: "queue_count m - 1 < queue_count m" "0 < queue_count m" by auto
    have n': "n = (queue_head m + (queue_count m - 1)) mod length (queue m)" using c q by (simp add: n_def)
    have "push_event m dx dy b = m\<lparr>queue := (queue m)[n := merged]\<rparr>"
      using True by (simp add: push_event_def n_def e_def merged_def Let_def)
    then have ent: "entries (push_event m dx dy b) = (entries m)[queue_count m - 1 := merged]"
      using ring_list_update [OF c(1), of "queue m" "queue_head m" merged] q n' by (simp add: entries_def)
    have old: "entries m ! (queue_count m - 1) = e"
      using c n' by (simp add: entries_def ring_list_def e_def)
    have "e \<in> set (entries m)" unfolding old [symmetric] using c by simp
    then have e: "\<bar>entry_dx e\<bar> \<le> B" "\<bar>entry_dy e\<bar> \<le> B" using B(1) by (auto simp: within_def)
    then have mv: "entry_dx merged = entry_dx e + dx" "entry_dy merged = entry_dy e + dy" "entry_buttons merged = b"
      using d B(3) by (simp_all add: merged_def int32_id)
    then have "\<bar>entry_dx merged\<bar> \<le> B + 256" "\<bar>entry_dy merged\<bar> \<le> B + 256" using e d by simp_all
    then have w: "within (B + 256) (push_event m dx dy b)"
      using B(1) set_update_subset_insert [of "entries m" "queue_count m - 1" merged] unfolding within_def ent by fastforce
    have "last ((entries m)[queue_count m - 1 := merged]) = merged"
      using c by (simp add: last_conv_nth length_greater_0_conv [symmetric] del: length_greater_0_conv)
    then show ?thesis using c old mv w
      unfolding pending_def ent by (simp add: sum_list_map_update add_move_def length_greater_0_conv [symmetric] del: length_greater_0_conv)
  next
    case False
    have less: "queue_count m < length (queue m)" using False q by auto
    have "push_event m dx dy b = m\<lparr>queue := (queue m)[(queue_head m + queue_count m) mod 64 := fresh], queue_count := queue_count m + 1\<rparr>"
      using False unfolding push_event_def n_def [symmetric] Let_def e_def [symmetric] fresh_def [symmetric] by auto
    then have ent: "entries (push_event m dx dy b) = entries m @ [fresh]"
      using ring_list_push [OF less, of "queue_head m" fresh] q by (simp add: entries_def)
    have "within (B + 256) (push_event m dx dy b)" using B d unfolding within_def ent by (auto simp: fresh_def)
    then show ?thesis using ent by (simp add: pending_def add_move_def fresh_def)
  qed
  then show "pending (push_event m dx dy b) = add_move (pending m) (dx, dy)" "within (B + 256) (push_event m dx dy b)"
    "entries (push_event m dx dy b) \<noteq> [] \<and> entry_buttons (last (entries (push_event m dx dy b))) = b" by auto
qed

text \<open>The movement that a byte completes a packet for, and the newest state of the buttons.\<close>

definition completed_move :: "mouse \<Rightarrow> u8 \<Rightarrow> int \<times> int" where
  "completed_move m byte = (if packet_have m = 2 then packet_move (packet m ! 0) (packet m ! 1) byte else (0, 0))"

definition newest_buttons :: "mouse \<Rightarrow> bool" where
  "newest_buttons m \<longleftrightarrow> (entries m \<noteq> [] \<longrightarrow> entry_buttons (last (entries m)) = last_buttons m)"

lemma mouse_handle_byte_correct:
  assumes "mouse_inv m" and "newest_buttons m" and B: "within B m" "0 \<le> B" "B + 256 < 2 ^ 31"
  shows "mouse_inv (mouse_handle_byte m byte)" and "newest_buttons (mouse_handle_byte m byte)"
    and "pending (mouse_handle_byte m byte) = add_move (pending m) (completed_move m byte)"
    and "within (B + 256) (mouse_handle_byte m byte)"
proof -
  have len: "length (packet m) = 3" "packet_have m < 3" using assms(1) by (auto simp: mouse_inv_def)
  define m1 where "m1 = m\<lparr>packet := (packet m)[packet_have m := byte], packet_have := packet_have m + 1\<rparr>"
  define m2 where "m2 = m\<lparr>packet := (packet m)[packet_have m := byte], packet_have := 0\<rparr>"
  have same: "entries m1 = entries m" "entries m2 = entries m" "pending m1 = pending m" "pending m2 = pending m"
    "last_buttons m1 = last_buttons m" "last_buttons m2 = last_buttons m"
    by (simp_all add: m1_def m2_def entries_def pending_def)
  have inv2: "mouse_inv m2" using assms(1) by (auto simp: mouse_inv_def m2_def)
  define b where "b = packet m2 ! 0 AND 0x07"
  obtain dx dy where d: "packet_move (packet m2 ! 0) (packet m2 ! 1) (packet m2 ! 2) = (dx, dy)"
    by (cases "packet_move (packet m2 ! 0) (packet m2 ! 1) (packet m2 ! 2)")
  have w: "within B m2" "within (B + 256) m" "within (B + 256) m1" "within (B + 256) m2"
    using B same unfolding within_def by fastforce+
  note push = push_event_correct [OF inv2 w(1) B(2,3), of dx dy b] packet_move_bound [OF d]
  consider "packet_have m = 0 \<and> byte AND PACKET_ALWAYS_ONE = 0" | "\<not> (packet_have m = 0 \<and> byte AND PACKET_ALWAYS_ONE = 0)" "packet_have m < 2"
    | "packet_have m = 2" using len(2) by linarith
  then have "mouse_inv (mouse_handle_byte m byte) \<and> newest_buttons (mouse_handle_byte m byte)
    \<and> pending (mouse_handle_byte m byte) = add_move (pending m) (completed_move m byte)
    \<and> within (B + 256) (mouse_handle_byte m byte)"
  proof cases
    case 1
    then show ?thesis using assms w by (simp add: mouse_handle_byte_def completed_move_def)
  next
    case 2
    then have "mouse_handle_byte m byte = m1" unfolding mouse_handle_byte_def m1_def by auto
    then show ?thesis using assms(1,2) w 2 same by (auto simp: completed_move_def newest_buttons_def mouse_inv_def m1_def)
  next
    case 3
    then have eq: "mouse_handle_byte m byte
        = (if dx \<noteq> 0 \<or> dy \<noteq> 0 \<or> b \<noteq> last_buttons m2 then (push_event m2 dx dy b)\<lparr>last_buttons := b\<rparr> else m2)"
      using d unfolding mouse_handle_byte_def b_def m2_def by (simp add: Let_def)
    have "completed_move m byte = (dx, dy)"
      using d 3 len(1) by (simp add: completed_move_def m2_def)
    moreover have "entries (x\<lparr>last_buttons := b\<rparr>) = entries x" "pending (x\<lparr>last_buttons := b\<rparr>) = pending x"
      "mouse_inv (x\<lparr>last_buttons := b\<rparr>) = mouse_inv x"
      "within (B + 256) (x\<lparr>last_buttons := b\<rparr>) = within (B + 256) x" for x
      by (simp_all add: entries_def pending_def mouse_inv_def within_def)
    ultimately show ?thesis
      using push inv2 w assms(2) same unfolding eq newest_buttons_def by (auto simp: add_move_def)
  qed
  then show "mouse_inv (mouse_handle_byte m byte)" "newest_buttons (mouse_handle_byte m byte)"
    "pending (mouse_handle_byte m byte) = add_move (pending m) (completed_move m byte)"
    "within (B + 256) (mouse_handle_byte m byte)" by auto
qed

text \<open>Reading takes whole events off the queue without changing how far the mouse has moved in all.\<close>

lemma mouse_read_loop_correct:
  assumes "mouse_inv m" and "newest_buttons m" and "length out mod 3 = 0" and "within B m"
  shows "case mouse_read_loop m n out of (m', out') \<Rightarrow> mouse_inv m' \<and> newest_buttons m' \<and> packet m' = packet m \<and> packet_have m' = packet_have m
    \<and> length out' mod 3 = 0 \<and> length out' \<le> length out + 3 * n \<and> within B m'
    \<and> add_move (read_moves out') (pending m') = add_move (read_moves out) (pending m)"
  using assms
proof (induction n arbitrary: m out)
  case (Suc n)
  show ?case
  proof (cases "queue_count m")
    case 0
    then show ?thesis using Suc.prems by simp
  next
    case (Suc c)
    have q: "length (queue m) = 64" "queue_head m < 64" "queue_count m \<le> 64" using Suc.prems(1) by (auto simp: mouse_inv_def)
    define e where "e = queue m ! queue_head m"
    define e' where "e' = e\<lparr>entry_dx := entry_dx e - clamp (entry_dx e), entry_dy := entry_dy e - clamp (entry_dy e)\<rparr>"
    define m1 where "m1 = m\<lparr>queue := (queue m)[queue_head m := e']\<rparr>"
    define m2 where "m2 = (if entry_dx e' = 0 \<and> entry_dy e' = 0
      then m1\<lparr>queue_head := (queue_head m + 1) mod 64, queue_count := queue_count m - 1\<rparr> else m1)"
    define ev where "ev = [entry_buttons e OR PACKET_ALWAYS_ONE, word_of_int (clamp (entry_dx e)), word_of_int (clamp (entry_dy e))]"
    have ent: "entries m = e # ring_list (queue m) ((queue_head m + 1) mod 64) c"
      using ring_list_pop [of "queue m" "queue_head m" c] q Suc by (simp add: entries_def e_def)
    have ent1: "entries m1 = e' # ring_list (queue m) ((queue_head m + 1) mod 64) c"
      using ring_list_update [of 0 "queue_count m" "queue m" "queue_head m" e'] q Suc ent
      by (simp add: entries_def m1_def)
    have ent2: "entries m2 = (if entry_dx e' = 0 \<and> entry_dy e' = 0 then tl (entries m1) else entries m1)"
      using ring_list_pop [of "queue m1" "queue_head m1" c] q Suc by (simp add: m2_def m1_def entries_def)
    have pend: "add_move (clamp (entry_dx e), clamp (entry_dy e)) (pending m2) = pending m"
      unfolding pending_def ent2 ent1 ent by (auto simp: add_move_def e'_def)
    have last: "entries m2 \<noteq> [] \<Longrightarrow> entry_buttons (last (entries m2)) = entry_buttons (last (entries m))"
      unfolding ent2 ent1 ent by (auto simp: e'_def)
    have "\<bar>entry_dx e'\<bar> \<le> \<bar>entry_dx e\<bar>" "\<bar>entry_dy e'\<bar> \<le> \<bar>entry_dy e\<bar>" by (auto simp: e'_def clamp_def)
    then have w2: "within B m2" using Suc.prems(4) unfolding within_def ent2 ent1 ent by auto
    have inv2: "mouse_inv m2" "newest_buttons m2" "packet m2 = packet m" "packet_have m2 = packet_have m"
      using Suc.prems(1,2) last q Suc ent by (auto simp: mouse_inv_def m2_def m1_def newest_buttons_def)
    have step: "mouse_read_loop m (Suc n) out = mouse_read_loop m2 n (out @ ev)"
      using Suc unfolding m2_def m1_def e'_def ev_def e_def by (simp add: Let_def)
    have ev: "length (out @ ev) mod 3 = 0" "read_moves (out @ ev) = add_move (read_moves out) (clamp (entry_dx e), clamp (entry_dy e))"
      using Suc.prems(3) by (simp_all add: ev_def read_moves_append sint_clamp)
    from Suc.IH [OF inv2(1,2) ev(1) w2] show ?thesis
      unfolding step ev(2) using pend by (simp add: inv2 split_beta) (simp add: ev_def)
  qed
qed simp

text \<open>What happens to a mouse: a byte arrives from the controller, or a program reads.\<close>

datatype mouse_op = Byte u8 | Read nat

text \<open>The state, how far the packets said the mouse moved, and how far programs were told.\<close>

definition mouse_step :: "mouse \<times> (int \<times> int) \<times> (int \<times> int) \<Rightarrow> mouse_op \<Rightarrow> mouse \<times> (int \<times> int) \<times> (int \<times> int)" where
  "mouse_step = (\<lambda>(m, moved, told) op. case op of
     Byte b \<Rightarrow> (mouse_handle_byte m b, add_move moved (completed_move m b), told)
   | Read count \<Rightarrow> (case mouse_read m count False False of
         (m', Some (Inr out)) \<Rightarrow> (m', moved, add_move told (read_moves out))
       | (m', _) \<Rightarrow> (m', moved, told)))"

lemma add_move_comm: "add_move a b = add_move b a"
  by (simp add: add_move_def)

lemma mouse_steps_correct:
  assumes "mouse_inv m" and "entries m = []" and "length ops < 2 ^ 23"
  shows "case foldl mouse_step (m, (0, 0), (0, 0)) ops of (m', moved, told) \<Rightarrow>
    mouse_inv m' \<and> newest_buttons m' \<and> within (256 * int (length ops)) m' \<and> moved = add_move told (pending m')"
  using assms(3)
proof (induction ops rule: rev_induct)
  case Nil
  then show ?case using assms by (simp add: pending_def newest_buttons_def within_def)
next
  case (snoc op ops)
  obtain m' moved told where st: "foldl mouse_step (m, (0, 0), (0, 0)) ops = (m', moved, told)"
    by (cases "foldl mouse_step (m, (0, 0), (0, 0)) ops")
  have IH: "mouse_inv m'" "newest_buttons m'" "within (256 * int (length ops)) m'" "moved = add_move told (pending m')"
    using snoc unfolding st by auto
  have B: "0 \<le> 256 * int (length ops)" "256 * int (length ops) + 256 < 2 ^ 31" using snoc.prems by auto
  have w: "256 * int (length (ops @ [op])) = 256 * int (length ops) + 256" by simp
  have last: "foldl mouse_step (m, (0, 0), (0, 0)) (ops @ [op]) = mouse_step (m', moved, told) op" using st by simp
  show ?case
  proof (cases op)
    case (Byte b)
    then show ?thesis using mouse_handle_byte_correct [OF IH(1,2,3) B, of b] IH(4)
      unfolding last w by (simp add: mouse_step_def add_move_def)
  next
    case (Read count)
    obtain n out where rd: "mouse_read_loop m' (count div 3) [] = (n, out)" by fastforce
    have n: "mouse_inv n" "newest_buttons n" "within (256 * int (length ops)) n" "pending m' = add_move (read_moves out) (pending n)"
      using mouse_read_loop_correct [OF IH(1,2) _ IH(3), of "[]" "count div 3"] by (auto simp: rd add_move_def)
    have mono: "within (256 * int (length ops) + 256) x" if "within (256 * int (length ops)) x" for x
      using that unfolding within_def by fastforce
    show ?thesis using n IH Read mono unfolding last w
      by (auto simp: mouse_step_def mouse_read_def add_move_def rd)
  qed
qed


section \<open>Example\<close>

definition mouse_example :: mouse where
  "mouse_example = \<lparr>queue = replicate 64 \<lparr>entry_dx = 0, entry_dy = 0, entry_buttons = 0\<rparr>, queue_head = 0, queue_count = 0,
     packet = [0, 0, 0], packet_have = 0, last_buttons = 0\<rparr>"


end
