(* ===== verification/Ctext.thy ===== *)
theory Ctext
  imports Prelude
begin

text \<open>
  Text as the user programs handle it: a C string is the list of its characters before the terminating
  zero, and looking at the end of the list shows that zero. The string functions and the number parser
  of \<^verbatim>\<open>src/user/lib/ulib.c\<close>, and the decimal digits the formatters share.
\<close>

section \<open>Characters\<close>

abbreviation (input) NUL :: char where "NUL \<equiv> CHR 0x00"

abbreviation code :: "char \<Rightarrow> nat" where "code c \<equiv> of_char c"

text \<open>What \<^verbatim>\<open>*s\<close> and \<^verbatim>\<open>s[n]\<close> show.\<close>

definition peek :: "string \<Rightarrow> char" where
  "peek s = (case s of [] \<Rightarrow> NUL | c # _ \<Rightarrow> c)"

definition peek_at :: "string \<Rightarrow> nat \<Rightarrow> char" where
  "peek_at s n = (if n < length s then s ! n else NUL)"

definition cstring :: "string \<Rightarrow> bool" where
  "cstring s \<longleftrightarrow> NUL \<notin> set s"

definition is_digit :: "char \<Rightarrow> bool" where
  "is_digit c \<longleftrightarrow> 48 \<le> code c \<and> code c \<le> 57"

definition digit :: "nat \<Rightarrow> char" where
  "digit d = char_of (48 + d)"

definition digit_value :: "char \<Rightarrow> nat" where
  "digit_value c = code c - 48"

lemma peek_simps [simp]: "peek [] = NUL" "peek (c # s) = c"
  by (simp_all add: peek_def)

lemma peek_append: "s \<noteq> [] \<Longrightarrow> peek (s @ t) = peek s"
  by (cases s) simp_all

lemma code_eq_0 [simp]: "code c = 0 \<longleftrightarrow> c = NUL"
  using of_char_eq_iff [of c NUL, where 'a = nat] by simp

lemma code_pos [simp]: "0 < code c \<longleftrightarrow> c \<noteq> NUL"
  using code_eq_0 [of c] by linarith

lemma code_digit [simp]: "d < 10 \<Longrightarrow> code (digit d) = 48 + d"
  by (simp add: digit_def)

lemma is_digit_digit [simp]: "d < 10 \<Longrightarrow> is_digit (digit d)"
  by (simp add: is_digit_def)

lemma digit_value_digit [simp]: "d < 10 \<Longrightarrow> digit_value (digit d) = d"
  by (simp add: digit_value_def)

lemma digit_of_value: "is_digit c \<Longrightarrow> digit (digit_value c) = c"
  by (simp add: is_digit_def digit_value_def digit_def)

lemma digit_value_less: "is_digit c \<Longrightarrow> digit_value c < 10"
  by (auto simp: is_digit_def digit_value_def)

lemma not_digit [simp]:
  "\<not> is_digit NUL" "\<not> is_digit CHR ''.''" "\<not> is_digit CHR ''-''" "\<not> is_digit CHR '':''" "\<not> is_digit CHR '' ''"
  by (simp_all add: is_digit_def)

section \<open>String functions\<close>

fun strcmp_text :: "string \<Rightarrow> string \<Rightarrow> int" where
  "strcmp_text (a # as) (b # bs) = (if a = b then strcmp_text as bs else int (code a) - int (code b))"
| "strcmp_text a b = int (code (peek a)) - int (code (peek b))"

fun strncmp_text :: "string \<Rightarrow> string \<Rightarrow> nat \<Rightarrow> int" where
  "strncmp_text a b 0 = 0"
| "strncmp_text a b (Suc n) =
     (if peek a \<noteq> peek b \<or> peek a = NUL then int (code (peek a)) - int (code (peek b))
      else strncmp_text (tl a) (tl b) n)"

text \<open>The part of the string from the character on; searching for zero finds the terminator.\<close>

fun strchr_text :: "string \<Rightarrow> char \<Rightarrow> string option" where
  "strchr_text [] c = (if c = NUL then Some [] else None)"
| "strchr_text (x # s) c = (if x = c then Some (x # s) else strchr_text s c)"

text \<open>
  A \<^verbatim>\<open>long\<close> accumulates the digits. Where it would overflow C leaves the result undefined, which is
  \<^const>\<open>None\<close>.
\<close>

abbreviation (input) LONG_MAX :: int where "LONG_MAX \<equiv> 9223372036854775807"

fun atoi_digits :: "int \<Rightarrow> string \<Rightarrow> int option" where
  "atoi_digits value [] = Some value"
| "atoi_digits value (c # s) =
     (if is_digit c then
        let value = value * 10 + int (digit_value c) in if value > LONG_MAX then None else atoi_digits value s
      else Some value)"

definition atoi :: "string \<Rightarrow> int option" where
  "atoi s = (if peek s = CHR ''-'' then map_option uminus (atoi_digits 0 (tl s)) else atoi_digits 0 s)"

lemma strncmp_text_prefix:
  assumes "cstring b"
  shows "strncmp_text a b (length b) = 0 \<longleftrightarrow> take (length b) a = b"
  using assms
proof (induction b arbitrary: a)
  case (Cons y b)
  then have y: "y \<noteq> NUL" "cstring b" by (auto simp: cstring_def)
  then show ?case
  proof (cases a)
    case (Cons x a')
    then show ?thesis using Cons.IH [of a'] y by (auto simp: of_char_eq_iff)
  qed (auto simp: of_char_eq_iff)
qed (simp add: cstring_def)

lemma strcmp_text_eq_0: "cstring a \<Longrightarrow> cstring b \<Longrightarrow> strcmp_text a b = 0 \<longleftrightarrow> a = b"
proof (induction a b rule: strcmp_text.induct [case_names both left right])
  case (left b)
  then show ?case by (cases b) (auto simp: cstring_def)
next
  case (right a)
  then show ?case by (cases a) (auto simp: cstring_def)
qed (auto simp: cstring_def)

lemma strchr_text_eq:
  "c \<noteq> NUL \<Longrightarrow> strchr_text s c = (if c \<in> set s then Some (dropWhile (\<lambda>x. x \<noteq> c) s) else None)"
  by (induction s) auto

section \<open>Decimal digits\<close>

fun digits_value :: "nat \<Rightarrow> string \<Rightarrow> nat" where
  "digits_value v [] = v"
| "digits_value v (c # s) = digits_value (v * 10 + digit_value c) s"

lemma digits_value_append [simp]: "digits_value v (s @ t) = digits_value (digits_value v s) t"
  by (induction s arbitrary: v) simp_all

lemma digits_value_ge: "v \<le> digits_value v s"
proof (induction s arbitrary: v)
  case (Cons c s)
  show ?case using Cons.IH [of "v * 10 + digit_value c"] by simp
qed simp

lemma atoi_digits_eq:
  "list_all is_digit s \<Longrightarrow> \<not> is_digit (peek t) \<Longrightarrow> int v \<le> LONG_MAX \<Longrightarrow>
    atoi_digits (int v) (s @ t) = (if int (digits_value v s) \<le> LONG_MAX then Some (int (digits_value v s)) else None)"
proof (induction s arbitrary: v)
  case Nil
  then show ?case by (cases t) simp_all
next
  case (Cons c s)
  define w where "w = v * 10 + digit_value c"
  have w: "int v * 10 + int (digit_value c) = int w" by (simp add: w_def)
  show ?case
  proof (cases "int w \<le> LONG_MAX")
    case True
    then show ?thesis using Cons.IH [OF _ Cons.prems(2) True] Cons.prems(1) by (simp add: w Let_def flip: w_def)
  next
    case False
    then have "\<not> int (digits_value w s) \<le> LONG_MAX" using digits_value_ge [of w s] by linarith
    then show ?thesis using False Cons.prems(1) by (simp add: w Let_def flip: w_def)
  qed
qed

end
