(* ===== verification/Udate.thy ===== *)
theory Udate
  imports Ctext Date "HOL-Library.Monad_Syntax"
begin

text \<open>
  Dates as text, from \<^verbatim>\<open>src/user/lib/ulib.c\<close>: printing the seconds since 1970 as
  \<open>YYYY-MM-DD HH:MM:SS\<close> and reading such a text back. The numbers are 64-bit in the code and stay far from
  its limits; the seconds that are returned are the wrapped 64-bit value.
\<close>

section \<open>The code\<close>

text \<open>The inner loop: the last \<open>n\<close> decimal digits, filled in from the right.\<close>

fun fixed_digits :: "nat \<Rightarrow> nat \<Rightarrow> string" where
  "fixed_digits 0 part = []"
| "fixed_digits (Suc n) part = fixed_digits n (part div 10) @ [digit (part mod 10)]"

definition format_date :: "u64 \<Rightarrow> string" where
  "format_date seconds =
     (let (year, month, day) = civil_from_days (uint (seconds div 86400));
          rest = unat (seconds mod 86400)
      in fixed_digits 4 (nat year) @ ''-'' @ fixed_digits 2 (nat month) @ ''-'' @ fixed_digits 2 (nat day) @ '' ''
         @ fixed_digits 2 (rest div 3600) @ '':'' @ fixed_digits 2 (rest div 60 mod 60) @ '':'' @ fixed_digits 2 (rest mod 60))"

fun fixed_number_loop :: "nat \<Rightarrow> nat \<Rightarrow> string \<Rightarrow> (nat \<times> string) option" where
  "fixed_number_loop 0 value text = Some (value, text)"
| "fixed_number_loop (Suc n) value text =
     (if is_digit (peek text) then fixed_number_loop n (value * 10 + digit_value (peek text)) (tl text) else None)"

definition fixed_number :: "nat \<Rightarrow> string \<Rightarrow> (nat \<times> string) option" where
  "fixed_number digits text = fixed_number_loop digits 0 text"

text \<open>Stepping over one expected character.\<close>

definition expect :: "char \<Rightarrow> string \<Rightarrow> string option" where
  "expect c text = (if peek text = c then Some (tl text) else None)"

definition days_in :: "nat list" where
  "days_in = [0, 31, 29, 31, 30, 31, 30, 31, 31, 30, 31, 30, 31]"

definition parse_seconds :: "string \<Rightarrow> (nat \<times> string) option" where
  "parse_seconds text =
     (if peek text = CHR '':'' then
        (case fixed_number 2 (tl text) of
           None \<Rightarrow> None
         | Some (second, text) \<Rightarrow> if second > 59 then None else Some (second, text))
      else Some (0, text))"

definition parse_fields :: "string \<Rightarrow> (nat \<times> nat \<times> nat \<times> nat \<times> nat \<times> nat) option" where
  "parse_fields text = do {
     (year, text) \<leftarrow> fixed_number 4 text;
     text \<leftarrow> expect (CHR ''-'') text;
     (month, text) \<leftarrow> fixed_number 2 text;
     text \<leftarrow> (if month < 1 \<or> month > 12 then None else expect (CHR ''-'') text);
     (day, text) \<leftarrow> fixed_number 2 text;
     text \<leftarrow> (if day < 1 \<or> day > days_in ! month then None else expect (CHR '' '') text);
     (hour, text) \<leftarrow> fixed_number 2 text;
     text \<leftarrow> (if hour > 23 then None else expect (CHR '':'') text);
     (minute, text) \<leftarrow> fixed_number 2 text;
     (second, text) \<leftarrow> (if minute > 59 then None else parse_seconds text);
     (if peek text \<noteq> NUL then None else Some (year, month, day, hour, minute, second))
   }"

definition parse_date :: "string \<Rightarrow> errno + u64" where
  "parse_date text =
     (case parse_fields text of
        None \<Rightarrow> Inl EINVAL
      | Some (year, month, day, hour, minute, second) \<Rightarrow>
          let days = days_from_civil (int year) (int month) (int day); (_, _, d) = civil_from_days days
          in if d \<noteq> int day then Inl EINVAL
             else Inr (word_of_int (days * 86400 + int hour * 3600 + int minute * 60 + int second)))"

section \<open>Fixed-width numbers\<close>

lemma length_fixed_digits [simp]: "length (fixed_digits n v) = n"
  by (induction n arbitrary: v) simp_all

lemma fixed_number_loop_append:
  "fixed_number_loop (m + n) v t = (case fixed_number_loop m v t of None \<Rightarrow> None | Some (v', t') \<Rightarrow> fixed_number_loop n v' t')"
  by (induction m arbitrary: v t) simp_all

lemma fixed_number_loop_digits: "fixed_number_loop n w (fixed_digits n v @ t) = Some (w * 10 ^ n + v mod 10 ^ n, t)"
proof (induction n arbitrary: v t)
  case (Suc n)
  have "v mod 10 ^ Suc n = 10 * (v div 10 mod 10 ^ n) + v mod 10"
    by (simp add: mod_mult2_eq mult.commute add.commute)
  then show ?case
    using fixed_number_loop_append [of n 1 w "fixed_digits (Suc n) v @ t"] by (simp add: Suc.IH algebra_simps)
qed simp

lemma fixed_number_digits: "v < 10 ^ n \<Longrightarrow> fixed_number n (fixed_digits n v @ t) = Some (v, t)"
  by (simp add: fixed_number_def fixed_number_loop_digits)

lemma fixed_number_loop_inverse:
  "fixed_number_loop n w t = Some (v, t') \<Longrightarrow> \<exists>k < 10 ^ n. v = w * 10 ^ n + k \<and> t = fixed_digits n k @ t'"
proof (induction n arbitrary: t' v)
  case (Suc n)
  obtain v1 t1 where 1: "fixed_number_loop n w t = Some (v1, t1)" "is_digit (peek t1)" "v = v1 * 10 + digit_value (peek t1)" "t' = tl t1"
    using Suc.prems fixed_number_loop_append [of n 1 w t] by (auto split: option.splits if_splits)
  then have t1: "t1 = peek t1 # t'" by (cases t1) auto
  obtain k where k: "k < 10 ^ n" "v1 = w * 10 ^ n + k" "t = fixed_digits n k @ t1" using Suc.IH [OF 1(1)] by blast
  define d where "d = digit_value (peek t1)"
  have d: "d < 10" "digit d = peek t1" using 1(2) by (simp_all add: d_def digit_value_less digit_of_value)
  have "(10 * k + d) div 10 = k" "(10 * k + d) mod 10 = d" using d by simp_all
  then have "t = fixed_digits (Suc n) (10 * k + d) @ t'" using k(3) t1 d(2) by simp
  moreover have "10 * k + d < 10 ^ Suc n" using k(1) d(1) by simp
  moreover have "v = w * 10 ^ Suc n + (10 * k + d)" using 1(3) k(2) by (simp add: d_def)
  ultimately show ?case by blast
qed simp

lemma fixed_number_inverse: "fixed_number n t = Some (v, t') \<Longrightarrow> v < 10 ^ n \<and> t = fixed_digits n v @ t'"
  using fixed_number_loop_inverse [of n 0 t v t'] by (auto simp: fixed_number_def)

lemma expect_simps [simp]: "expect c (c # t) = Some t"
  by (simp add: expect_def)

lemma expect_inverse: "c \<noteq> NUL \<Longrightarrow> expect c t = Some t' \<Longrightarrow> t = c # t'"
  by (cases t) (auto simp: expect_def split: if_splits)

section \<open>Dates and their text\<close>

definition date_text :: "nat \<Rightarrow> nat \<Rightarrow> nat \<Rightarrow> nat \<Rightarrow> nat \<Rightarrow> string" where
  "date_text year month day hour minute = fixed_digits 4 year @ ''-'' @ fixed_digits 2 month @ ''-'' @ fixed_digits 2 day @ '' ''
     @ fixed_digits 2 hour @ '':'' @ fixed_digits 2 minute"

definition fields_ok :: "nat \<Rightarrow> nat \<Rightarrow> nat \<Rightarrow> nat \<Rightarrow> nat \<Rightarrow> nat \<Rightarrow> bool" where
  "fields_ok year month day hour minute second \<longleftrightarrow> year < 10000 \<and> 1 \<le> month \<and> month \<le> 12 \<and> 1 \<le> day \<and> day \<le> days_in ! month
     \<and> hour \<le> 23 \<and> minute \<le> 59 \<and> second \<le> 59"

lemma days_in_le: "1 \<le> m \<Longrightarrow> m \<le> 12 \<Longrightarrow> days_in ! m \<le> 31"
proof -
  assume "1 \<le> m" "m \<le> 12"
  then have "days_in ! m \<in> set days_in" by (intro nth_mem) (simp add: days_in_def)
  then show ?thesis by (auto simp: days_in_def)
qed

lemma parse_fields_text:
  assumes "fields_ok y m d h mi s"
  shows "parse_fields (date_text y m d h mi @ '':'' @ fixed_digits 2 s) = Some (y, m, d, h, mi, s)"
proof -
  have "d < 100" using assms days_in_le [of m] by (auto simp: fields_ok_def)
  then show ?thesis using assms
    by (simp add: parse_fields_def date_text_def fields_ok_def fixed_number_digits parse_seconds_def
        fixed_number_digits [where t = "[]", simplified])
qed

lemma parse_fields_inverse:
  assumes "parse_fields t = Some (y, m, d, h, mi, s)" and "cstring t"
  shows "fields_ok y m d h mi s" and "t = date_text y m d h mi @ '':'' @ fixed_digits 2 s \<or> s = 0 \<and> t = date_text y m d h mi"
proof -
  from assms(1) obtain t1 t2 t3 t4 t5 t6 t7 t8 t9 t10 where
    n: "fixed_number 4 t = Some (y, t1)" "expect (CHR ''-'') t1 = Some t2" "fixed_number 2 t2 = Some (m, t3)" "1 \<le> m" "m \<le> 12"
      "expect (CHR ''-'') t3 = Some t4" "fixed_number 2 t4 = Some (d, t5)" "1 \<le> d" "d \<le> days_in ! m" "expect (CHR '' '') t5 = Some t6"
      "fixed_number 2 t6 = Some (h, t7)" "h \<le> 23" "expect (CHR '':'') t7 = Some t8" "fixed_number 2 t8 = Some (mi, t9)" "mi \<le> 59"
      "parse_seconds t9 = Some (s, t10)" "peek t10 = NUL"
    by (auto simp: parse_fields_def Option.bind_eq_Some_conv split: if_splits)
  have s: "s \<le> 59" "t9 = '':'' @ fixed_digits 2 s @ t10 \<or> s = 0 \<and> t9 = t10"
    using n(16) fixed_number_inverse [of 2 "tl t9" s t10]
    by (auto simp: parse_seconds_def neq_Nil_conv split: if_splits option.splits intro!: disjI1) (cases t9; simp)+
  have t: "t = date_text y m d h mi @ t9"
    using n(1,3,7,11,14)[THEN fixed_number_inverse] n(2,6,10,13)[THEN expect_inverse [rotated]]
    by (simp add: date_text_def)
  moreover have "t10 = []"
    using assms(2) n(17) s(2) t by (cases t10) (auto simp: cstring_def)
  ultimately show "t = date_text y m d h mi @ '':'' @ fixed_digits 2 s \<or> s = 0 \<and> t = date_text y m d h mi"
    using s(2) by auto
  show "fields_ok y m d h mi s" using n s fixed_number_inverse [OF n(1)] by (simp add: fields_ok_def)
qed


text \<open>A date that comes back unchanged exists: the only wrong one the table lets through is a 29th of February.\<close>

lemma unchanged_day_valid:
  assumes "1 \<le> m" "m \<le> 12" "1 \<le> d" "d \<le> days_in ! m" and y: "y < 10000"
    and "snd (snd (civil_from_days (days_from_civil (int y) (int m) (int d)))) = int d"
  shows "valid_date (int y, int m, int d)"
proof (rule ccontr)
  assume bad: "\<not> valid_date (int y, int m, int d)"
  have "m \<in> {1, 2, 3, 4, 5, 6, 7, 8, 9, 10, 11, 12}" using assms(1,2) by (simp; presburger)
  then have "int d \<le> month_length (int y) (int m) \<or> m = 2 \<and> d = 29 \<and> \<not> leap (int y)"
    using assms(4) by (auto simp: month_length_def days_in_def)
  then have feb: "m = 2" "d = 29" "\<not> leap (int y)" using bad assms(1-3) by (auto simp: valid_date_def)
  have "days_of (int y, 2, 28) + 1 = days_of (int y, 3, 1)"
    using days_of_next_day [of "(int y, 2, 28)"] feb(3) by (simp add: valid_date_def next_day_def month_length_def)
  then have "days_from_civil (int y) 2 29 = days_from_civil (int y) 3 1"
    by (simp add: days_of_def days_from_civil_closed)
  moreover have "civil_from_days (days_from_civil (int y) 3 1) = (int y, 3, 1)"
    using y by (intro civil_from_days_of) (auto simp: valid_date_def month_length_def)
  ultimately show False using assms(6) feb by simp
qed

lemma days_from_civil_le:
  assumes "valid_date (y, m, d)" and "0 \<le> y" and "y < 10000"
  shows "days_from_civil y m d < 3660000"
proof -
  note v = valid_date_bounds [OF assms(1)]
  have mp: "0 \<le> march_month m" "march_month m \<le> 11" using v by (auto simp: march_month_def)
  then have "month_start (march_month m) \<le> 337" by (simp add: month_start_def)
  moreover have "days_before (march_year y m) \<le> 366 * 10000"
    using assms(2,3) by (auto simp: days_before_def march_year_def)
  ultimately show ?thesis using v by (simp add: days_from_civil_closed)
qed

lemma format_date_of:
  assumes "valid_date (int y, int m, int d)" and "y < 10000" and "h \<le> 23" "mi \<le> 59" "s \<le> 59"
    and t: "int (unat t) = days_from_civil (int y) (int m) (int d) * 86400 + int h * 3600 + int mi * 60 + int s"
  shows "format_date t = date_text y m d h mi @ '':'' @ fixed_digits 2 s"
proof -
  define r where "r = h * 3600 + mi * 60 + s"
  have r60: "r = 60 * (60 * h + mi) + s" and r3600: "r = 3600 * h + (60 * mi + s)" by (simp_all add: r_def)
  have "r div 60 = 60 * h + mi" "r mod 60 = s" using assms(5) unfolding r60 by (simp_all del: distrib_left_numeral)
  moreover have "r div 3600 = h" using assms(4,5) unfolding r3600 by simp
  ultimately have r: "r < 86400" "r div 3600 = h" "r div 60 mod 60 = mi" "r mod 60 = s"
    using assms(3-5) by (simp_all add: r_def)
  have t': "int (unat t) = int r + days_from_civil (int y) (int m) (int d) * 86400" using t by (simp add: r_def)
  have q: "int (unat t) div 86400 = days_from_civil (int y) (int m) (int d)" "int (unat t) mod 86400 = int r"
    using r(1) unfolding t' by simp_all
  have "uint (t div 86400) = days_from_civil (int y) (int m) (int d)" using q(1) by (simp add: uint_div)
  moreover have "unat (t mod 86400) = r" using q(2) by (simp add: unat_mod nat_mod_as_int)
  moreover have "civil_from_days (days_from_civil (int y) (int m) (int d)) = (int y, int m, int d)"
    using assms(1,2) by (intro civil_from_days_of) auto
  ultimately show ?thesis using r by (simp add: format_date_def date_text_def)
qed

lemma date_of_seconds:
  fixes t :: u64
  assumes "t < 253402300800"
  obtains y m d where "civil_from_days (uint (t div 86400)) = (int y, int m, int d)" "valid_date (int y, int m, int d)" "y < 10000"
    "days_from_civil (int y) (int m) (int d) = uint (t div 86400)"
proof -
  define z where "z = uint (t div 86400)"
  have z: "0 \<le> z" "z < 2932897" using assms by (simp add: z_def) (use assms in \<open>simp add: z_def uint_div word_less_def\<close>)
  obtain y m d where c: "civil_from_days z = (y, m, d)" "valid_date (y, m, d)" "0 \<le> y" "days_from_civil y m d = z"
    using civil_from_days_inverse [of z] z by auto
  note v = valid_date_bounds [OF c(2)]
  have before: "365 * w + 2424 \<le> days_before w" if "9999 \<le> w" for w :: int
  proof -
    have "2400 \<le> w div 4 - w div 100" "24 \<le> w div 400" using that by linarith+
    then show ?thesis by (simp add: days_before_def)
  qed
  have "y < 10000"
  proof (rule ccontr)
    assume y: "\<not> y < 10000"
    have "z = days_before (march_year y m) + month_start (march_month m) + d - 719469"
      using c(4) v by (simp add: days_from_civil_closed)
    moreover have "306 \<le> month_start (march_month m)" if "m \<le> 2"
      using that v unfolding month_start_def march_month_def by simp linarith
    moreover have "0 \<le> march_month m" using v by (simp add: march_month_def)
    then have "0 \<le> month_start (march_month m)" by (simp add: month_start_def)
    moreover have "9999 \<le> march_year y m" "m \<le> 2 \<or> 10000 \<le> march_year y m" using y by (auto simp: march_year_def)
    ultimately show False using before [of "march_year y m"] v z(2) by linarith
  qed
  then show ?thesis using that [of "nat y" "nat m" "nat d"] c v by (simp add: z_def)
qed


lemma rest_of_day:
  fixes t :: u64
  defines "r \<equiv> unat (t mod 86400)"
  shows "r div 3600 \<le> 23" "r div 60 mod 60 \<le> 59" "r mod 60 \<le> 59"
    "int (unat t) = uint (t div 86400) * 86400 + int (r div 3600) * 3600 + int (r div 60 mod 60) * 60 + int (r mod 60)"
proof -
  have r: "r < 86400" by (simp add: r_def unat_mod)
  then show "r div 3600 \<le> 23" by linarith
  show "r div 60 mod 60 \<le> 59" "r mod 60 \<le> 59" using mod_less_divisor [of 60 "r div 60"] mod_less_divisor [of 60 r] by linarith+
  have "r div 3600 = r div 60 div 60" by (simp add: div_mult2_eq [symmetric])
  then have "r = r div 3600 * 3600 + r div 60 mod 60 * 60 + r mod 60"
    using mult_div_mod_eq [of 60 r] mult_div_mod_eq [of 60 "r div 60"] by linarith
  moreover have "unat t = unat (t div 86400) * 86400 + r" by (simp add: r_def unat_div unat_mod)
  ultimately have "unat t = unat (t div 86400) * 86400 + (r div 3600 * 3600 + r div 60 mod 60 * 60 + r mod 60)" by simp
  then have "int (unat t) = int (unat (t div 86400) * 86400 + (r div 3600 * 3600 + r div 60 mod 60 * 60 + r mod 60))" by (simp only:)
  then show "int (unat t) = uint (t div 86400) * 86400 + int (r div 3600) * 3600 + int (r div 60 mod 60) * 60 + int (r mod 60)"
    by (simp add: add.assoc)
qed



end
