(* ===== verification/Uip.thy ===== *)
theory Uip
  imports Ctext
begin

text \<open>Internet addresses as text, from \<^verbatim>\<open>src/user/lib/ulib.c\<close>.\<close>

unbundle bit_operations_syntax

section \<open>The code\<close>

text \<open>The digits of one part: at most three, and no more than 255.\<close>

fun ip_digits :: "nat \<Rightarrow> nat \<Rightarrow> string \<Rightarrow> (nat \<times> string) option" where
  "ip_digits digits value [] = Some (value, [])"
| "ip_digits digits value (c # text) =
     (if is_digit c then
        let value = value * 10 + digit_value c; digits = digits + 1
        in if digits > 3 \<or> value > 255 then None else ip_digits digits value text
      else Some (value, c # text))"

fun ip_parts :: "nat \<Rightarrow> u32 \<Rightarrow> string \<Rightarrow> (u32 \<times> string) option" where
  "ip_parts 0 ip text = Some (ip, text)"
| "ip_parts (Suc left) ip text =
     (if \<not> is_digit (peek text) then None
      else case ip_digits 0 0 text of
        None \<Rightarrow> None
      | Some (value, text) \<Rightarrow>
          let ip = push_bit 8 ip OR of_nat value
          in if left > 0 then if peek text \<noteq> CHR ''.'' then None else ip_parts left ip (tl text)
             else ip_parts left ip text)"

definition parse_ip :: "string \<Rightarrow> u32" where
  "parse_ip text =
     (case ip_parts 4 0 text of
        None \<Rightarrow> 0
      | Some (ip, text) \<Rightarrow> if peek text = NUL then ip else 0)"

definition format_part :: "u32 \<Rightarrow> nat \<Rightarrow> string" where
  "format_part ip shift =
     (let part = unat (drop_bit shift ip AND 0xFF)
      in (if part \<ge> 100 then [digit (part div 100)] else []) @ (if part \<ge> 10 then [digit (part div 10 mod 10)] else [])
         @ [digit (part mod 10)] @ (if shift > 0 then ''.'' else []))"

definition format_ip :: "u32 \<Rightarrow> string" where
  "format_ip ip = concat (map (format_part ip) [24, 16, 8, 0])"

section \<open>The text of an address\<close>

definition part_text :: "nat \<Rightarrow> string" where
  "part_text p = (if p \<ge> 100 then [digit (p div 100)] else []) @ (if p \<ge> 10 then [digit (p div 10 mod 10)] else []) @ [digit (p mod 10)]"

lemma part_text_digit: "p < 256 \<Longrightarrow> is_digit (peek (part_text p @ t))"
  by (simp add: part_text_def)

lemma ip_digits_part:
  assumes "p < 256" and "\<not> is_digit (peek t)"
  shows "ip_digits 0 0 (part_text p @ t) = Some (p, t)"
proof -
  have stop: "ip_digits n p t = Some (p, t)" for n using assms(2) by (cases t) simp_all
  have "p div 100 = p div 10 div 10" by (simp flip: div_mult2_eq)
  then have p: "p div 100 < 10" "p = p div 100 * 100 + p div 10 mod 10 * 10 + p mod 10"
    using assms(1) mult_div_mod_eq [of 10 p] mult_div_mod_eq [of 10 "p div 10"] by linarith+
  consider "p < 10" | "10 \<le> p" "p < 100" | "100 \<le> p" by linarith
  then show ?thesis
  proof cases
    case 1
    then show ?thesis using stop by (simp add: part_text_def)
  next
    case 2
    then have "p div 10 mod 10 = p div 10" "p div 10 * 10 + p mod 10 = p" "p div 10 < 10" by simp_all
    then show ?thesis using 2 stop assms(1) by (simp add: part_text_def)
  next
    case 3
    have "(p div 100 * 10 + p div 10 mod 10) * 10 + p mod 10 = p" using p(2) by simp
    moreover have "p div 100 * 10 + p div 10 mod 10 \<le> 255" "p div 100 \<le> 255" using p by linarith+
    ultimately show ?thesis using 3 stop assms(1) p(1) by (simp add: part_text_def)
  qed
qed

lemma ip_parts_step:
  assumes "p < 256" and "0 < left"
  shows "ip_parts (Suc left) ip (part_text p @ ''.'' @ t) = ip_parts left (push_bit 8 ip OR of_nat p) t"
  using assms ip_digits_part [of p "''.'' @ t"] part_text_digit [of p "''.'' @ t"] by simp

lemma ip_parts_last:
  assumes "p < 256"
  shows "ip_parts (Suc 0) ip (part_text p) = Some (push_bit 8 ip OR of_nat p, [])"
  using assms ip_digits_part [of p "[]"] part_text_digit [of p "[]"] by simp

lemma format_ip_parses: "parse_ip (format_ip ip) = ip" and format_ip_fits: "length (format_ip ip) + 1 \<le> 16"
proof -
  define p where "p shift = unat (drop_bit shift ip AND 0xFF)" for shift
  have "drop_bit n ip AND 0xFF = take_bit 8 (drop_bit n ip)" for n
    by (simp add: take_bit_eq_mask mask_numeral)
  then have pn: "p n = unat (take_bit 8 (drop_bit n ip))" for n by (simp add: p_def)
  have p: "p n < 256" "word_of_nat (p n) = take_bit 8 (drop_bit n ip)" for n
    using take_bit_nat_less_exp [of 8 "unat (drop_bit n ip)"] by (simp add: pn unsigned_take_bit_eq) (simp only: pn of_nat_unat ucast_id)
  have f: "format_ip ip = part_text (p 24) @ ''.'' @ part_text (p 16) @ ''.'' @ part_text (p 8) @ ''.'' @ part_text (p 0)"
    by (simp add: format_ip_def format_part_def part_text_def p_def Let_def)
  have whole: "push_bit 8 (push_bit 8 (push_bit 8 (push_bit 8 0 OR word_of_nat (p 24)) OR word_of_nat (p 16)) OR word_of_nat (p 8)) OR word_of_nat (p 0) = ip"
    (is "?w = ip")
  proof (rule bit_word_eqI)
    fix n assume "n < LENGTH(32)"
    then consider "n < 8" | "8 \<le> n" "n < 16" | "16 \<le> n" "n < 24" | "24 \<le> n" "n < 32" by fastforce
    then show "bit ?w n = bit ip n" unfolding p(2)
      by cases (simp_all add: bit_or_iff bit_push_bit_iff bit_take_bit_iff bit_drop_bit_eq less_diff_conv2)
  qed
  have four: "(4 :: nat) = Suc (Suc (Suc (Suc 0)))" by simp
  have "ip_parts 4 0 (format_ip ip) = Some (ip, [])"
    unfolding f four by (simp only: ip_parts_step [OF p(1)] ip_parts_last [OF p(1)] whole zero_less_Suc)
  moreover have len: "length (part_text n) \<le> 3" for n by (simp add: part_text_def)
  have "length (format_ip ip) \<le> 15" using len [of "p 24"] len [of "p 16"] len [of "p 8"] len [of "p 0"] by (simp add: f)
  ultimately show "parse_ip (format_ip ip) = ip" "length (format_ip ip) + 1 \<le> 16" by (simp_all add: parse_ip_def)
qed

section \<open>What is an address\<close>

text \<open>A text cut at the characters with a property, and the address its four parts spell, each a number of one to three digits up to 255.\<close>

fun cut_at :: "(char \<Rightarrow> bool) \<Rightarrow> string \<Rightarrow> string list" where
  "cut_at P [] = [[]]"
| "cut_at P (c # t) = (if P c then [] # cut_at P t else (c # hd (cut_at P t)) # tl (cut_at P t))"

definition number :: "string \<Rightarrow> nat" where
  "number ds = foldl (\<lambda>v c. v * 10 + (of_char c - 48)) 0 ds"

definition byte_text :: "string \<Rightarrow> bool" where
  "byte_text p \<longleftrightarrow> p \<noteq> [] \<and> length p \<le> 3 \<and> set p \<subseteq> set ''0123456789'' \<and> number p \<le> 255"

definition dotted :: "string \<Rightarrow> u32" where
  "dotted t = (let ps = cut_at (\<lambda>c. c = CHR ''.'') t
     in if length ps = 4 \<and> list_all byte_text ps then foldl (\<lambda>ip p. ip * 256 + of_nat (number p)) 0 ps else 0)"

lemma cut_at_ne [simp]: "cut_at P t \<noteq> []"
  by (cases t) auto

lemma cut_at_append: "\<forall>c\<in>set w. \<not> P c \<Longrightarrow> cut_at P (w @ t) = (w @ hd (cut_at P t)) # tl (cut_at P t)"
  by (induction w) auto

lemma is_digit_set: "is_digit c \<longleftrightarrow> c \<in> set ''0123456789''"
proof
  assume "is_digit c"
  then have "48 \<le> code c \<and> code c \<le> 57" by (simp add: is_digit_def)
  moreover have "48 \<le> n \<and> n \<le> 57 \<Longrightarrow> n \<in> {48, 49, 50, 51, 52, 53, 54, 55, 56, 57}" for n :: nat unfolding insert_iff empty_iff by presburger
  ultimately have "code c \<in> {48, 49, 50, 51, 52, 53, 54, 55, 56, 57}" by blast
  then have "c \<in> char_of ` {48, 49, 50, 51, 52, 53, 54, 55, 56, 57 :: nat}" by (metis char_of_char image_eqI)
  then show "c \<in> set ''0123456789''" by (simp add: char_of_def bit_0)
qed (auto simp: is_digit_def)

lemma foldl_digits_ge: "(v :: nat) \<le> foldl (\<lambda>v c. v * 10 + f c) v ds"
proof (induction ds arbitrary: v)
  case (Cons c ds)
  show ?case using Cons.IH [of "v * 10 + f c"] unfolding foldl_Cons by linarith
qed simp

lemma ip_digits_number:
  "n + length (takeWhile is_digit t) \<le> 3 \<and> foldl (\<lambda>v c. v * 10 + digit_value c) v (takeWhile is_digit t) \<le> 255 \<Longrightarrow>
     ip_digits n v t = Some (foldl (\<lambda>v c. v * 10 + digit_value c) v (takeWhile is_digit t), dropWhile is_digit t)"
  "n \<le> 3 \<Longrightarrow> v \<le> 255 \<Longrightarrow> \<not> (n + length (takeWhile is_digit t) \<le> 3 \<and> foldl (\<lambda>v c. v * 10 + digit_value c) v (takeWhile is_digit t) \<le> 255)
     \<Longrightarrow> ip_digits n v t = None"
proof (induction t arbitrary: n v)
  case (Cons c t)
  {
    case 1
    have "v * 10 + digit_value c \<le> foldl (\<lambda>v c. v * 10 + digit_value c) (v * 10 + digit_value c) (takeWhile is_digit t)" by (rule foldl_digits_ge)
    then show ?case using 1 Cons.IH(1) [of "n + 1" "v * 10 + digit_value c"] by (cases "is_digit c") (auto simp: Let_def)
  next
    case 2
    then show ?case using Cons.IH(2) [of "n + 1" "v * 10 + digit_value c"] by (cases "is_digit c") (auto simp: Let_def)
  }
qed simp_all

text \<open>A part of a text: its digits, if they are all of it up to the next dot or the end.\<close>

lemma digits_part:
  "cut_at (\<lambda>c. c = CHR ''.'') t = p # ps \<Longrightarrow>
     (list_all is_digit p \<longrightarrow> takeWhile is_digit t = p \<and> (if ps = [] then dropWhile is_digit t = []
        else dropWhile is_digit t \<noteq> [] \<and> peek (dropWhile is_digit t) = CHR ''.'' \<and> cut_at (\<lambda>c. c = CHR ''.'') (tl (dropWhile is_digit t)) = ps))
   \<and> (\<not> list_all is_digit p \<longrightarrow> dropWhile is_digit t \<noteq> [] \<and> peek (dropWhile is_digit t) \<noteq> CHR ''.'')"
proof (induction t arbitrary: p)
  case (Cons c t)
  show ?case
  proof (cases "c = CHR ''.''")
    case True
    then show ?thesis using Cons.prems by auto
  next
    case False
    then obtain q where q: "cut_at (\<lambda>c. c = CHR ''.'') t = q # ps" "p = c # q" using Cons.prems by (cases "cut_at (\<lambda>c. c = CHR ''.'') t") auto
    then show ?thesis using Cons.IH [OF q(1)] False by (cases "is_digit c") auto
  qed
qed auto

lemma push_byte: "b < 256 \<Longrightarrow> push_bit 8 ip OR of_nat b = ip * 256 + (of_nat b :: u32)"
proof -
  assume b: "b < 256"
  have "bit (of_nat b :: u32) n \<Longrightarrow> n < 8" for n
  proof (rule ccontr)
    assume n: "bit (of_nat b :: u32) n" "\<not> n < 8"
    have "b < 2 ^ n" using b n(2) power_increasing [of 8 n "2 :: nat"] by simp
    moreover have "bit b n" using n(1) by (simp add: bit_of_nat_iff)
    ultimately show False by (simp add: bit_iff_odd)
  qed
  then have "push_bit 8 ip AND of_nat b = 0" by (intro bit_word_eqI) (force simp: bit_simps)
  then have "push_bit 8 ip OR of_nat b = push_bit 8 ip + of_nat b" by (simp add: disjunctive_add_eq_or)
  then show ?thesis by (simp add: push_bit_eq_mult mult.commute)
qed

lemma byte_text_digits: "byte_text p \<longleftrightarrow> p \<noteq> [] \<and> length p \<le> 3 \<and> list_all is_digit p \<and> number p \<le> 255"
  unfolding byte_text_def list_all_iff is_digit_set by blast

lemma ip_digits_part_text:
  "ip_digits 0 0 t = (let p = takeWhile is_digit t in if length p \<le> 3 \<and> number p \<le> 255 then Some (number p, dropWhile is_digit t) else None)"
  using ip_digits_number [where n = 0 and t = t and v = 0] unfolding number_def digit_value_def Let_def by auto

lemma digit_first: "is_digit (peek t) \<longleftrightarrow> takeWhile is_digit t \<noteq> []"
  by (cases t) auto

lemma ip_parts_dotted:
  "(case ip_parts (Suc left) ip t of None \<Rightarrow> None | Some (ip, u) \<Rightarrow> if u = [] then Some ip else None)
    = (let ps = cut_at (\<lambda>c. c = CHR ''.'') t in if length ps = Suc left \<and> list_all byte_text ps then Some (foldl (\<lambda>ip p. ip * 256 + of_nat (number p)) ip ps) else None)"
proof (induction left arbitrary: ip t)
  case 0
  obtain p ps where c: "cut_at (\<lambda>c. c = CHR ''.'') t = p # ps" by (cases "cut_at (\<lambda>c. c = CHR ''.'') t") auto
  show ?case using digits_part [OF c] push_byte [of "number p" ip]
    by (cases "list_all is_digit p"; cases "ps = []") (auto simp: c digit_first ip_digits_part_text byte_text_digits Let_def)
next
  case (Suc left)
  obtain p ps where c: "cut_at (\<lambda>c. c = CHR ''.'') t = p # ps" by (cases "cut_at (\<lambda>c. c = CHR ''.'') t") auto
  define d rest where "d = takeWhile is_digit t" and "rest = dropWhile is_digit t"
  have step: "ip_parts (Suc (Suc left)) ip t = (if d \<noteq> [] \<and> length d \<le> 3 \<and> number d \<le> 255 \<and> peek rest = CHR ''.''
      then ip_parts (Suc left) (ip * 256 + of_nat (number d)) (tl rest) else None)"
    unfolding ip_parts.simps(2) [of "Suc left"] digit_first ip_digits_part_text d_def [symmetric] rest_def [symmetric] Let_def
    using push_byte [of "number d" ip] by auto
  note part = digits_part [OF c, folded d_def rest_def]
  show ?case
  proof (cases "list_all is_digit p \<and> ps \<noteq> []")
    case True
    then have "d = p" "peek rest = CHR ''.''" "cut_at (\<lambda>c. c = CHR ''.'') (tl rest) = ps" using part by auto
    then show ?thesis unfolding step c using Suc.IH [of "ip * 256 + of_nat (number p)" "tl rest"] True by (auto simp: byte_text_digits Let_def)
  next
    case False
    then have "\<not> (list_all byte_text (p # ps) \<and> length (p # ps) = Suc (Suc left))" by (auto simp: byte_text_digits)
    moreover have "peek rest \<noteq> CHR ''.''" using part False by (cases "ps = []") auto
    ultimately show ?thesis unfolding step c by auto
  qed
qed

text \<open>What is read as an address is exactly a dotted one.\<close>

lemma ip_parts_rest: "NUL \<notin> set t \<Longrightarrow> ip_parts n ip t = Some (ip', u) \<Longrightarrow> NUL \<notin> set u"
proof (induction n ip t rule: ip_parts.induct)
  case (2 left ip t)
  have digits: "ip_digits n v t = Some (v', u) \<Longrightarrow> set u \<subseteq> set t" for n v v' u
    by (induction n v t rule: ip_digits.induct) (auto simp: Let_def split: if_splits)
  obtain v w where v: "ip_digits 0 0 t = Some (v, w)" "is_digit (peek t)" using "2.prems"(2) by (auto split: if_splits option.splits)
  then have "NUL \<notin> set w" "NUL \<notin> set (tl w)" using digits [OF v(1)] "2.prems"(1) list.set_sel(2) [of w] by (cases w; auto)+
  then show ?case using 2 v by (auto simp: Let_def split: if_splits)
qed simp

lemma parse_ip_dotted:
  assumes "NUL \<notin> set t"
  shows "parse_ip t = dotted t"
proof -
  have four: "4 = Suc 3" by simp
  have "parse_ip t = (case (case ip_parts 4 0 t of None \<Rightarrow> None | Some (ip, u) \<Rightarrow> if u = [] then Some ip else None) of None \<Rightarrow> 0 | Some ip \<Rightarrow> ip)"
    using ip_parts_rest [OF assms, of 4 0] unfolding parse_ip_def by (auto split: option.splits list.splits simp: peek_def)
  also have "\<dots> = dotted t" unfolding four ip_parts_dotted dotted_def Let_def by simp
  finally show ?thesis .
qed

text \<open>
  C36. Every address survives being printed and read back, and its text with the final zero fits the
  sixteen bytes the callers provide.
\<close>

theorem ip_roundtrip: "parse_ip (format_ip ip) = ip \<and> length (format_ip ip) + 1 \<le> 16"
  using format_ip_parses format_ip_fits by blast

end
