(* ===== verification/Udns.thy ===== *)
theory Udns
  imports Uip "HOL-Library.Monad_Syntax"
begin

text \<open>
  Name resolution through the DNS, from \<^verbatim>\<open>src/user/lib/ulib.c\<close>: building a query, reading the answer
  and asking a server. The parser reads the message through \<open>rd\<close>, which gives \<^const>\<open>None\<close> outside the
  bytes that were received, so that a read out of bounds would be visible in the result.
\<close>

unbundle bit_operations_syntax

section \<open>The code\<close>

abbreviation (input) "DNS_TYPE_A \<equiv> 1 :: nat"
abbreviation (input) "DNS_CLASS_IN \<equiv> 1 :: nat"

subsection \<open>Building a query\<close>

definition text_bytes :: "string \<Rightarrow> u8 list" where
  "text_bytes s = map of_char s"

text \<open>The loop over the labels of the name; a trailing dot is allowed.\<close>

function dns_labels :: "string \<Rightarrow> errno + u8 list" where
  "dns_labels name =
     (if name = [] then Inr []
      else let label = takeWhile (\<lambda>c. c \<noteq> CHR ''.'') name; rest = dropWhile (\<lambda>c. c \<noteq> CHR ''.'') name
        in if length label = 0 \<or> length label > 63 then Inl EINVAL
           else let out = of_nat (length label) # text_bytes label
             in if peek rest = CHR ''.'' then
                  if tl rest = [] then Inr out
                  else case dns_labels (tl rest) of Inl e \<Rightarrow> Inl e | Inr more \<Rightarrow> Inr (out @ more)
                else Inr out)"
  by pat_completeness auto
termination
proof (relation "measure length")
  fix name :: string and x rest
  assume "name \<noteq> []" and "rest = dropWhile (\<lambda>c. c \<noteq> CHR ''.'') name" and "peek rest = CHR ''.''"
  then have "length rest \<le> length name" "0 < length name" by (simp_all add: length_dropWhile_le)
  then have "length rest - 1 < length name" by linarith
  then show "(tl rest, name) \<in> measure length" by simp
qed simp

declare dns_labels.simps [simp del]

definition dns_build_query :: "nat \<Rightarrow> u32 \<Rightarrow> string \<Rightarrow> errno + u8 list" where
  "dns_build_query sz ident name =
     (let name_len = length name
      in if name_len = 0 \<or> name_len > 253 \<or> sz < 12 + name_len + 2 + 4 then Inl EINVAL
         else case dns_labels name of
           Inl e \<Rightarrow> Inl e
         | Inr labels \<Rightarrow> Inr ([ucast (drop_bit 8 ident), ucast ident, 0x01, 0, 0, 1, 0, 0, 0, 0, 0, 0] @ labels @ [0, 0, 1, 0, 1]))"

subsection \<open>Reading a reply\<close>

definition rd :: "u8 list \<Rightarrow> nat \<Rightarrow> u8 option" where
  "rd buf i = (if i < length buf then Some (buf ! i) else None)"

definition rd16 :: "u8 list \<Rightarrow> nat \<Rightarrow> nat option" where
  "rd16 buf i = do { hi \<leftarrow> rd buf i; lo \<leftarrow> rd buf (i + 1); Some (unat hi * 256 + unat lo) }"

function dns_skip_name :: "u8 list \<Rightarrow> nat \<Rightarrow> nat option" where
  "dns_skip_name buf pos =
     (if pos < length buf then do {
        n \<leftarrow> rd buf pos;
        if n = 0 then Some (pos + 1)
        else if n AND 0xC0 = 0xC0 then Some (if pos + 2 \<le> length buf then pos + 2 else 0)
        else if n AND 0xC0 \<noteq> 0 then Some 0
        else dns_skip_name buf (pos + (1 + unat n))
      } else Some 0)"
  by pat_completeness auto
termination by (relation "measure (\<lambda>(buf, pos). length buf - pos)") auto

declare dns_skip_name.simps [simp del]

fun dns_questions :: "u8 list \<Rightarrow> nat \<Rightarrow> nat \<Rightarrow> (errno + nat) option" where
  "dns_questions buf 0 pos = Some (Inr pos)"
| "dns_questions buf (Suc i) pos = do {
     pos \<leftarrow> dns_skip_name buf pos;
     if pos = 0 \<or> pos + 4 > length buf then Some (Inl EINVAL) else dns_questions buf i (pos + 4)
   }"

fun dns_answers :: "u8 list \<Rightarrow> nat \<Rightarrow> nat \<Rightarrow> (errno + u32) option" where
  "dns_answers buf 0 pos = Some (Inl ENOENT)"
| "dns_answers buf (Suc i) pos = do {
     pos \<leftarrow> dns_skip_name buf pos;
     if pos = 0 \<or> pos + 10 > length buf then Some (Inl EINVAL)
     else do {
       type \<leftarrow> rd16 buf pos;
       class \<leftarrow> rd16 buf (pos + 2);
       data_len \<leftarrow> rd16 buf (pos + 8);
       let pos = pos + 10;
       if pos + data_len > length buf then Some (Inl EINVAL)
       else if type = DNS_TYPE_A \<and> class = DNS_CLASS_IN \<and> data_len = 4 then do {
         a \<leftarrow> rd buf pos; b \<leftarrow> rd buf (pos + 1); c \<leftarrow> rd buf (pos + 2); d \<leftarrow> rd buf (pos + 3);
         Some (Inr (push_bit 24 (ucast a) OR push_bit 16 (ucast b) OR push_bit 8 (ucast c) OR ucast d))
       } else dns_answers buf i (pos + data_len)
     }
   }"

definition dns_parse_reply :: "u8 list \<Rightarrow> u32 \<Rightarrow> (errno + u32) option" where
  "dns_parse_reply buf ident =
     (if length buf < 12 then Some (Inl EINVAL)
      else do {
        reply_ident \<leftarrow> rd16 buf 0;
        flags \<leftarrow> rd buf 2;
        low \<leftarrow> rd buf 3;
        let rcode = low AND 0x0F;
        if reply_ident \<noteq> unat (ident AND 0xFFFF) then Some (Inl EINVAL)
        else if flags AND 0x80 = 0 then Some (Inl EINVAL)
        else if rcode = 3 then Some (Inl ENOENT)
        else if rcode \<noteq> 0 then Some (Inl EINVAL)
        else do {
          questions \<leftarrow> rd16 buf 4;
          answers \<leftarrow> rd16 buf 6;
          r \<leftarrow> dns_questions buf questions 12;
          (case r of Inl e \<Rightarrow> Some (Inl e) | Inr pos \<Rightarrow> dns_answers buf answers pos)
        }
      })"

section \<open>No read outside the message\<close>

lemma rd_Some: "i < length buf \<Longrightarrow> \<exists>b. rd buf i = Some b"
  by (simp add: rd_def)

lemma rd16_Some: "i + 1 < length buf \<Longrightarrow> \<exists>b. rd16 buf i = Some b"
  by (simp add: rd16_def rd_def)

lemma dns_skip_name_Some: "\<exists>p. dns_skip_name buf pos = Some p"
proof (induction buf pos rule: dns_skip_name.induct)
  case (1 buf pos)
  then show ?case by (subst dns_skip_name.simps) (auto simp: rd_def)
qed

lemma dns_questions_Some: "\<exists>r. dns_questions buf n pos = Some r"
proof (induction n arbitrary: pos)
  case (Suc n)
  obtain p where "dns_skip_name buf pos = Some p" using dns_skip_name_Some by blast
  then show ?case using Suc by simp
qed simp

lemma dns_answers_Some: "\<exists>r. dns_answers buf n pos = Some r"
proof (induction n arbitrary: pos)
  case (Suc n)
  obtain p where p: "dns_skip_name buf pos = Some p" using dns_skip_name_Some by blast
  then show ?case
  proof (cases "p = 0 \<or> p + 10 > length buf")
    case False
    then obtain t c l where "rd16 buf p = Some t" "rd16 buf (p + 2) = Some c" "rd16 buf (p + 8) = Some l"
      using rd16_Some [of p buf] rd16_Some [of "p + 2" buf] rd16_Some [of "p + 8" buf] by auto
    then show ?thesis using p False Suc by (auto simp: rd_def Let_def)
  qed (use p in auto)
qed simp

text \<open>
  C16. The parser never reads outside the message it was given, and it ends, for every sequence of bytes
  anyone may send: loops in the compressed names, lengths that run off the end and wrong counts included.
\<close>

theorem dns_parse_safe: "\<exists>result. dns_parse_reply buf ident = Some result"
proof (cases "length buf < 12")
  case False
  then obtain a b c d e where r: "rd16 buf 0 = Some a" "rd buf 2 = Some b" "rd buf 3 = Some c" "rd16 buf 4 = Some d" "rd16 buf 6 = Some e"
    using rd16_Some [of 0 buf] rd_Some [of 2 buf] rd_Some [of 3 buf] rd16_Some [of 4 buf] rd16_Some [of 6 buf] by auto
  obtain q where q: "dns_questions buf d 12 = Some q" using dns_questions_Some by blast
  show ?thesis using False r q dns_answers_Some unfolding dns_parse_reply_def
    by (auto simp: Let_def split: sum.splits)
qed (simp add: dns_parse_reply_def)


section \<open>The wire format\<close>

text \<open>A name on the wire: its labels, then either the end or a pointer (two bytes, the top two bits set).\<close>

definition wire_labels :: "u8 list list \<Rightarrow> u8 list" where
  "wire_labels ls = concat (map (\<lambda>l. of_nat (length l) # l) ls)"

definition wire_name :: "u8 list list \<times> (u8 \<times> u8) option \<Rightarrow> u8 list" where
  "wire_name n = wire_labels (fst n) @ (case snd n of None \<Rightarrow> [0] | Some (hi, lo) \<Rightarrow> [hi OR 0xC0, lo])"

definition label_ok :: "u8 list \<Rightarrow> bool" where
  "label_ok l \<longleftrightarrow> 0 < length l \<and> length l < 64"

lemma label_length:
  assumes "label_ok l"
  shows "unat (of_nat (length l) :: u8) = length l" and "(of_nat (length l) :: u8) \<noteq> 0" and "(of_nat (length l) :: u8) AND 0xC0 = 0"
proof -
  let ?w = "of_nat (length l) :: u8"
  show u: "unat ?w = length l" using assms by (simp add: label_ok_def unat_of_nat)
  then show "?w \<noteq> 0" using assms by (auto simp: label_ok_def)
  have "take_bit 6 ?w = ?w"
    using assms u by (simp add: word_unat_eq_iff unsigned_take_bit_eq label_ok_def take_bit_nat_eq_self)
  then have "?w AND 0xC0 = take_bit 6 ?w AND 0xC0" by simp
  also have "\<dots> = 0" by (rule bit_word_eqI) (auto simp: bit_simps elim!: less_SucE simp: numeral_eq_Suc)
  finally show "?w AND 0xC0 = 0" .
qed

lemma rd_middle: "rd (pre @ x # post) (length pre) = Some x"
  by (simp add: rd_def)

lemma skip_label:
  assumes "label_ok l"
  shows "dns_skip_name (pre @ (of_nat (length l) # l) @ post) (length pre) =
    dns_skip_name ((pre @ of_nat (length l) # l) @ post) (length (pre @ of_nat (length l) # l))"
  using label_length [OF assms] by (subst dns_skip_name.simps) (simp add: rd_middle)

lemma skip_labels:
  "list_all label_ok ls \<Longrightarrow> dns_skip_name (pre @ wire_labels ls @ post) (length pre) =
    dns_skip_name (pre @ wire_labels ls @ post) (length pre + length (wire_labels ls))"
proof (induction ls arbitrary: pre)
  case (Cons l ls)
  then show ?case
    using skip_label [of l pre "wire_labels ls @ post"] Cons.IH [of "pre @ of_nat (length l) # l"] by (simp add: wire_labels_def add.assoc)
qed (simp add: wire_labels_def)

lemma or_C0: "((hi :: u8) OR 0xC0) AND 0xC0 = 0xC0" "hi OR 0xC0 \<noteq> 0"
proof -
  show c: "(hi OR 0xC0) AND 0xC0 = 0xC0" by (rule bit_word_eqI) (auto simp: bit_simps)
  show "hi OR 0xC0 \<noteq> 0"
  proof
    assume "hi OR 0xC0 = 0"
    from c [unfolded this] show False by simp
  qed
qed

lemma dns_skip_wire:
  assumes "list_all label_ok (fst n)"
  shows "dns_skip_name (pre @ wire_name n @ post) (length pre) = Some (length pre + length (wire_name n))"
proof -
  define mid where "mid = pre @ wire_labels (fst n)"
  have "dns_skip_name (mid @ x # y # post') (length mid) = Some (length mid + (if x = 0 then 1 else 2))"
    if "x = 0 \<or> x AND 0xC0 = 0xC0" for x y post'
    using that by (subst dns_skip_name.simps) (auto simp: rd_middle)
  moreover have "dns_skip_name (mid @ 0 # post) (length mid) = Some (length mid + 1)"
    by (subst dns_skip_name.simps) (simp add: rd_middle)
  ultimately show ?thesis
    using skip_labels [OF assms, of pre] or_C0 unfolding wire_name_def mid_def by (auto split: option.splits)
qed


section \<open>The query\<close>

fun join_dots :: "string list \<Rightarrow> string" where
  "join_dots [] = []"
| "join_dots [l] = l"
| "join_dots (l # ls) = l @ ''.'' @ join_dots ls"

lemma join_dots_Cons: "ls \<noteq> [] \<Longrightarrow> join_dots (l # ls) = l @ ''.'' @ join_dots ls"
  by (cases ls) simp_all

lemma length_text_bytes [simp]: "length (text_bytes s) = length s"
  by (simp add: text_bytes_def)

lemma dns_labels_wire:
  "dns_labels name = Inr out \<Longrightarrow> name \<noteq> [] \<Longrightarrow> \<exists>ls. ls \<noteq> [] \<and> out = wire_labels (map text_bytes ls)
    \<and> list_all (\<lambda>l. label_ok (text_bytes l) \<and> CHR ''.'' \<notin> set l) ls \<and> name \<in> {join_dots ls, join_dots ls @ ''.''}"
proof (induction name arbitrary: out rule: dns_labels.induct)
  case (1 name)
  define label rest where "label = takeWhile (\<lambda>c. c \<noteq> CHR ''.'') name" and "rest = dropWhile (\<lambda>c. c \<noteq> CHR ''.'') name"
  have name: "name = label @ rest" by (simp add: label_def rest_def)
  have dot: "CHR ''.'' \<notin> set label" by (auto simp: label_def dest: set_takeWhileD)
  have rest: "rest = [] \<or> rest = CHR ''.'' # tl rest"
  proof (cases rest)
    case (Cons c cs)
    have "\<not> c \<noteq> CHR ''.''" by (rule conjunct2 [OF Cons [unfolded rest_def dropWhile_eq_Cons_conv]])
    with Cons show ?thesis by simp
  qed simp
  define first where "first = of_nat (length label) # text_bytes label"
  have len: "\<not> (length label = 0 \<or> length label > 63)"
    and out: "(if peek rest = CHR ''.'' then if tl rest = [] then Inr first
      else case dns_labels (tl rest) of Inl e \<Rightarrow> Inl e | Inr more \<Rightarrow> Inr (first @ more) else Inr first) = Inr out"
    using "1.prems" unfolding dns_labels.simps [of name] Let_def label_def [symmetric] rest_def [symmetric] first_def [symmetric]
    by (auto split: if_splits)
  have ok: "label_ok (text_bytes label)" using len by (simp add: label_ok_def)
  show ?case
  proof (cases "peek rest = CHR ''.'' \<and> tl rest \<noteq> []")
    case True
    then obtain more where m: "dns_labels (tl rest) = Inr more" "out = first @ more" using out by (auto split: sum.splits)
    obtain ls where ls: "ls \<noteq> []" "more = wire_labels (map text_bytes ls)" "list_all (\<lambda>l. label_ok (text_bytes l) \<and> CHR ''.'' \<notin> set l) ls"
      "tl rest \<in> {join_dots ls, join_dots ls @ ''.''}"
      using "1.IH" [OF "1.prems"(2) label_def rest_def len first_def _ _ m(1)] True by blast
    have "name = label @ ''.'' @ tl rest" using name rest True by auto
    with ls have "name \<in> {join_dots (label # ls), join_dots (label # ls) @ ''.''}" by (auto simp: join_dots_Cons)
    moreover have "out = wire_labels (map text_bytes (label # ls))" using m(2) ls(2) by (simp add: wire_labels_def first_def)
    ultimately show ?thesis using ok dot ls(3) by (intro exI [of _ "label # ls"]) simp
  next
    case False
    then have "out = first" "name \<in> {label, label @ ''.''}" using out name rest by (cases rest; auto split: if_splits)+
    then show ?thesis using ok dot by (intro exI [of _ "[label]"]) (simp add: wire_labels_def first_def)
  qed
qed

lemma length_wire_labels: "ls \<noteq> [] \<Longrightarrow> length (wire_labels (map text_bytes ls)) = length (join_dots ls) + 1"
  by (induction ls rule: join_dots.induct) (simp_all add: wire_labels_def)

text \<open>
  C38. A query that is built asks for exactly the name that was given: after the header come the labels
  of the name in the format of RFC 1035, each between 1 and 63 bytes, and a question of type A and class
  IN; a trailing dot makes no difference. It never takes more room than the caller gave, and the parser
  steps over its question.
\<close>

theorem dns_query_wire:
  assumes "dns_build_query room ident name = Inr query"
  shows "length query \<le> room
    \<and> dns_skip_name query 12 = Some (length query - 4)
    \<and> (\<exists>labels. query = [ucast (drop_bit 8 ident), ucast ident, 1, 0, 0, 1, 0, 0, 0, 0, 0, 0]
            @ wire_name (map text_bytes labels, None) @ [0, 1, 0, 1]
         \<and> (\<forall>l\<in>set labels. 1 \<le> length l \<and> length l \<le> 63 \<and> CHR ''.'' \<notin> set l)
         \<and> name \<in> {join_dots labels, join_dots labels @ ''.''})"
proof -
  define header where "header = [ucast (drop_bit 8 ident), ucast ident, 1, 0, 0, 1, 0, 0, 0, 0, 0, 0 :: u8]"
  obtain out where o: "dns_labels name = Inr out" "name \<noteq> []" "12 + length name + 6 \<le> room" "query = header @ out @ [0, 0, 1, 0, 1]"
    using assms by (auto simp: dns_build_query_def header_def Let_def split: if_splits sum.splits)
  obtain ls where ls: "ls \<noteq> []" "out = wire_labels (map text_bytes ls)" "list_all (\<lambda>l. label_ok (text_bytes l) \<and> CHR ''.'' \<notin> set l) ls"
    "name \<in> {join_dots ls, join_dots ls @ ''.''}" using dns_labels_wire [OF o(1,2)] by blast
  have q: "query = header @ wire_name (map text_bytes ls, None) @ [0, 1, 0, 1]"
    unfolding o(4) ls(2) by (simp add: wire_name_def)
  have h: "length header = 12" by (simp add: header_def)
  have "length out \<le> length name + 1" using length_wire_labels [OF ls(1)] ls(2,4) by auto
  then have "length query \<le> room" using o(3,4) h by simp
  moreover have "list_all label_ok (map text_bytes ls)" using ls(3) by (auto simp: list_all_iff)
  then have "dns_skip_name query 12 = Some (length query - 4)"
    using dns_skip_wire [of "(map text_bytes ls, None)" header "[0, 1, 0, 1]"] h unfolding q by simp
  moreover have "\<forall>l\<in>set ls. 1 \<le> length l \<and> length l \<le> 63 \<and> CHR ''.'' \<notin> set l"
    using ls(3) by (auto simp: list_all_iff label_ok_def Suc_le_eq)
  ultimately show ?thesis using q ls(4) unfolding header_def by blast
qed

theorem dns_query_wire_witness:
  "dns_build_query 300 7 ''ab.c.'' = Inr [0, 7, 1, 0, 0, 1, 0, 0, 0, 0, 0, 0, 2, 97, 98, 1, 99, 0, 0, 1, 0, 1]
   \<and> dns_skip_name [0, 7, 1, 0, 0, 1, 0, 0, 0, 0, 0, 0, 2, 97, 98, 1, 99, 0, 0, 1, 0, 1] 12 = Some 18"
proof -
  have "dns_labels ''c.'' = Inr [1, 99]" by (simp add: dns_labels.simps [of "''c.''"] text_bytes_def)
  then have "dns_labels ''ab.c.'' = Inr [2, 97, 98, 1, 99]" by (simp add: dns_labels.simps [of "''ab.c.''"] text_bytes_def)
  then have q: "dns_build_query 300 7 ''ab.c.'' = Inr [0, 7, 1, 0, 0, 1, 0, 0, 0, 0, 0, 0, 2, 97, 98, 1, 99, 0, 0, 1, 0, 1]"
    by (simp add: dns_build_query_def)
  from conjunct1 [OF conjunct2 [OF dns_query_wire [OF q]]] q show ?thesis by simp
qed


section \<open>The reply\<close>

record rr =
  rr_name :: "u8 list list \<times> (u8 \<times> u8) option"
  rr_type :: nat
  rr_class :: nat
  rr_ttl :: "u8 list"
  rr_data :: "u8 list"

definition wire16 :: "nat \<Rightarrow> u8 list" where
  "wire16 n = [of_nat (n div 256), of_nat n]"

definition wire_rr :: "rr \<Rightarrow> u8 list" where
  "wire_rr r = wire_name (rr_name r) @ wire16 (rr_type r) @ wire16 (rr_class r) @ rr_ttl r @ wire16 (length (rr_data r)) @ rr_data r"

definition rr_ok :: "rr \<Rightarrow> bool" where
  "rr_ok r \<longleftrightarrow> list_all label_ok (fst (rr_name r)) \<and> rr_type r < 65536 \<and> rr_class r < 65536 \<and> length (rr_ttl r) = 4 \<and> length (rr_data r) < 65536"

definition question_ok :: "(u8 list list \<times> (u8 \<times> u8) option) \<times> u8 list \<Rightarrow> bool" where
  "question_ok q \<longleftrightarrow> list_all label_ok (fst (fst q)) \<and> length (snd q) = 4"

definition wire_question :: "(u8 list list \<times> (u8 \<times> u8) option) \<times> u8 list \<Rightarrow> u8 list" where
  "wire_question q = wire_name (fst q) @ snd q"

definition is_address :: "rr \<Rightarrow> bool" where
  "is_address r \<longleftrightarrow> rr_type r = 1 \<and> rr_class r = 1 \<and> length (rr_data r) = 4"

definition address_of :: "u8 list \<Rightarrow> u32" where
  "address_of d = push_bit 24 (ucast (d ! 0)) OR push_bit 16 (ucast (d ! 1)) OR push_bit 8 (ucast (d ! 2)) OR ucast (d ! 3)"

definition wire_reply :: "u32 \<Rightarrow> u8 list \<Rightarrow> ((u8 list list \<times> (u8 \<times> u8) option) \<times> u8 list) list \<Rightarrow> rr list \<Rightarrow> u8 list \<Rightarrow> u8 list" where
  "wire_reply ident counts questions answers rest =
     wire16 (unat (ident AND 0xFFFF)) @ [0x81, 0x80] @ wire16 (length questions) @ wire16 (length answers) @ counts
     @ concat (map wire_question questions) @ concat (map wire_rr answers) @ rest"

lemma length_wire16 [simp]: "length (wire16 n) = 2"
  by (simp add: wire16_def)

lemma rd16_wire: "n < 65536 \<Longrightarrow> i = length pre \<Longrightarrow> rd16 (pre @ wire16 n @ post) i = Some n"
proof -
  assume n: "n < 65536" and i: "i = length pre"
  have "rd (pre @ wire16 n @ post) i = Some (of_nat (n div 256))" "rd (pre @ wire16 n @ post) (i + 1) = Some (of_nat n)"
    unfolding i by (simp_all add: rd_def wire16_def nth_append)
  then show ?thesis using n by (simp add: rd16_def unat_of_nat)
qed

lemma wire_name_pos: "0 < length (wire_name n)"
  by (simp add: wire_name_def split: option.splits)

lemma dns_questions_wire:
  "list_all question_ok qs \<Longrightarrow> dns_questions (pre @ concat (map wire_question qs) @ post) (length qs) (length pre)
    = Some (Inr (length pre + length (concat (map wire_question qs))))"
proof (induction qs arbitrary: pre)
  case (Cons q qs)
  have q: "list_all label_ok (fst (fst q))" "length (snd q) = 4" using Cons.prems by (auto simp: question_ok_def)
  define buf where "buf = pre @ concat (map wire_question (q # qs)) @ post"
  have buf: "buf = pre @ wire_name (fst q) @ snd q @ concat (map wire_question qs) @ post"
    "buf = (pre @ wire_question q) @ concat (map wire_question qs) @ post" by (simp_all add: buf_def wire_question_def)
  have skip: "dns_skip_name buf (length pre) = Some (length pre + length (wire_name (fst q)))"
    unfolding buf(1) by (rule dns_skip_wire [OF q(1)])
  have len: "length (pre @ wire_question q) \<le> length buf" "length (pre @ wire_question q) = length pre + length (wire_name (fst q)) + 4"
    using q(2) unfolding buf(2) by (simp_all add: wire_question_def)
  have "dns_questions buf (Suc (length qs)) (length pre) = dns_questions buf (length qs) (length (pre @ wire_question q))"
    using wire_name_pos [of "fst q"] len by (simp add: skip add.assoc)
  also have "\<dots> = Some (Inr (length (pre @ wire_question q) + length (concat (map wire_question qs))))"
    unfolding buf(2) by (rule Cons.IH) (use Cons.prems in simp)
  finally show ?case unfolding buf_def by simp
qed simp


lemma rd_plus: "rd (pre @ d) (length pre + i) = rd d i"
  by (simp add: rd_def)

lemma dns_answers_wire:
  "list_all rr_ok rrs \<Longrightarrow> dns_answers (pre @ concat (map wire_rr rrs) @ post) (length rrs) (length pre)
    = Some (case find is_address rrs of None \<Rightarrow> Inl ENOENT | Some r \<Rightarrow> Inr (address_of (rr_data r)))"
proof (induction rrs arbitrary: pre)
  case (Cons r rrs)
  have r: "list_all label_ok (fst (rr_name r))" "rr_type r < 65536" "rr_class r < 65536" "length (rr_ttl r) = 4" "length (rr_data r) < 65536"
    using Cons.prems by (auto simp: rr_ok_def)
  define more where "more = concat (map wire_rr rrs) @ post"
  define buf where "buf = pre @ concat (map wire_rr (r # rrs)) @ post"
  define nm where "nm = wire_name (rr_name r)"
  define p where "p = length pre + length nm"
  have skip: "dns_skip_name buf (length pre) = Some p"
    using dns_skip_wire [OF r(1), of pre] unfolding buf_def p_def nm_def by (simp add: wire_rr_def)
  have bound: "p + 10 + length (rr_data r) \<le> length buf" "0 < p" "length buf = p + 10 + length (rr_data r) + length more"
    using r(4) wire_name_pos [of "rr_name r"] by (simp_all add: buf_def p_def nm_def wire_rr_def more_def)
  have "rd16 buf p = Some (rr_type r)" "rd16 buf (p + 2) = Some (rr_class r)" "rd16 buf (p + 8) = Some (length (rr_data r))"
    using rd16_wire [OF r(2), of p "pre @ nm"] rd16_wire [OF r(3), of "p + 2" "pre @ nm @ wire16 (rr_type r)"]
      rd16_wire [OF r(5), of "p + 8" "pre @ nm @ wire16 (rr_type r) @ wire16 (rr_class r) @ rr_ttl r"] r(4)
    unfolding buf_def nm_def p_def wire_rr_def by simp_all
  note rds = this
  have dat: "buf = (pre @ nm @ wire16 (rr_type r) @ wire16 (rr_class r) @ rr_ttl r @ wire16 (length (rr_data r))) @ rr_data r @ more"
    by (simp add: buf_def nm_def wire_rr_def more_def)
  have rdd: "rd buf (p + 10 + i) = Some (rr_data r ! i)" if "i < length (rr_data r)" for i
    using rd_plus [of "pre @ nm @ wire16 (rr_type r) @ wire16 (rr_class r) @ rr_ttl r @ wire16 (length (rr_data r))" "rr_data r @ more" i] that r(4)
    unfolding dat p_def by (simp add: rd_def nth_append)
  show ?case
  proof (cases "is_address r")
    case True
    then have a: "rr_type r = 1" "rr_class r = 1" "length (rr_data r) = 4" by (auto simp: is_address_def)
    show ?thesis unfolding buf_def [symmetric] list.size(4) add_Suc_right add_0_right dns_answers.simps skip
      using bound rds a rdd [of 0] rdd [of 1] rdd [of 2] rdd [of 3] True by (simp add: address_of_def numeral_eq_Suc)
  next
    case False
    have "dns_answers buf (Suc (length rrs)) (length pre) = dns_answers buf (length rrs) (p + 10 + length (rr_data r))"
      using bound rds False skip by (auto simp: is_address_def Let_def)
    moreover have "buf = (pre @ wire_rr r) @ concat (map wire_rr rrs) @ post" "p + 10 + length (rr_data r) = length (pre @ wire_rr r)"
      using r(4) by (simp_all add: buf_def p_def nm_def wire_rr_def)
    ultimately show ?thesis using Cons.IH [of "pre @ wire_rr r"] Cons.prems False unfolding buf_def [symmetric] by simp
  qed
qed simp

text \<open>
  C37. From a well-formed answer to its query the resolver takes the address of the first record that has
  one, stepping over the questions and any aliases before it, whether names are compressed or not; with no
  such record it reports that there is none.
\<close>

theorem dns_reply_address:
  assumes "list_all question_ok questions" and "list_all rr_ok answers" and "length counts = 4"
    and "length questions < 65536" and "length answers < 65536"
  shows "dns_parse_reply (wire_reply ident counts questions answers rest) ident =
    Some (case find is_address answers of None \<Rightarrow> Inl ENOENT | Some r \<Rightarrow> Inr (address_of (rr_data r)))"
proof -
  define buf where "buf = wire_reply ident counts questions answers rest"
  define head where "head = wire16 (unat (ident AND 0xFFFF)) @ [0x81, 0x80] @ wire16 (length questions) @ wire16 (length answers) @ counts"
  have h: "length head = 12" using assms(3) by (simp add: head_def)
  have buf: "buf = head @ concat (map wire_question questions) @ concat (map wire_rr answers) @ rest"
    by (simp add: buf_def head_def wire_reply_def)
  have "ident AND 0xFFFF = take_bit 16 ident" by (simp add: take_bit_eq_mask mask_numeral)
  then have "unat (ident AND 0xFFFF) < 65536"
    using take_bit_nat_less_exp [of 16 "unat ident"] by (simp add: unsigned_take_bit_eq)
  then have rds: "rd16 buf 0 = Some (unat (ident AND 0xFFFF))" "rd buf 2 = Some 0x81" "rd buf 3 = Some 0x80"
    "rd16 buf 4 = Some (length questions)" "rd16 buf 6 = Some (length answers)"
    using assms(4,5) rd16_wire [of _ 0 "[]"] rd16_wire [of "length questions" 4 "wire16 (unat (ident AND 0xFFFF)) @ [0x81, 0x80]"]
      rd16_wire [of "length answers" 6 "wire16 (unat (ident AND 0xFFFF)) @ [0x81, 0x80] @ wire16 (length questions)"]
    unfolding buf head_def by (simp_all add: rd_def nth_append)
  have q: "dns_questions buf (length questions) 12 = Some (Inr (length (head @ concat (map wire_question questions))))"
    using dns_questions_wire [OF assms(1), of head] h unfolding buf by simp
  have a: "dns_answers buf (length answers) (length (head @ concat (map wire_question questions)))
      = Some (case find is_address answers of None \<Rightarrow> Inl ENOENT | Some r \<Rightarrow> Inr (address_of (rr_data r)))"
    using dns_answers_wire [OF assms(2), of "head @ concat (map wire_question questions)" rest] unfolding buf by simp
  have "12 \<le> length buf" using h by (simp add: buf)
  then show ?thesis unfolding buf_def [symmetric] dns_parse_reply_def using rds q a by simp
qed


theorem dns_reply_address_witness:
  "list_all question_ok [(([[97]], None), [0, 1, 0, 1])]
   \<and> list_all rr_ok [\<lparr>rr_name = ([], Some (0, 12)), rr_type = 5, rr_class = 1, rr_ttl = [0, 0, 0, 9], rr_data = [1, 98, 0]\<rparr>,
       \<lparr>rr_name = ([[98]], None), rr_type = 1, rr_class = 1, rr_ttl = [0, 0, 0, 9], rr_data = [10, 0, 2, 2]\<rparr>]
   \<and> dns_parse_reply (wire_reply 7 [0, 0, 0, 0] [(([[97]], None), [0, 1, 0, 1])]
       [\<lparr>rr_name = ([], Some (0, 12)), rr_type = 5, rr_class = 1, rr_ttl = [0, 0, 0, 9], rr_data = [1, 98, 0]\<rparr>,
        \<lparr>rr_name = ([[98]], None), rr_type = 1, rr_class = 1, rr_ttl = [0, 0, 0, 9], rr_data = [10, 0, 2, 2]\<rparr>] []) 7
     = Some (Inr 0x0A000202)"
proof -
  define questions where "questions = [(([[97 :: u8]], None :: (u8 \<times> u8) option), [0, 1, 0, 1 :: u8])]"
  define answers where "answers = [\<lparr>rr_name = ([], Some (0, 12)), rr_type = 5, rr_class = 1, rr_ttl = [0, 0, 0, 9], rr_data = [1, 98, 0]\<rparr>,
    \<lparr>rr_name = ([[98]], None), rr_type = 1, rr_class = 1, rr_ttl = [0, 0, 0, 9], rr_data = [10, 0, 2, 2]\<rparr>]"
  have ok: "list_all question_ok questions" "list_all rr_ok answers"
    by (simp_all add: questions_def answers_def question_ok_def rr_ok_def label_ok_def)
  have "find is_address answers = Some (answers ! 1)" "address_of (rr_data (answers ! 1)) = 0x0A000202"
    by (simp_all add: answers_def is_address_def address_of_def)
  then have "dns_parse_reply (wire_reply 7 [0, 0, 0, 0] questions answers []) 7 = Some (Inr 0x0A000202)"
    using dns_reply_address [OF ok, of "[0, 0, 0, 0]" 7 "[]"] by (simp add: questions_def answers_def)
  with ok show ?thesis unfolding questions_def answers_def by blast
qed

end
