(* ===== verification/Uresolve.thy ===== *)
theory Uresolve
  imports Udns
begin

text \<open>
  Turning names into addresses, from \<^verbatim>\<open>src/user/lib/ulib.c\<close>: asking a DNS server a few times, reading a hosts
  file, and the order the sources are tried in. What the system calls return is an argument: the outcome
  of each attempt to send and the datagrams that arrive before its deadline, and the pieces in which the
  hosts file is read.
\<close>

section \<open>The code\<close>

subsection \<open>Asking a server\<close>

datatype arrival = Timed_out | Failed errno | From u32 nat "u8 list"

record dns_try =
  sent :: "errno + nat"
  arrivals :: "arrival list"

text \<open>One attempt: take datagrams until one is the answer or the two seconds are over.\<close>

fun dns_wait :: "u32 \<Rightarrow> nat \<Rightarrow> u32 \<Rightarrow> arrival list \<Rightarrow> errno + u32" where
  "dns_wait server port ident [] = Inl ETIMEDOUT"
| "dns_wait server port ident (Timed_out # rest) = Inl ETIMEDOUT"
| "dns_wait server port ident (Failed e # rest) = Inl e"
| "dns_wait server port ident (From ip from_port reply # rest) =
     (if ip \<noteq> server \<or> from_port \<noteq> port then dns_wait server port ident rest
      else case dns_parse_reply reply ident of
        Some (Inr a) \<Rightarrow> Inr a
      | Some (Inl e) \<Rightarrow> if e = ENOENT then Inl e else dns_wait server port ident rest
      | None \<Rightarrow> dns_wait server port ident rest)"

fun dns_attempts :: "u32 \<Rightarrow> nat \<Rightarrow> u32 \<Rightarrow> dns_try list \<Rightarrow> errno + u32" where
  "dns_attempts server port ident [] = Inl ETIMEDOUT"
| "dns_attempts server port ident (t # ts) =
     (case sent t of
        Inl e \<Rightarrow> Inl e
      | Inr _ \<Rightarrow> (case dns_wait server port ident (arrivals t) of
          Inl e \<Rightarrow> if e = ETIMEDOUT then dns_attempts server port ident ts else Inl e
        | Inr a \<Rightarrow> Inr a))"

text \<open>\<open>random\<close>: the two bytes read from the random device, if it could be opened; \<open>sock\<close>: the socket.\<close>

definition dns_lookup :: "u32 \<Rightarrow> nat \<Rightarrow> string \<Rightarrow> u16 option \<Rightarrow> errno + nat \<Rightarrow> dns_try list \<Rightarrow> errno + u32" where
  "dns_lookup server port name random sock tries =
     (if server = 0 then Inl EHOSTUNREACH
      else let ident = (case random of None \<Rightarrow> 0 | Some r \<Rightarrow> ucast r)
        in case dns_build_query 300 ident name of
          Inl e \<Rightarrow> Inl e
        | Inr query \<Rightarrow> (case sock of Inl e \<Rightarrow> Inl e | Inr _ \<Rightarrow> dns_attempts server port ident (take 3 tries)))"

subsection \<open>The hosts file\<close>

definition lower_case :: "char \<Rightarrow> char" where
  "lower_case c = (if 65 \<le> code c \<and> code c \<le> 90 then char_of (code c + 32) else c)"

function same_name :: "string \<Rightarrow> string \<Rightarrow> bool" where
  "same_name a b =
     (let x = lower_case (peek a); y = lower_case (peek b)
      in if x \<noteq> y then False else if x = NUL then True else same_name (tl a) (tl b))"
  by pat_completeness auto
termination
proof (relation "measure (length \<circ> fst)")
  fix a b :: string and x y
  assume "x = lower_case (peek a)" "x \<noteq> NUL"
  then have "a \<noteq> []" by (auto simp: lower_case_def)
  then show "((tl a, tl b), a, b) \<in> measure (length \<circ> fst)" by simp
qed simp

declare same_name.simps [simp del]

definition is_blank :: "char \<Rightarrow> bool" where
  "is_blank c \<longleftrightarrow> c = CHR '' '' \<or> c = CHR 0x09 \<or> c = CHR 0x0D"

function hosts_fields :: "nat \<Rightarrow> u32 \<Rightarrow> string \<Rightarrow> string \<Rightarrow> u32 option" where
  "hosts_fields field address name text =
     (let c = dropWhile is_blank text
      in if c = [] then None
         else let start = takeWhile (\<lambda>c. \<not> is_blank c) c; rest = dropWhile (\<lambda>c. \<not> is_blank c) c
           in if field = 0 then
                let address = parse_ip start
                in if address = 0 then None else if rest = [] then None else hosts_fields (field + 1) address name (tl rest)
              else if same_name start name then Some address
              else if rest = [] then None else hosts_fields (field + 1) address name (tl rest))"
  by pat_completeness auto
termination
proof (relation "measure (\<lambda>(_, _, _, t). length t)")
  fix field :: nat and address name t c start rest
  assume c: "c = dropWhile is_blank t" "rest = dropWhile (\<lambda>c. \<not> is_blank c) c" "rest \<noteq> []"
  then have "length rest \<le> length t" by (metis le_trans length_dropWhile_le)
  with c(3) have less: "length (tl rest) < length t" by (cases rest) auto
  show "((field + 1, address', name, tl rest), field, address, name, t) \<in> measure (\<lambda>(_, _, _, t). length t)" for address'
    using less by simp
  show "((field + 1, address, name, tl rest), field, address, name, t) \<in> measure (\<lambda>(_, _, _, t). length t)"
    using less by simp
qed simp

declare hosts_fields.simps [simp del]

text \<open>A line is a C string, so it ends at a zero byte; a comment ends it too.\<close>

definition hosts_line_matches :: "string \<Rightarrow> string \<Rightarrow> u32 option" where
  "hosts_line_matches line name =
     hosts_fields 0 0 name (takeWhile (\<lambda>c. c \<noteq> CHR ''#'') (takeWhile (\<lambda>c. c \<noteq> NUL) line))"

record hosts_scan =
  line :: string
  too_long :: bool
  found :: "u32 option"

definition hosts_byte :: "string \<Rightarrow> hosts_scan \<Rightarrow> char \<Rightarrow> hosts_scan" where
  "hosts_byte name s c =
     (if found s \<noteq> None then s
      else if c = CHR 0x0A then
        \<lparr>line = [], too_long = False, found = (if \<not> too_long s then hosts_line_matches (line s) name else None)\<rparr>
      else if length (line s) < 255 then s\<lparr>line := line s @ [c]\<rparr>
      else s\<lparr>too_long := True\<rparr>)"

definition hosts_lookup :: "string list option \<Rightarrow> string \<Rightarrow> errno + u32" where
  "hosts_lookup file name =
     (case file of
        None \<Rightarrow> Inl ENOENT
      | Some chunks \<Rightarrow>
          let s = foldl (foldl (hosts_byte name)) \<lparr>line = [], too_long = False, found = None\<rparr> chunks;
              found = (if found s = None \<and> line s \<noteq> [] \<and> \<not> too_long s then hosts_line_matches (line s) name else found s)
          in (case found of None \<Rightarrow> Inl ENOENT | Some ip \<Rightarrow> Inr ip))"

subsection \<open>The order of the sources\<close>

definition resolve :: "string \<Rightarrow> string list option \<Rightarrow> errno + u32 \<Rightarrow> (u32 \<Rightarrow> errno + u32) \<Rightarrow> errno + u32" where
  "resolve name hosts config ask =
     (let literal = parse_ip name
      in if literal \<noteq> 0 then Inr literal
         else case hosts_lookup hosts name of
           Inr ip \<Rightarrow> Inr ip
         | Inl _ \<Rightarrow> (case config of Inl e \<Rightarrow> Inl e | Inr dns \<Rightarrow> ask dns))"

section \<open>The hosts file, line by line\<close>

fun split_lines :: "string \<Rightarrow> string list" where
  "split_lines [] = [[]]"
| "split_lines (c # t) = (if c = CHR 0x0A then [] # split_lines t else (c # hd (split_lines t)) # tl (split_lines t))"

fun first_match :: "string \<Rightarrow> string list \<Rightarrow> u32 option" where
  "first_match name [] = None"
| "first_match name (l # ls) =
     (if length l \<le> 255 \<and> hosts_line_matches l name \<noteq> None then hosts_line_matches l name else first_match name ls)"

subsection \<open>What a line says\<close>

text \<open>
  A line of a hosts file, as the comment on \<^verbatim>\<open>hosts_lookup\<close> in \<^verbatim>\<open>ulib.h\<close> has it: what is before a comment is
  words with blanks between them, an address first and then the names it has, whose case does not matter.
\<close>

definition words :: "string \<Rightarrow> string list" where
  "words t = filter (\<lambda>w. w \<noteq> []) (cut_at (\<lambda>c. c \<in> {CHR '' '', CHR 0x09, CHR 0x0D}) t)"

definition small :: "char \<Rightarrow> char" where
  "small c = (case map_of (zip ''ABCDEFGHIJKLMNOPQRSTUVWXYZ'' ''abcdefghijklmnopqrstuvwxyz'') c of None \<Rightarrow> c | Some d \<Rightarrow> d)"

definition same_but_case :: "string \<Rightarrow> string \<Rightarrow> bool" where
  "same_but_case a b \<longleftrightarrow> map small a = map small b"

text \<open>A text of C ends before its first zero byte.\<close>

definition c_text :: "string \<Rightarrow> string" where
  "c_text t = takeWhile (\<lambda>c. c \<noteq> NUL) t"

definition hosts_entry :: "string \<Rightarrow> string \<Rightarrow> u32 option" where
  "hosts_entry name l = (case words (takeWhile (\<lambda>c. c \<noteq> CHR ''#'') (c_text l)) of
       [] \<Rightarrow> None
     | a # names \<Rightarrow> if dotted a \<noteq> 0 \<and> list_ex (\<lambda>n. same_but_case n (c_text name)) names then Some (dotted a) else None)"

text \<open>The first line that is not too long and has the name.\<close>

definition hosts_answer :: "string \<Rightarrow> string \<Rightarrow> errno + u32" where
  "hosts_answer name file = (case List.map_filter (\<lambda>l. if length l \<le> 255 then hosts_entry name l else None) (split_lines file) of
       [] \<Rightarrow> Inl ENOENT
     | ip # _ \<Rightarrow> Inr ip)"

lemma words_cut: "words t = filter (\<lambda>w. w \<noteq> []) (cut_at is_blank t)"
proof -
  have "is_blank = (\<lambda>c. c \<in> {CHR '' '', CHR 0x09, CHR 0x0D})" by (auto simp: is_blank_def)
  then show ?thesis by (simp add: words_def)
qed

lemma words_blank: "is_blank c \<Longrightarrow> words (c # t) = words t"
  by (simp add: words_cut)

lemma words_blanks: "words (dropWhile is_blank t) = words t"
  by (induction t) (simp_all add: words_blank)

lemma words_word:
  assumes "\<forall>c\<in>set w. \<not> is_blank c" and "w \<noteq> []" and "rest = [] \<or> is_blank (hd rest)"
  shows "words (w @ rest) = w # words (tl rest)"
  using assms cut_at_append [OF assms(1), of rest] unfolding words_cut by (cases rest) simp_all

lemma words_Nil: "words [] = []"
  by (simp add: words_def)

lemma words_step:
  fixes t :: string
  defines "c \<equiv> dropWhile is_blank t"
  shows "words t = (if c = [] then [] else takeWhile (\<lambda>c. \<not> is_blank c) c # words (tl (dropWhile (\<lambda>c. \<not> is_blank c) c)))"
proof (cases "c = []")
  case True
  then have "words t = []" using words_blanks [of t] unfolding c_def by (metis words_Nil)
  then show ?thesis using True by simp
next
  case False
  then have "\<not> is_blank (hd c)" unfolding c_def by (rule hd_dropWhile)
  then have "takeWhile (\<lambda>c. \<not> is_blank c) c \<noteq> []" using False by (cases c) auto
  moreover have "dropWhile (\<lambda>c. \<not> is_blank c) c = [] \<or> is_blank (hd (dropWhile (\<lambda>c. \<not> is_blank c) c))"
    using hd_dropWhile [of "\<lambda>c. \<not> is_blank c" c] by blast
  ultimately have "words (takeWhile (\<lambda>c. \<not> is_blank c) c @ dropWhile (\<lambda>c. \<not> is_blank c) c)
      = takeWhile (\<lambda>c. \<not> is_blank c) c # words (tl (dropWhile (\<lambda>c. \<not> is_blank c) c))"
    by (intro words_word) (auto dest: set_takeWhileD)
  then show ?thesis using False words_blanks [of t] by (simp add: c_def)
qed

lemma lower_case_small: "lower_case c = small c"
proof (cases "65 \<le> code c \<and> code c \<le> 90")
  case True
  have "n \<in> {65, 66, 67, 68, 69, 70, 71, 72, 73, 74, 75, 76, 77, 78, 79, 80, 81, 82, 83, 84, 85, 86, 87, 88, 89, 90}" if "65 \<le> n \<and> n \<le> 90" for n :: nat
    using that unfolding insert_iff empty_iff by presburger
  then have "c \<in> char_of ` {65, 66, 67, 68, 69, 70, 71, 72, 73, 74, 75, 76, 77, 78, 79, 80, 81, 82, 83, 84, 85, 86, 87, 88, 89, 90 :: nat}"
    using True by (metis char_of_char image_eqI)
  then show ?thesis by (auto simp: lower_case_def small_def char_of_def bit_0)
next
  case False
  have "c \<notin> set ''ABCDEFGHIJKLMNOPQRSTUVWXYZ''" using False by auto
  then have "small c = c" by (auto simp: small_def)
  then show ?thesis using False by (auto simp: lower_case_def)
qed

lemma small_NUL: "small c = NUL \<longleftrightarrow> c = NUL"
proof -
  have "lower_case c = NUL \<longleftrightarrow> c = NUL"
  proof (cases "65 \<le> code c \<and> code c \<le> 90")
    case True
    then have "code (char_of (code c + 32)) \<noteq> code NUL" by simp
    then have "char_of (code c + 32) \<noteq> NUL" by (rule contrapos_nn) (rule arg_cong)
    then show ?thesis using True by (auto simp: lower_case_def)
  qed (auto simp: lower_case_def)
  then show ?thesis by (simp add: lower_case_small)
qed

lemma small_zero: "small NUL = NUL"
  using small_NUL [of NUL] by simp

lemma same_name_case: "NUL \<notin> set a \<Longrightarrow> same_name a b \<longleftrightarrow> same_but_case a (c_text b)"
proof (induction a arbitrary: b)
  case Nil
  then show ?case by (subst same_name.simps, cases b) (auto simp: lower_case_small small_NUL small_zero same_but_case_def c_text_def Let_def eq_commute [of NUL])
next
  case (Cons c a)
  then show ?case by (subst same_name.simps, cases b) (auto simp: lower_case_small small_NUL small_zero same_but_case_def c_text_def Let_def)
qed

lemma NUL_rest:
  assumes "NUL \<notin> set t"
  shows "NUL \<notin> set (takeWhile P (dropWhile Q t))" and "NUL \<notin> set (tl (dropWhile P (dropWhile Q t)))"
proof -
  have tl: "set (tl xs) \<subseteq> set xs" for xs :: string by (cases xs) auto
  show "NUL \<notin> set (tl (dropWhile P (dropWhile Q t)))" using assms tl by (blast dest: set_dropWhileD)
  show "NUL \<notin> set (takeWhile P (dropWhile Q t))" using assms by (blast dest: set_dropWhileD set_takeWhileD)
qed

lemma hosts_fields_names:
  "0 < field \<Longrightarrow> NUL \<notin> set t \<Longrightarrow> hosts_fields field address name t = (if list_ex (\<lambda>n. same_but_case n (c_text name)) (words t) then Some address else None)"
proof (induction field address name t rule: hosts_fields.induct)
  case (1 field address name t)
  define c where "c = dropWhile is_blank t"
  define w rest where "w = takeWhile (\<lambda>c. \<not> is_blank c) c" and "rest = dropWhile (\<lambda>c. \<not> is_blank c) c"
  have nul: "NUL \<notin> set w" "NUL \<notin> set (tl rest)" using NUL_rest [OF "1.prems"(2)] by (simp_all add: w_def rest_def c_def)
  have words: "words t = (if c = [] then [] else w # words (tl rest))" unfolding c_def w_def rest_def by (rule words_step)
  have code: "hosts_fields field address name t = (if c = [] then None else if same_name w name then Some address
      else if rest = [] then None else hosts_fields (field + 1) address name (tl rest))"
    using "1.prems"(1) by (subst hosts_fields.simps) (simp add: c_def w_def rest_def Let_def)
  show ?case
  proof (cases "c = [] \<or> same_name w name \<or> rest = []")
    case True
    then show ?thesis unfolding code words using same_name_case [OF nul(1)] by (auto simp: words_Nil)
  next
    case False
    then have "hosts_fields (field + 1) address name (tl rest)
        = (if list_ex (\<lambda>n. same_but_case n (c_text name)) (words (tl rest)) then Some address else None)"
      using "1.IH"(2) [OF c_def _ w_def rest_def] "1.prems"(1) nul(2) by simp
    then show ?thesis unfolding code words using False same_name_case [OF nul(1)] by simp
  qed
qed

lemma hosts_line_entry: "hosts_line_matches l name = hosts_entry name l"
proof -
  define t where "t = takeWhile (\<lambda>c. c \<noteq> CHR ''#'') (c_text l)"
  have nul: "NUL \<notin> set t" by (auto simp: t_def c_text_def dest!: set_takeWhileD)
  define c where "c = dropWhile is_blank t"
  define w rest where "w = takeWhile (\<lambda>c. \<not> is_blank c) c" and "rest = dropWhile (\<lambda>c. \<not> is_blank c) c"
  have words: "words t = (if c = [] then [] else w # words (tl rest))" unfolding c_def w_def rest_def by (rule words_step)
  have nul: "NUL \<notin> set w" "NUL \<notin> set (tl rest)" using NUL_rest [OF nul] by (simp_all add: w_def rest_def c_def)
  have "hosts_line_matches l name = (if c = [] then None else if parse_ip w = 0 then None else if rest = [] then None
      else hosts_fields (0 + 1) (parse_ip w) name (tl rest))"
    unfolding hosts_line_matches_def c_text_def [symmetric] t_def [symmetric]
    by (subst hosts_fields.simps) (simp add: c_def w_def rest_def Let_def)
  also have "\<dots> = hosts_entry name l"
    using hosts_fields_names [of "0 + 1" "tl rest" "parse_ip w" name] nul parse_ip_dotted [OF nul(1)]
    by (auto simp: hosts_entry_def words words_Nil simp flip: t_def)
  finally show ?thesis .
qed

lemma first_match_answer:
  "first_match name ls = (case List.map_filter (\<lambda>l. if length l \<le> 255 then hosts_entry name l else None) ls of [] \<Rightarrow> None | ip # _ \<Rightarrow> Some ip)"
  by (induction ls) (auto simp: hosts_line_entry List.map_filter_def split: list.splits)

lemma split_lines_ne [simp]: "split_lines t \<noteq> []"
  by (cases t) auto

definition scan_rest :: "string \<Rightarrow> hosts_scan \<Rightarrow> string \<Rightarrow> u32 option" where
  "scan_rest name s t = (if found s \<noteq> None then found s
     else if too_long s then first_match name (tl (split_lines t))
     else first_match name ((line s @ hd (split_lines t)) # tl (split_lines t)))"

lemma hosts_line_matches_Nil: "hosts_line_matches [] name = None"
  by (simp add: hosts_line_matches_def hosts_fields.simps)

lemma found_stays: "found s \<noteq> None \<Longrightarrow> foldl (hosts_byte name) s t = s"
  by (induction t arbitrary: s) (simp_all add: hosts_byte_def)

lemma split_lines_conv: "split_lines t = hd (split_lines t) # tl (split_lines t)"
  by simp

lemma scan_step:
  assumes "length (line s) \<le> 255" and "too_long s \<longrightarrow> length (line s) = 255"
  shows "scan_rest name (hosts_byte name s c) t = scan_rest name s (c # t)"
    and "length (line (hosts_byte name s c)) \<le> 255 \<and> (too_long (hosts_byte name s c) \<longrightarrow> length (line (hosts_byte name s c)) = 255)"
proof -
  show "length (line (hosts_byte name s c)) \<le> 255 \<and> (too_long (hosts_byte name s c) \<longrightarrow> length (line (hosts_byte name s c)) = 255)"
    using assms by (auto simp: hosts_byte_def)
  show "scan_rest name (hosts_byte name s c) t = scan_rest name s (c # t)"
  proof (cases "found s = None")
    case True
    then show ?thesis using assms split_lines_conv [of t] by (auto simp: hosts_byte_def scan_rest_def)
  qed (simp add: hosts_byte_def scan_rest_def)
qed


lemma scan_all:
  assumes "length (line s) \<le> 255" and "too_long s \<longrightarrow> length (line s) = 255"
  shows "scan_rest name (foldl (hosts_byte name) s t) [] = scan_rest name s t"
  using assms
proof (induction t arbitrary: s)
  case (Cons c t)
  from scan_step [OF Cons.prems, of name c] Cons.IH [of "hosts_byte name s c"] show ?case by simp
qed simp

lemma scan_short:
  "length (line s) \<le> 255 \<and> (too_long s \<longrightarrow> length (line s) = 255) \<Longrightarrow> length (line (foldl (hosts_byte name) s t)) \<le> 255"
proof (induction t arbitrary: s)
  case (Cons c t)
  from Cons.IH [of "hosts_byte name s c"] scan_step(2) [of s name c] Cons.prems show ?case by simp
qed simp

lemma foldl_pieces: "foldl (foldl f) s ps = foldl f s (concat ps)"
  by (induction ps arbitrary: s) simp_all

text \<open>
  C22. Looking a name up in a hosts file gives the address of the first line that names it, whatever
  pieces the file is read in. What a line names is described on its own: comments are cut off, blanks separate the words, the
  first word has to be an address in four parts, and one of the others the name up to its case. A line
  longer than 255 bytes is skipped whole, a last line without an end of line counts, and without a match, or without the file, the
  answer is that there is no such entry.
\<close>

theorem hosts_lookup_lines:
  "hosts_lookup (Some chunks) name = hosts_answer name (concat chunks) \<and> hosts_lookup None name = Inl ENOENT"
proof -
  define s where "s = foldl (hosts_byte name) \<lparr>line = [], too_long = False, found = None\<rparr> (concat chunks)"
  have "scan_rest name s [] = first_match name (split_lines (concat chunks))"
    unfolding s_def by (subst scan_all) (simp_all add: scan_rest_def)
  moreover have "(if found s = None \<and> line s \<noteq> [] \<and> \<not> too_long s then hosts_line_matches (line s) name else found s) = scan_rest name s []"
    using scan_short [of "\<lparr>line = [], too_long = False, found = None\<rparr>" name "concat chunks"]
    by (auto simp: scan_rest_def hosts_line_matches_Nil s_def)
  ultimately have "hosts_lookup (Some chunks) name = (case first_match name (split_lines (concat chunks)) of None \<Rightarrow> Inl ENOENT | Some ip \<Rightarrow> Inr ip)"
    unfolding hosts_lookup_def foldl_pieces option.case Let_def s_def [symmetric] by (simp only:)
  then show ?thesis by (simp add: first_match_answer hosts_answer_def hosts_lookup_def split: list.splits)
qed

section \<open>Only the server that was asked is believed\<close>

lemma dns_wait_genuine:
  "dns_wait server port ident as = Inr a \<Longrightarrow> \<exists>reply. From server port reply \<in> set as \<and> dns_parse_reply reply ident = Some (Inr a)"
  by (induction server port ident as rule: dns_wait.induct) (auto split: if_splits option.splits sum.splits)

lemma dns_attempts_genuine:
  "dns_attempts server port ident ts = Inr a \<Longrightarrow>
    \<exists>t\<in>set ts. \<exists>reply. From server port reply \<in> set (arrivals t) \<and> dns_parse_reply reply ident = Some (Inr a)"
proof (induction ts)
  case (Cons t ts)
  then show ?case using dns_wait_genuine [of server port ident "arrivals t" a] by (auto split: sum.splits if_splits)
qed simp

lemma dns_lookup_genuine:
  assumes "dns_lookup server port name (Some r) sock tries = Inr a"
  shows "\<exists>t\<in>set (take 3 tries). \<exists>reply. From server port reply \<in> set (arrivals t) \<and> dns_parse_reply reply (ucast r) = Some (Inr a)"
  using assms dns_attempts_genuine [of server port "ucast r" "take 3 tries" a]
  by (auto simp: dns_lookup_def Let_def split: if_splits sum.splits)

text \<open>A literal address never asks anyone, and a name in the hosts file never asks the network.\<close>

lemma resolve_local:
  "parse_ip name \<noteq> 0 \<Longrightarrow> resolve name hosts config ask = Inr (parse_ip name)"
  "parse_ip name = 0 \<Longrightarrow> hosts_lookup hosts name = Inr ip \<Longrightarrow> resolve name hosts config ask = Inr ip"
  by (simp_all add: resolve_def)

lemma resolve_formatted: "ip \<noteq> 0 \<Longrightarrow> resolve (format_ip ip) hosts config ask = Inr ip"
  using format_ip_parses [of ip] by (simp add: resolve_def)

end
