(* ===== verification/Uenv.thy ===== *)
theory Uenv
  imports Ctext
begin

text \<open>
  The environment of a user program, from \<^verbatim>\<open>src/user/lib/ulib.c\<close>: a vector of \<open>NAME=value\<close> strings. A
  null vector behaves as an empty one, so the vector is a list. Whether the two allocations of \<open>setenv\<close>
  succeed is an argument.
\<close>

section \<open>The code\<close>

definition entry_is :: "string \<Rightarrow> string \<Rightarrow> bool" where
  "entry_is name e \<longleftrightarrow> strncmp_text e name (length name) = 0 \<and> peek_at e (length name) = CHR ''=''"

fun getenv :: "string list \<Rightarrow> string \<Rightarrow> string option" where
  "getenv [] name = None"
| "getenv (e # es) name = (if entry_is name e then Some (drop (length name + 1) e) else getenv es name)"

text \<open>Replacing the first entry of that name; \<^const>\<open>None\<close> when there is none.\<close>

fun replace_entry :: "string \<Rightarrow> string \<Rightarrow> string list \<Rightarrow> string list option" where
  "replace_entry name entry [] = None"
| "replace_entry name entry (e # es) =
     (if entry_is name e then Some (entry # es)
      else case replace_entry name entry es of None \<Rightarrow> None | Some es \<Rightarrow> Some (e # es))"

definition setenv :: "bool \<Rightarrow> bool \<Rightarrow> string list \<Rightarrow> string \<Rightarrow> string \<Rightarrow> string list \<times> int" where
  "setenv entry_room vector_room env name value =
     (if \<not> entry_room then (env, - 1)
      else let entry = name @ ''='' @ value
        in case replace_entry name entry env of
          Some env \<Rightarrow> (env, 0)
        | None \<Rightarrow> if \<not> vector_room then (env, - 1) else (env @ [entry], 0))"

fun unsetenv :: "string list \<Rightarrow> string \<Rightarrow> string list" where
  "unsetenv [] name = []"
| "unsetenv (e # es) name = (if entry_is name e then unsetenv es name else e # unsetenv es name)"

section \<open>Names and values\<close>

definition env_name :: "string \<Rightarrow> bool" where
  "env_name name \<longleftrightarrow> cstring name \<and> CHR ''='' \<notin> set name"

lemma entry_is_iff:
  assumes "env_name name"
  shows "entry_is name e \<longleftrightarrow> (\<exists>v. e = name @ ''='' @ v)"
proof
  assume "entry_is name e"
  then have t: "take (length name) e = name" "peek_at e (length name) = CHR ''=''"
    using strncmp_text_prefix assms by (auto simp: entry_is_def env_name_def)
  then have "length name < length e" by (auto simp: peek_at_def split: if_splits)
  then have "drop (length name) e = CHR ''='' # drop (Suc (length name)) e" using t(2) by (simp add: Cons_nth_drop_Suc [symmetric] peek_at_def)
  with t(1) show "\<exists>v. e = name @ ''='' @ v" by (metis append_Cons append_Nil append_take_drop_id)
next
  assume "\<exists>v. e = name @ ''='' @ v"
  then show "entry_is name e"
    using strncmp_text_prefix assms by (auto simp: entry_is_def env_name_def peek_at_def nth_append)
qed

lemma entry_is_other:
  assumes "env_name a" "env_name b" "a \<noteq> b"
  shows "\<not> (entry_is a e \<and> entry_is b e)"
proof
  assume "entry_is a e \<and> entry_is b e"
  then obtain v w where "a @ ''='' @ v = b @ ''='' @ w" using assms entry_is_iff by metis
  moreover have "takeWhile (\<lambda>c. c \<noteq> CHR ''='') (n @ ''='' @ v) = n" if "env_name n" for n v
    using that by (subst takeWhile_append2) (auto simp: env_name_def)
  ultimately show False using assms by metis
qed

lemma entry_is_self [simp]: "env_name name \<Longrightarrow> entry_is name (name @ CHR ''='' # v)"
  using entry_is_iff by auto

lemma getenv_replace:
  "env_name name \<Longrightarrow> replace_entry name (name @ ''='' @ v) env = Some env' \<Longrightarrow> getenv env' name = Some v"
  by (induction env arbitrary: env') (auto split: if_splits option.splits)

lemma getenv_replace_other:
  assumes "env_name name" "env_name other" "name \<noteq> other"
  shows "replace_entry name (name @ ''='' @ v) env = Some env' \<Longrightarrow> getenv env' other = getenv env other"
proof (induction env arbitrary: env')
  case (Cons e env)
  have "\<not> entry_is other (name @ CHR ''='' # v)" using entry_is_other [OF assms] assms(1) by simp
  then show ?case using Cons entry_is_other [OF assms, of e] by (auto split: if_splits option.splits)
qed simp

lemma replace_entry_None: "replace_entry name entry env = None \<Longrightarrow> getenv env name = None"
  by (induction env) (auto split: if_splits option.splits)

lemma getenv_append: "getenv (a @ b) name = (case getenv a name of None \<Rightarrow> getenv b name | Some v \<Rightarrow> Some v)"
  by (induction a) auto

lemma getenv_unset: "getenv (unsetenv env name) name = None"
  by (induction env) auto

lemma getenv_unset_other:
  assumes "env_name name" "env_name other" "name \<noteq> other"
  shows "getenv (unsetenv env name) other = getenv env other"
  using entry_is_other [OF assms] by (induction env) auto

lemma setenv_ok:
  assumes "env_name name" and "setenv er vr env name v = (env', 0)"
  shows "getenv env' name = Some v" and "env_name other \<Longrightarrow> name \<noteq> other \<Longrightarrow> getenv env' other = getenv env other"
proof -
  define entry where "entry = name @ ''='' @ v"
  consider (old) "replace_entry name entry env = Some env'" | (new) "replace_entry name entry env = None" "env' = env @ [entry]"
    using assms(2) by (auto simp: setenv_def entry_def Let_def split: if_splits option.splits)
  then have "getenv env' name = Some v \<and> (env_name other \<and> name \<noteq> other \<longrightarrow> getenv env' other = getenv env other)"
  proof cases
    case old
    then show ?thesis using getenv_replace [OF assms(1)] getenv_replace_other [OF assms(1)] unfolding entry_def by blast
  next
    case new
    have "\<not> entry_is other entry" if "env_name other" "name \<noteq> other"
      using entry_is_other [OF assms(1) that] assms(1) by (simp add: entry_def)
    then show ?thesis using new(2) replace_entry_None [OF new(1)] assms(1) by (auto simp: getenv_append entry_def split: option.splits)
  qed
  then show "getenv env' name = Some v" "env_name other \<Longrightarrow> name \<noteq> other \<Longrightarrow> getenv env' other = getenv env other" by blast+
qed

text \<open>
  C21. The environment behaves as a map from names to values: a variable that was set reads back, one that
  was unset is gone, every other variable keeps its value, and when memory runs out nothing changes.
\<close>

theorem environment_is_a_map:
  assumes "env_name name" and "env_name other"
  shows "(case setenv entry_room vector_room env name v of (env', result) \<Rightarrow>
      getenv env' other = (if result = 0 \<and> other = name then Some v else getenv env other))
    \<and> getenv (unsetenv env name) other = (if other = name then None else getenv env other)"
proof -
  obtain env' result where s: "setenv entry_room vector_room env name v = (env', result)" by fastforce
  then have "result \<noteq> 0 \<longrightarrow> env' = env" by (auto simp: setenv_def Let_def split: if_splits option.splits)
  with s show ?thesis
    using setenv_ok [OF assms(1), of entry_room vector_room env v env'] assms getenv_unset getenv_unset_other by (auto split: if_splits)
qed

theorem environment_is_a_map_witness:
  "env_name ''HOME'' \<and> env_name ''PATH''
   \<and> setenv True True [''PATH=/bin''] ''HOME'' ''/'' = ([''PATH=/bin'', ''HOME=/''], 0)
   \<and> getenv [''PATH=/bin'', ''HOME=/''] ''PATH'' = getenv [''PATH=/bin''] ''PATH''"
proof -
  have n: "env_name ''HOME''" "env_name ''PATH''" by (simp_all add: env_name_def cstring_def)
  have s: "setenv True True [''PATH=/bin''] ''HOME'' ''/'' = ([''PATH=/bin'', ''HOME=/''], 0)" by code_simp
  from conjunct1 [OF environment_is_a_map [OF n, where entry_room = True and vector_room = True and env = "[''PATH=/bin'']" and v = "''/''"]] n s show ?thesis by simp
qed

end
