(* ===== verification/Umalloc.thy ===== *)
theory Umalloc
  imports Prelude
begin

text \<open>
  The allocator of the user library, \<^verbatim>\<open>src/user/lib/ulib.c\<close>: a first-fit free list on top of the
  break of the process. The links of the free list are the order of the list of its blocks, the \<open>size\<close>
  field of the header at an address is a function of the address. Addresses are natural numbers, since a
  process's break stays far below the end of the address space; the size a program asks for has the 64 bits of
  \<^verbatim>\<open>size_t\<close> and is rounded up with their wrap-around. Whether the kernel moves the break is an argument.
\<close>

unbundle bit_operations_syntax

section \<open>The code\<close>

abbreviation (input) "HEADER \<equiv> 16 :: nat"

record uheap =
  free_list :: "nat list"
  block_size :: "nat \<Rightarrow> nat"
  brk :: nat

text \<open>The argument is a \<^verbatim>\<open>long\<close>.\<close>

definition sbrk :: "bool \<Rightarrow> uheap \<Rightarrow> int \<Rightarrow> uheap \<times> nat option" where
  "sbrk granted h increment =
     (let old = brk h
      in if increment = 0 then (h, Some old)
         else if \<not> granted then (h, None)
         else (h\<lparr>brk := nat (int old + increment)\<rparr>, Some old))"

fun first_fit :: "(nat \<Rightarrow> nat) \<Rightarrow> nat \<Rightarrow> nat list \<Rightarrow> (nat \<times> nat list) option" where
  "first_fit sizes n [] = None"
| "first_fit sizes n (b # bs) =
     (if sizes b \<ge> n then Some (b, bs)
      else case first_fit sizes n bs of None \<Rightarrow> None | Some (b', bs') \<Rightarrow> Some (b', b # bs'))"

definition malloc :: "bool \<Rightarrow> uheap \<Rightarrow> u64 \<Rightarrow> uheap \<times> nat option" where
  "malloc granted h sz =
     (if sz = 0 \<or> sz > push_bit 40 1 then (h, None)
      else let sz = (sz + 15) AND NOT 15
        in case first_fit (block_size h) (unat sz) (free_list h) of
          Some (block, rest) \<Rightarrow> (h\<lparr>free_list := rest\<rparr>, Some (block + HEADER))
        | None \<Rightarrow> (case sbrk granted h (sint (of_nat HEADER + sz)) of
            (h, None) \<Rightarrow> (h, None)
          | (h, Some block) \<Rightarrow> (h\<lparr>block_size := (block_size h)(block := unat sz)\<rparr>, Some (block + HEADER))))"

definition free :: "uheap \<Rightarrow> nat option \<Rightarrow> uheap" where
  "free h ptr = (case ptr of None \<Rightarrow> h | Some p \<Rightarrow> h\<lparr>free_list := (p - HEADER) # free_list h\<rparr>)"

section \<open>Blocks never overlap\<close>

text \<open>The bytes of a block, its header included.\<close>

definition extent :: "uheap \<Rightarrow> nat \<Rightarrow> nat set" where
  "extent h b = {b ..< b + HEADER + block_size h b}"

text \<open>
  \<open>live\<close> maps the pointers the program holds to the sizes it asked for. Every block is either on the free
  list or live, never both, and the blocks fill disjoint parts of the heap.
\<close>

definition blocks :: "uheap \<Rightarrow> (nat \<rightharpoonup> nat) \<Rightarrow> nat set" where
  "blocks h live = set (free_list h) \<union> (\<lambda>p. p - HEADER) ` dom live"

definition uheap_inv :: "nat \<Rightarrow> uheap \<Rightarrow> (nat \<rightharpoonup> nat) \<Rightarrow> bool" where
  "uheap_inv base h live \<longleftrightarrow>
     base \<le> brk h \<and> 16 dvd brk h \<and> distinct (free_list h)
     \<and> (\<forall>b\<in>blocks h live. base \<le> b \<and> b + HEADER + block_size h b \<le> brk h \<and> 16 dvd b)
     \<and> (\<forall>b\<in>blocks h live. \<forall>c\<in>blocks h live. b \<noteq> c \<longrightarrow> extent h b \<inter> extent h c = {})
     \<and> (\<forall>p n. live p = Some n \<longrightarrow> HEADER \<le> p \<and> p - HEADER \<notin> set (free_list h) \<and> n \<le> block_size h (p - HEADER))"

inductive uheap_step :: "uheap \<times> (nat \<rightharpoonup> nat) \<Rightarrow> uheap \<times> (nat \<rightharpoonup> nat) \<Rightarrow> bool" where
  allocates: "malloc granted h sz = (h', Some p) \<Longrightarrow> uheap_step (h, live) (h', live(p \<mapsto> unat sz))"
| refused: "malloc granted h sz = (h', None) \<Longrightarrow> uheap_step (h, live) (h', live)"
| frees: "live p \<noteq> None \<Longrightarrow> uheap_step (h, live) (free h (Some p), live(p := None))"

inductive uheap_reachable :: "nat \<Rightarrow> uheap \<times> (nat \<rightharpoonup> nat) \<Rightarrow> bool" for base where
  start: "free_list h = [] \<Longrightarrow> brk h = base \<Longrightarrow> uheap_reachable base (h, Map.empty)"
| step: "uheap_reachable base s \<Longrightarrow> uheap_step s s' \<Longrightarrow> uheap_reachable base s'"

inductive_cases uheap_stepE: "uheap_step s s'"

lemma first_fit_Some:
  "first_fit sizes n bs = Some (b, rest) \<Longrightarrow> sizes b \<ge> n \<and> (\<exists>pre post. bs = pre @ b # post \<and> rest = pre @ post)"
proof (induction bs arbitrary: rest)
  case (Cons c bs)
  show ?case
  proof (cases "sizes c \<ge> n")
    case True
    then have "bs = rest" "c = b" "n \<le> sizes b" using Cons.prems by auto
    then show ?thesis by (metis append_Nil)
  next
    case False
    then obtain rest' where "first_fit sizes n bs = Some (b, rest')" "rest = c # rest'" using Cons.prems by (auto split: option.splits)
    with Cons.IH [of rest'] show ?thesis by (metis append_Cons)
  qed
qed simp

lemma malloc_rounding:
  fixes sz :: u64
  assumes "\<not> sz > push_bit 40 1"
  shows "unat ((sz + 15) AND NOT 15) = (unat sz + 15) div 16 * 16" and "sint (of_nat HEADER + ((sz + 15) AND NOT 15)) = int (HEADER + (unat sz + 15) div 16 * 16)"
proof -
  let ?k = "(unat sz + 15) div 16 * 16"
  have small: "unat sz \<le> 2 ^ 40" using assms by (simp add: not_less word_le_nat_alt push_bit_eq_mult)
  then have k: "?k \<le> 2 ^ 40 + 15" using div_times_less_eq_dividend [of "unat sz + 15" 16] by linarith
  have "unat (sz + 15) = unat sz + 15" using small by (simp add: unat_word_ariths)
  then have "(sz + 15) div 16 = of_nat ((unat sz + 15) div 16)" by (simp add: word_unat_eq_iff unat_div unat_of_nat k) (use small in auto)
  moreover have mask: "(15 :: u64) = mask 4" by (simp add: mask_eq_exp_minus_1)
  have "(sz + 15) AND NOT 15 = push_bit 4 (drop_bit 4 (sz + 15))" unfolding mask by (rule bit_word_eqI) (auto simp: bit_simps)
  ultimately have r: "(sz + 15) AND NOT 15 = of_nat ?k" by (simp add: push_bit_eq_mult drop_bit_eq_div)
  have "unat (of_nat ?k :: u64) = ?k" using k by (simp only: unat_of_nat) (simp add: take_bit_nat_eq_self)
  then show u: "unat ((sz + 15) AND NOT 15) = ?k" using r by simp
  have "of_nat HEADER + ((sz + 15) AND NOT 15) = (of_nat (HEADER + ?k) :: u64)" using r by simp
  moreover have "sint (of_nat (HEADER + ?k) :: u64) = int (HEADER + ?k)"
    unfolding signed_of_nat of_int_eq_id id_apply by (rule signed_take_bit_int_eq_self) (use k in auto)
  ultimately show "sint (of_nat HEADER + ((sz + 15) AND NOT 15)) = int (HEADER + ?k)" by simp
qed

lemma malloc_inv:
  assumes inv: "uheap_inv base h live" and m: "malloc granted h sz = (h', Some p)"
  shows "uheap_inv base h' (live(p \<mapsto> unat sz))"
proof -
  define n where "n = unat sz"
  define k where "k = (n + 15) div 16 * 16"
  have sz: "\<not> (sz = 0 \<or> sz > push_bit 40 1)" using m by (auto simp: malloc_def split: if_splits)
  then have rnd: "unat ((sz + 15) AND NOT 15) = k" "sint (of_nat HEADER + ((sz + 15) AND NOT 15)) = int (HEADER + k)"
    using malloc_rounding [of sz] by (simp_all add: k_def n_def)
  have k: "n \<le> k" "16 dvd k" unfolding k_def by (auto simp: div_mult_mod_eq)
  consider (reuse) b rest where "first_fit (block_size h) k (free_list h) = Some (b, rest)" "h' = h\<lparr>free_list := rest\<rparr>" "p = b + HEADER"
    | (fresh) "h' = h\<lparr>brk := brk h + (HEADER + k), block_size := (block_size h)(brk h := k)\<rparr>" "p = brk h + HEADER"
    using m sz unfolding malloc_def Let_def rnd sbrk_def by (auto split: option.splits if_splits simp: nat_add_distrib)
  then have "uheap_inv base h' (live(p \<mapsto> n))"
  proof cases
    case reuse
    obtain pre post where fl: "block_size h b \<ge> k" "free_list h = pre @ b # post" "rest = pre @ post"
      using first_fit_Some [OF reuse(1)] by blast
    have "blocks h' (live(p \<mapsto> n)) = blocks h live"
      unfolding blocks_def reuse(2,3) using fl by (auto simp: image_iff) 
    moreover have "live (b + 16) = None"
    proof (rule ccontr)
      assume "live (b + 16) \<noteq> None"
      then obtain m where "live (b + 16) = Some m" by auto
      then have "b + 16 - 16 \<notin> set (free_list h)" using inv unfolding uheap_inv_def by blast
      then show False using fl(2) by simp
    qed
    ultimately show ?thesis using inv fl k(1) reuse(2,3)
      unfolding uheap_inv_def by (auto simp: extent_def)
  next
    case fresh
    have old: "b < brk h" if "b \<in> blocks h live" for b using inv that unfolding uheap_inv_def by fastforce
    have bl: "blocks h' (live(p \<mapsto> n)) = insert (brk h) (blocks h live)"
      unfolding blocks_def fresh by (auto simp: image_iff)
    have same: "block_size h' b = block_size h b" "extent h' b = extent h b" if "b \<in> blocks h live" for b
      using old [OF that] by (simp_all add: fresh(1) extent_def)
    have below: "extent h b \<subseteq> {..< brk h}" if "b \<in> blocks h live" for b
      using inv that unfolding uheap_inv_def extent_def by fastforce
    have new: "extent h' (brk h) = {brk h ..< brk h'}" by (simp add: fresh(1) extent_def add.assoc)
    have apart: "extent h' b \<inter> extent h' (brk h) = {}" if "b \<in> blocks h live" for b
      using below [OF that] same(2) [OF that] new by auto
    have live: "live q = Some m \<Longrightarrow> q - 16 \<in> blocks h live" for q m by (auto simp: blocks_def)
    have "\<forall>b\<in>blocks h' (live(p \<mapsto> n)). base \<le> b \<and> b + HEADER + block_size h' b \<le> brk h' \<and> 16 dvd b"
      using inv same(1) k(2) unfolding bl uheap_inv_def by (auto simp: fresh(1) intro: le_trans)
    moreover have "\<forall>b\<in>blocks h' (live(p \<mapsto> n)). \<forall>c\<in>blocks h' (live(p \<mapsto> n)). b \<noteq> c \<longrightarrow> extent h' b \<inter> extent h' c = {}"
      using inv same(2) apart unfolding bl uheap_inv_def by (auto simp: Int_commute)
    moreover have "brk h \<notin> set (free_list h)" using old unfolding blocks_def by blast
    then have "\<forall>q m. (live(p \<mapsto> n)) q = Some m \<longrightarrow> HEADER \<le> q \<and> q - HEADER \<notin> set (free_list h') \<and> m \<le> block_size h' (q - HEADER)"
      using inv same(1) [OF live] k(1) unfolding uheap_inv_def by (auto simp: fresh)
    moreover have "base \<le> brk h'" "16 dvd brk h'" "distinct (free_list h')"
      using inv k(2) unfolding uheap_inv_def by (auto simp: fresh(1))
    ultimately show ?thesis unfolding uheap_inv_def by blast
  qed
  then show ?thesis by (simp add: n_def)
qed

lemma malloc_refused: "malloc granted h sz = (h', None) \<Longrightarrow> h' = h"
  by (auto simp: malloc_def sbrk_def Let_def split: if_splits option.splits)

lemma free_inv:
  assumes inv: "uheap_inv base h live" and p: "live p \<noteq> None"
  shows "uheap_inv base (free h (Some p)) (live(p := None))"
proof -
  have sub: "blocks (free h (Some p)) (live(p := None)) \<subseteq> blocks h live" using p by (auto simp: blocks_def free_def)
  have h: "extent (free h (Some p)) b = extent h b" "block_size (free h (Some p)) b = block_size h b" "brk (free h (Some p)) = brk h" for b
    by (simp_all add: free_def extent_def)
  have inj: "q - 16 \<noteq> p - 16" if "live q = Some m" "q \<noteq> p" for q m
    using inv that p unfolding uheap_inv_def by (metis diff_add_inverse2 le_add_diff_inverse2 not_Some_eq)
  have "distinct (free_list (free h (Some p)))" using inv p by (auto simp: uheap_inv_def free_def)
  moreover have "\<forall>q m. (live(p := None)) q = Some m \<longrightarrow> HEADER \<le> q \<and> q - HEADER \<notin> set (free_list (free h (Some p))) \<and> m \<le> block_size h (q - HEADER)"
    using inv inj unfolding uheap_inv_def by (auto simp: free_def)
  moreover have "\<forall>b\<in>blocks (free h (Some p)) (live(p := None)). base \<le> b \<and> b + HEADER + block_size h b \<le> brk h \<and> 16 dvd b"
    using inv sub unfolding uheap_inv_def by (meson subsetD)
  moreover have "\<forall>b\<in>blocks (free h (Some p)) (live(p := None)). \<forall>c\<in>blocks (free h (Some p)) (live(p := None)). b \<noteq> c \<longrightarrow> extent h b \<inter> extent h c = {}"
    using inv sub unfolding uheap_inv_def by (meson subsetD)
  moreover have "base \<le> brk h" "16 dvd brk h" using inv unfolding uheap_inv_def by blast+
  ultimately show ?thesis unfolding uheap_inv_def h by (intro conjI) assumption+
qed

lemma uheap_reachable_inv: "uheap_reachable base s \<Longrightarrow> 16 dvd base \<Longrightarrow> uheap_inv base (fst s) (snd s)"
proof (induction rule: uheap_reachable.induct)
  case (start h)
  then show ?case by (simp add: uheap_inv_def blocks_def)
next
  case (step s s')
  note IH = step.IH [OF step.prems]
  from step.hyps(2) show ?case
  proof (cases rule: uheap_step.cases)
    case (allocates granted h sz h' p live)
    with IH malloc_inv [of base h live granted sz h' p] show ?thesis by (simp only: fst_conv snd_conv)
  next
    case (refused granted h sz h' live)
    with IH malloc_refused [of granted h sz h'] show ?thesis by (simp only: fst_conv snd_conv)
  next
    case (frees live p h)
    have "uheap_inv base h live" using IH frees(1) by simp
    from free_inv [OF this frees(3)] frees(2) show ?thesis by (simp only: fst_conv snd_conv)
  qed
qed

text \<open>
  C10. Whatever a program allocates and frees, the blocks it holds are apart from each other, from the
  headers of all other blocks and from everything on the free list, lie in its heap, are aligned to 16 bytes
  and at least as long as it asked for, up to the largest \<^verbatim>\<open>size_t\<close>.
\<close>

theorem malloc_blocks_disjoint:
  assumes "uheap_reachable base (h, live)" and "16 dvd base" and "live p = Some n"
  shows "16 dvd p \<and> base + 16 \<le> p \<and> p + n \<le> brk h
    \<and> (\<forall>q m. live q = Some m \<and> q \<noteq> p \<longrightarrow> {p ..< p + n} \<inter> {q - 16 ..< q + m} = {})
    \<and> (\<forall>b\<in>set (free_list h). {p ..< p + n} \<inter> {b ..< b + 16 + block_size h b} = {})"
proof -
  have inv: "uheap_inv base h live" using uheap_reachable_inv [OF assms(1,2)] by simp
  have b: "q - 16 \<in> blocks h live" "16 \<le> q" "m \<le> block_size h (q - 16)" if "live q = Some m" for q m
    using inv that by (auto simp: blocks_def uheap_inv_def)
  have part: "{q - 16 ..< q + m} \<subseteq> extent h (q - 16)" if "live q = Some m" for q m
    using b [OF that] by (auto simp: extent_def)
  have own: "{p ..< p + n} \<subseteq> extent h (p - 16)" by (rule subset_trans [OF _ part [OF assms(3)]]) auto
  have apart: "extent h (p - 16) \<inter> extent h c = {}" if "c \<in> blocks h live" "c \<noteq> p - 16" for c
    using inv b(1) [OF assms(3)] that unfolding uheap_inv_def by blast
  have "{p ..< p + n} \<inter> {q - 16 ..< q + m} = {}" if "live q = Some m" "q \<noteq> p" for q m
  proof -
    have "q - 16 \<noteq> p - 16" using b(2) [OF assms(3)] b(2) [OF that(1)] that(2) by auto
    from apart [OF b(1) [OF that(1)] this] show ?thesis using own part [OF that(1)] by blast
  qed
  moreover have "{p ..< p + n} \<inter> {c ..< c + 16 + block_size h c} = {}" if "c \<in> set (free_list h)" for c
  proof -
    have "c \<in> blocks h live" "c \<noteq> p - 16" using that inv assms(3) by (auto simp: blocks_def uheap_inv_def)
    from apart [OF this] show ?thesis using own by (auto simp: extent_def)
  qed
  moreover have "base \<le> p - 16" "p - 16 + 16 + block_size h (p - 16) \<le> brk h" "16 dvd p - 16"
    using inv b(1) [OF assms(3)] unfolding uheap_inv_def by blast+
  moreover have "16 dvd p" using calculation(5) b(2) [OF assms(3)] by (metis dvd_add_triv_right_iff le_add_diff_inverse2)
  ultimately show ?thesis using b [OF assms(3)] by auto
qed

theorem malloc_blocks_disjoint_witness:
  "\<exists>h. uheap_reachable 4096 (h, [4112 \<mapsto> 5])
    \<and> set (free_list h) = {4128} \<and> {4112 ..< 4112 + 5} \<inter> {4128 ..< 4128 + 16 + block_size h 4128} = ({} :: nat set)"
proof -
  define h0 where "h0 = \<lparr>free_list = [], block_size = \<lambda>_. 0, brk = 4096\<rparr>"
  define h1 where "h1 = \<lparr>free_list = [], block_size = (\<lambda>_. 0)(4096 := 16), brk = 4128\<rparr>"
  define h2 where "h2 = \<lparr>free_list = [], block_size = (\<lambda>_. 0)(4096 := 16, 4128 := 32), brk = 4176\<rparr>"
  have 1: "malloc True h0 5 = (h1, Some 4112)" by (simp add: malloc_def sbrk_def h0_def h1_def)
  have 2: "malloc True h1 20 = (h2, Some 4144)" by (simp add: malloc_def sbrk_def h1_def h2_def)
  have "uheap_reachable 4096 (h0, Map.empty)" by (rule uheap_reachable.start) (simp_all add: h0_def)
  from uheap_reachable.step [OF this allocates [OF 1]] have "uheap_reachable 4096 (h1, [4112 \<mapsto> 5])" by simp
  from uheap_reachable.step [OF this allocates [OF 2]] have r: "uheap_reachable 4096 (h2, [4112 \<mapsto> 5, 4144 \<mapsto> 20])" by simp
  have fr: "uheap_step (h2, [4112 \<mapsto> 5, 4144 \<mapsto> 20]) (free h2 (Some 4144), [4112 \<mapsto> 5, 4144 \<mapsto> 20](4144 := None))" by (rule frees) simp
  have e: "[4112 \<mapsto> 5, 4144 \<mapsto> 20](4144 := None) = [4112 :: nat \<mapsto> (5 :: nat)]" by (rule ext) simp
  have f: "uheap_reachable 4096 (free h2 (Some 4144), [4112 \<mapsto> 5])" using uheap_reachable.step [OF r fr] unfolding e .
  have "16 dvd (4096 :: nat)" by simp
  note m = malloc_blocks_disjoint [OF f this, of 4112 5]
  have l: "set (free_list (free h2 (Some 4144))) = {4128}" by (simp add: free_def h2_def)
  have "{4112 ..< 4112 + 5} \<inter> {4128 ..< 4128 + 16 + block_size (free h2 (Some 4144)) 4128} = ({} :: nat set)" using m l by simp
  with f l show ?thesis by blast
qed

end
