(* ===== verification/Uprintf.thy ===== *)
theory Uprintf
  imports Ctext
begin

text \<open>
  Formatted output and line input of the user library, \<^verbatim>\<open>src/user/lib/ulib.c\<close>. What the system calls
  return is an argument: \<open>wr k n\<close> is the result of the \<open>k\<close>-th write, asked to take \<open>n\<close> bytes, and a list
  holds what the reads of single bytes give. The arguments of \<^verbatim>\<open>printf\<close> are the registers and strings
  passed; an argument that is missing, which C leaves undefined, reads as zero.
\<close>

section \<open>The code\<close>

subsection \<open>The output buffer\<close>

type_synonym writer = "nat \<Rightarrow> nat \<Rightarrow> int"

text \<open>
  \<open>data\<close> is the part of the buffer in use; \<open>calls\<close> and \<open>written\<close> record what the system calls did, and \<open>overrun\<close> whether
  a byte was ever stored behind the end of an array: of the 256 bytes of the buffer, or the 24 for the digits of a number.
\<close>

record outbuf =
  data :: string
  calls :: nat
  written :: string
  overrun :: bool

function flush_loop :: "writer \<Rightarrow> string \<Rightarrow> nat \<Rightarrow> string \<Rightarrow> nat \<times> string" where
  "flush_loop wr rest k out =
     (if rest = [] then (k, out)
      else let n = wr k (length rest)
        in if n \<le> 0 then (k + 1, out)
           else flush_loop wr (drop (nat n) rest) (k + 1) (out @ take (nat n) rest))"
  by pat_completeness auto
termination by (relation "measure (\<lambda>(_, rest, _, _). length rest)") (auto simp: nat_less_iff)

declare flush_loop.simps [simp del]

definition out_flush :: "writer \<Rightarrow> outbuf \<Rightarrow> outbuf" where
  "out_flush wr b = (let (k, out) = flush_loop wr (data b) (calls b) (written b) in b\<lparr>data := [], calls := k, written := out\<rparr>)"

definition out_char :: "writer \<Rightarrow> outbuf \<Rightarrow> char \<Rightarrow> outbuf" where
  "out_char wr b c =
     (let b = (if length (data b) = 256 then out_flush wr b else b)
      in b\<lparr>data := data b @ [c], overrun := overrun b \<or> length (data b) \<ge> 256\<rparr>)"

definition out_string :: "writer \<Rightarrow> outbuf \<Rightarrow> string \<Rightarrow> outbuf" where
  "out_string wr b s = foldl (out_char wr) b s"

subsection \<open>Numbers\<close>

definition digit_char :: "nat \<Rightarrow> char" where
  "digit_char d = (if d < 10 then char_of (48 + d) else char_of (97 + d - 10))"

text \<open>The digits, the last one first, as they are stored in the array.\<close>

function number_digits :: "nat \<Rightarrow> nat \<Rightarrow> string" where
  "number_digits base v = digit_char (v mod base) # (if v div base = 0 \<or> base < 2 then [] else number_digits base (v div base))"
  by pat_completeness auto
termination
proof (relation "measure snd")
  fix base v :: nat assume "\<not> (v div base = 0 \<or> base < 2)"
  then have "0 < v" "1 < base" by (auto intro: gr0I)
  then show "((base, v div base), base, v) \<in> measure snd" by simp
qed simp

declare number_digits.simps [simp del]

definition out_number :: "writer \<Rightarrow> outbuf \<Rightarrow> u64 \<Rightarrow> nat \<Rightarrow> bool \<Rightarrow> nat \<Rightarrow> bool \<Rightarrow> outbuf" where
  "out_number wr b v base negative width zero_pad =
     (let digits = number_digits base (unat v);
          b = b\<lparr>overrun := overrun b \<or> length digits > 24\<rparr>;
          padding = width - length digits - (if negative then 1 else 0);
          b = (if \<not> zero_pad then out_string wr b (replicate padding (CHR '' '')) else b);
          b = (if negative then out_char wr b (CHR ''-'') else b);
          b = (if zero_pad then out_string wr b (replicate padding (CHR ''0'')) else b)
      in out_string wr b (rev digits))"

subsection \<open>The format string\<close>

datatype arg = Word u64 | Text "string option"

definition next_arg :: "arg list \<Rightarrow> u64 \<times> arg list" where
  "next_arg args = (case args of Word w # rest \<Rightarrow> (w, rest) | _ # rest \<Rightarrow> (0, rest) | [] \<Rightarrow> (0, []))"

definition next_text :: "arg list \<Rightarrow> string option \<times> arg list" where
  "next_text args = (case args of Text t # rest \<Rightarrow> (t, rest) | _ # rest \<Rightarrow> (None, rest) | [] \<Rightarrow> (None, []))"

fun read_width :: "nat \<Rightarrow> string \<Rightarrow> nat \<times> string" where
  "read_width width [] = (width, [])"
| "read_width width (c # fmt) =
     (if is_digit c then read_width (if width < 64 then width * 10 + digit_value c else width) fmt else (width, c # fmt))"

definition int_arg :: "bool \<Rightarrow> u64 \<Rightarrow> u64" where
  "int_arg is_long w = (if is_long then w else scast (ucast w :: u32))"

definition unsigned_arg :: "bool \<Rightarrow> u64 \<Rightarrow> u64" where
  "unsigned_arg is_long w = (if is_long then w else ucast (ucast w :: u32))"

definition convert :: "writer \<Rightarrow> outbuf \<Rightarrow> arg list \<Rightarrow> char \<Rightarrow> nat \<Rightarrow> bool \<Rightarrow> bool \<Rightarrow> outbuf \<times> arg list" where
  "convert wr b args c width zero_pad is_long =
     (let (w, args') = next_arg args
      in if c = CHR ''d'' then
           let v = int_arg is_long w in (out_number wr b (if v <s 0 then - v else v) 10 (v <s 0) width zero_pad, args')
         else if c = CHR ''u'' then (out_number wr b (unsigned_arg is_long w) 10 False width zero_pad, args')
         else if c = CHR ''x'' then (out_number wr b (unsigned_arg is_long w) 16 False width zero_pad, args')
         else if c = CHR ''o'' then (out_number wr b (unsigned_arg is_long w) 8 False width zero_pad, args')
         else if c = CHR ''p'' then (out_number wr (out_string wr b ''0x'') w 16 False 0 False, args')
         else if c = CHR ''s'' then
           let (t, args') = next_text args; str = (case t of None \<Rightarrow> ''(null)'' | Some s \<Rightarrow> s)
           in (out_string wr (out_string wr b (replicate (width - length str) (CHR '' ''))) str, args')
         else if c = CHR ''c'' then (out_char wr b (char_of (unat w)), args')
         else if c = CHR ''%'' then (out_char wr b (CHR ''%''), args)
         else (out_char wr (out_char wr b (CHR ''%'')) c, args))"

lemma read_width_length: "length (snd (read_width w fmt)) \<le> length fmt"
  by (induction w fmt rule: read_width.induct) auto

function format_loop :: "writer \<Rightarrow> string \<Rightarrow> arg list \<Rightarrow> outbuf \<Rightarrow> outbuf" where
  "format_loop wr [] args b = b"
| "format_loop wr (c # fmt) args b =
     (if c \<noteq> CHR ''%'' then format_loop wr fmt args (out_char wr b c)
      else let zero_pad = (peek fmt = CHR ''0'');
               (width, fmt) = read_width 0 (if zero_pad then tl fmt else fmt);
               is_long = (peek fmt = CHR ''l'');
               fmt = (if is_long then tl fmt else fmt)
        in case fmt of
          [] \<Rightarrow> b
        | c # fmt \<Rightarrow> (case convert wr b args c width zero_pad is_long of (b, args) \<Rightarrow> format_loop wr fmt args b))"
  by pat_completeness auto
termination
proof (relation "measure (\<lambda>(_, fmt, _, _). length fmt)", goal_cases)
  case (3 wr c fmt args b z p w f l f' c' f'')
  then have "(w, f) = read_width 0 (if z then tl fmt else fmt)" by simp
  then have "length f \<le> length (if z then tl fmt else fmt)" by (metis read_width_length snd_conv)
  also have "\<dots> \<le> length fmt" by simp
  finally have "length f \<le> length fmt" .
  moreover have "length f' \<le> length f" "f' = c' # f''" using 3 by (auto split: if_splits)
  ultimately show ?case by simp
qed auto

definition format_text :: "writer \<Rightarrow> string \<Rightarrow> arg list \<Rightarrow> outbuf" where
  "format_text wr fmt args = out_flush wr (format_loop wr fmt args \<lparr>data = [], calls = 0, written = [], overrun = False\<rparr>)"


subsection \<open>Lines of input\<close>

text \<open>What reading one byte gives: the byte, an interruption by a signal, or nothing more.\<close>

datatype read_one = Got char | Interrupted | Ended

text \<open>The text of the line, the value returned and the input left; \<^const>\<open>None\<close> while the line is not finished.\<close>

fun fdreadline_loop :: "nat \<Rightarrow> string \<Rightarrow> read_one list \<Rightarrow> (string \<times> int \<times> read_one list) option" where
  "fdreadline_loop room buf [] = None"
| "fdreadline_loop room buf (Interrupted # input) = fdreadline_loop room buf input"
| "fdreadline_loop room buf (Ended # input) = Some (buf, if length buf > 0 then int (length buf) else - 1, input)"
| "fdreadline_loop room buf (Got c # input) =
     (if c = CHR 0x0A then Some (buf, int (length buf), input)
      else fdreadline_loop room (if length buf < room - 1 then buf @ [c] else buf) input)"

definition fdreadline :: "nat \<Rightarrow> read_one list \<Rightarrow> (string \<times> int \<times> read_one list) option" where
  "fdreadline room input = (if room = 0 then Some ([], - 1, input) else fdreadline_loop room [] input)"

subsection \<open>Error messages\<close>

definition error_texts :: "(errno \<times> string) list" where
  "error_texts = [
     (EPERM, ''operation not permitted''),
     (EACCES, ''permission denied''),
     (ENOENT, ''no such file or directory''),
     (ESRCH, ''no such process''),
     (EINTR, ''interrupted by a signal''),
     (EIO, ''input/output error''),
     (ENODEV, ''no such device''),
     (E2BIG, ''argument list too long''),
     (EBADF, ''bad file descriptor''),
     (ECHILD, ''no child processes''),
     (ENOMEM, ''out of memory''),
     (EFAULT, ''bad address''),
     (EAGAIN, ''try again''),
     (EBUSY, ''in use''),
     (ETXTBSY, ''a running program'' @ [CHR 0x27] @ ''s file, or a program open for writing''),
     (ENOTTY, ''not a terminal of this session''),
     (EEXIST, ''file exists''),
     (ENOTDIR, ''not a directory''),
     (EXDEV, ''not on the same filesystem''),
     (EISDIR, ''is a directory''),
     (EINVAL, ''invalid argument''),
     (EMFILE, ''too many open files''),
     (ENOSPC, ''no space left''),
     (ESPIPE, ''cannot seek''),
     (EROFS, ''read-only filesystem''),
     (EPIPE, ''broken pipe''),
     (ENOSYS, ''not implemented''),
     (EMSGSIZE, ''message too long''),
     (EADDRINUSE, ''port already in use''),
     (ENETDOWN, ''no network''),
     (ENETUNREACH, ''network unreachable''),
     (ETIMEDOUT, ''timed out''),
     (ECONNRESET, ''connection reset''),
     (ECONNREFUSED, ''connection refused''),
     (EOPNOTSUPP, ''operation not supported''),
     (ENXIO, ''no such device or address''),
     (ENOTCONN, ''not connected''),
     (EISCONN, ''already connected''),
     (EHOSTUNREACH, ''host unreachable''),
     (ENOTEMPTY, ''directory not empty''),
     (ENAMETOOLONG, ''name too long''),
     (ELOOP, ''too many symbolic links''),
     (EMLINK, ''too many links''),
     (EFBIG, ''file too large'')]"

fun error_text :: "int \<Rightarrow> (errno \<times> string) list \<Rightarrow> string" where
  "error_text n [] = ''unknown error''"
| "error_text n ((e, t) # rest) = (if errno_code e = n then t else error_text n rest)"

definition strerror :: "int \<Rightarrow> string" where
  "strerror err = (let n = (if err < 0 then - err else err) in if n = 0 then ''success'' else error_text n error_texts)"

text \<open>Every error number of the kernel has a message.\<close>

lemma strerror_known: "strerror (- errno_code e) \<noteq> ''unknown error''"
proof -
  have "list_all (\<lambda>e. strerror (- errno_code e) \<noteq> ''unknown error'') all_errnos" by code_simp
  moreover have "e \<in> set all_errnos" by (cases e) (simp_all add: all_errnos_def)
  ultimately show ?thesis by (simp add: list_all_iff)
qed

section \<open>What reaches the output\<close>

text \<open>A descriptor that takes at least one byte of every write.\<close>

definition accepting :: "writer \<Rightarrow> bool" where
  "accepting wr \<longleftrightarrow> (\<forall>k n. 0 < n \<longrightarrow> 0 < wr k n)"

definition emitted :: "outbuf \<Rightarrow> string" where
  "emitted b = written b @ data b"

lemma flush_loop_all: "accepting wr \<Longrightarrow> snd (flush_loop wr rest k out) = out @ rest"
proof (induction wr rest k out rule: flush_loop.induct)
  case (1 wr rest k out)
  show ?case
  proof (cases "rest = []")
    case False
    then have "0 < wr k (length rest)" using "1.prems" by (simp add: accepting_def)
    then show ?thesis using 1 False by (subst flush_loop.simps) (simp add: Let_def)
  qed (simp add: flush_loop.simps)
qed

lemma out_flush_emitted:
  assumes "accepting wr"
  shows "written (out_flush wr b) = emitted b" "data (out_flush wr b) = []"
  using flush_loop_all [OF assms, of "data b" "calls b" "written b"]
  by (auto simp: out_flush_def emitted_def Let_def split: prod.splits)

lemma out_char_emitted:
  assumes "accepting wr"
  shows "emitted (out_char wr b c) = emitted b @ [c]"
  using out_flush_emitted [OF assms, of b] by (auto simp: out_char_def emitted_def Let_def)

lemma out_string_emitted:
  assumes "accepting wr"
  shows "emitted (out_string wr b s) = emitted b @ s"
  using out_char_emitted [OF assms] by (induction s arbitrary: b) (simp_all add: out_string_def)

definition number_text :: "u64 \<Rightarrow> nat \<Rightarrow> bool \<Rightarrow> nat \<Rightarrow> bool \<Rightarrow> string" where
  "number_text v base negative width zero_pad =
     (let digits = number_digits base (unat v); padding = width - length digits - (if negative then 1 else 0)
      in (if \<not> zero_pad then replicate padding (CHR '' '') else []) @ (if negative then ''-'' else [])
         @ (if zero_pad then replicate padding (CHR ''0'') else []) @ rev digits)"

lemma emitted_overrun [simp]: "emitted (b\<lparr>overrun := x\<rparr>) = emitted b"
  by (simp add: emitted_def)

lemma out_number_emitted:
  assumes "accepting wr"
  shows "emitted (out_number wr b v base negative width zero_pad) = emitted b @ number_text v base negative width zero_pad"
  unfolding out_number_def number_text_def Let_def
  by (simp add: out_string_emitted [OF assms] out_char_emitted [OF assms])

section \<open>Numbers read back\<close>

lemma number_digits_10:
  "list_all is_digit (number_digits 10 v)" "digits_value 0 (rev (number_digits 10 v)) = v"
proof -
  have "list_all is_digit (number_digits 10 v) \<and> digits_value 0 (rev (number_digits 10 v)) = v"
  proof (induction v rule: less_induct)
    case (less v)
    have d: "digit_char (v mod 10) = digit (v mod 10)" by (simp add: digit_char_def digit_def)
    show ?case
    proof (cases "v div 10 = 0")
      case True
      then have "v < 10" by linarith
      then show ?thesis using d True by (subst (1 2) number_digits.simps) simp
    next
      case False
      then have "v div 10 < v" by (simp add: div_less_dividend gr0I)
      from less.IH [OF this] False show ?thesis by (subst (1 2) number_digits.simps) (simp add: d)
    qed
  qed
  then show "list_all is_digit (number_digits 10 v)" "digits_value 0 (rev (number_digits 10 v)) = v" by blast+
qed

text \<open>The array of 24 digits is long enough for every base the formats use.\<close>

lemma length_number_digits: "2 \<le> base \<Longrightarrow> v < base ^ n \<Longrightarrow> 0 < n \<Longrightarrow> length (number_digits base v) \<le> n"
proof (induction n arbitrary: v)
  case (Suc n)
  show ?case
  proof (cases "v div base = 0")
    case True
    then show ?thesis by (subst number_digits.simps) simp
  next
    case False
    have less: "v div base < base ^ n" using Suc.prems(2) by (simp add: less_mult_imp_div_less mult.commute)
    moreover have "0 < n" using less False by (cases n) auto
    ultimately have "length (number_digits base (v div base)) \<le> n" using Suc.IH Suc.prems(1) by blast
    then show ?thesis by (subst number_digits.simps) simp
  qed
qed simp

lemma number_digits_fit: "length (number_digits 8 (unat (v :: u64))) < 24" "length (number_digits 10 (unat v)) < 24" "length (number_digits 16 (unat v)) < 24"
proof -
  have "unat v < 2 ^ 64" using unsigned_less [of v] by simp
  moreover have "(2 :: nat) ^ 64 \<le> 8 ^ 22" "(2 :: nat) ^ 64 \<le> 10 ^ 20" "(2 :: nat) ^ 64 \<le> 16 ^ 16" by simp_all
  ultimately have less: "unat v < 8 ^ 22" "unat v < 10 ^ 20" "unat v < 16 ^ 16" by linarith+
  have "length (number_digits 8 (unat v)) \<le> 22" by (rule length_number_digits [OF _ less(1)]) simp_all
  moreover have "length (number_digits 10 (unat v)) \<le> 20" by (rule length_number_digits [OF _ less(2)]) simp_all
  moreover have "length (number_digits 16 (unat v)) \<le> 16" by (rule length_number_digits [OF _ less(3)]) simp_all
  ultimately show "length (number_digits 8 (unat v)) < 24" "length (number_digits 10 (unat v)) < 24" "length (number_digits 16 (unat v)) < 24"
    by simp_all
qed


lemma peek_number: "peek (rev (number_digits 10 v)) \<noteq> CHR ''-''"
proof -
  have "rev (number_digits 10 v) \<noteq> []" by (subst number_digits.simps) simp
  then obtain c cs where c: "rev (number_digits 10 v) = c # cs" by (cases "rev (number_digits 10 v)") auto
  then have "c \<in> set (number_digits 10 v)" by (metis list.set_intros(1) set_rev)
  then have "is_digit c" using number_digits_10(1) [of v] by (auto simp: list_all_iff)
  then show ?thesis using c by (auto simp: is_digit_def)
qed

lemma sint_abs:
  fixes v :: u64
  shows "v <s 0 \<Longrightarrow> int (unat (- v)) = - sint v" and "\<not> v <s 0 \<Longrightarrow> int (unat v) = sint v"
proof -
  have u: "0 \<le> uint v" "uint v < 2 ^ 64" using unsigned_greater_eq [of v] unsigned_less [of v] by simp_all
  have big: "sint v = (if uint v < 2 ^ 63 then uint v else uint v - 2 ^ 64)"
  proof (cases "uint v < 2 ^ 63")
    case True
    have "signed_take_bit 63 (uint v) = uint v" using True order_trans [OF _ u(1), of "- (2 ^ 63)"] by (intro signed_take_bit_int_eq_self) simp_all
    then show ?thesis using True by (simp add: sint_uint)
  next
    case False
    have "signed_take_bit 63 (uint v) = signed_take_bit 63 (uint v - 2 ^ 64)"
      by (simp add: signed_take_bit_eq_iff_take_bit_eq take_bit_eq_mod mod_diff_right_eq flip: mod_diff_eq)
    also have "\<dots> = uint v - 2 ^ 64" using u False by (intro signed_take_bit_int_eq_self) simp_all
    finally show ?thesis using False by (simp add: sint_uint)
  qed
  show "int (unat v) = sint v" if "\<not> v <s 0" using that u unfolding word_sless_alt big by (simp split: if_splits)
  show "int (unat (- v)) = - sint v" if n: "v <s 0"
  proof -
    have neg: "uint v \<ge> 2 ^ 63" "sint v = uint v - 2 ^ 64" using n u unfolding word_sless_alt big by (simp_all split: if_splits)
    have "uint (- v) = (- uint v) mod 2 ^ 64" by (simp add: uint_word_ariths)
    also have "\<dots> = (2 ^ 64 - uint v) mod 2 ^ 64" by (metis diff_0 minus_mod_self1 mod_minus_eq add_uminus_conv_diff add.commute mod_add_self1)
    also have "\<dots> = 2 ^ 64 - uint v" using neg u by (intro mod_pos_pos_trivial) simp_all
    finally show ?thesis using neg by simp
  qed
qed

lemma atoi_number:
  fixes v :: u64
  shows "atoi (number_text (if v <s 0 then - v else v) 10 (v <s 0) 0 False) = (if sint v = - LONG_MAX - 1 then None else Some (sint v))"
proof -
  have d: "atoi_digits 0 (rev (number_digits 10 n)) = (if int n \<le> LONG_MAX then Some (int n) else None)" for n
    using atoi_digits_eq [of "rev (number_digits 10 n)" "[]" 0] number_digits_10 [of n] by (simp add: list_all_iff)
  have range: "- LONG_MAX - 1 \<le> sint v" "sint v \<le> LONG_MAX" using sint_greater_eq [of v] sint_less [of v] by simp_all
  show ?thesis
  proof (cases "v <s 0")
    case True
    have "atoi (number_text (- v) 10 True 0 False) = map_option uminus (atoi_digits 0 (rev (number_digits 10 (unat (- v)))))"
      by (simp add: number_text_def atoi_def Let_def)
    then show ?thesis using True sint_abs(1) [OF True] range by (auto simp: d)
  next
    case False
    have "atoi (number_text v 10 False 0 False) = atoi_digits 0 (rev (number_digits 10 (unat v)))"
      using peek_number by (simp add: number_text_def atoi_def Let_def)
    moreover have "sint v \<noteq> - LONG_MAX - 1" using sint_abs(2) [OF False] by linarith
    ultimately show ?thesis using False range(2) unfolding d sint_abs(2) [OF False] by simp
  qed
qed

section \<open>The arrays\<close>

definition sound :: "outbuf \<Rightarrow> bool" where
  "sound b \<longleftrightarrow> \<not> overrun b \<and> length (data b) \<le> 256"

lemma out_flush_sound: "sound b \<Longrightarrow> sound (out_flush wr b)"
  by (simp add: sound_def out_flush_def split_beta Let_def)

lemma out_char_sound: "sound b \<Longrightarrow> sound (out_char wr b c)"
  using out_flush_sound [of b wr] by (auto simp: sound_def out_char_def out_flush_def split_beta Let_def)

lemma out_string_sound: "sound b \<Longrightarrow> sound (out_string wr b s)"
  unfolding out_string_def by (induction s arbitrary: b) (simp_all add: out_char_sound)

lemma out_number_sound:
  assumes "sound b" and "base \<in> {8, 10, 16}"
  shows "sound (out_number wr b v base negative width zero_pad)"
proof -
  have "\<not> length (number_digits base (unat v)) > 24" using number_digits_fit [of v] assms(2) by auto
  then have "sound (b\<lparr>overrun := overrun b \<or> length (number_digits base (unat v)) > 24\<rparr>)" using assms(1) by (simp add: sound_def)
  then show ?thesis unfolding out_number_def Let_def by (auto intro: out_string_sound out_char_sound)
qed

lemma convert_sound: "sound b \<Longrightarrow> sound (fst (convert wr b args c width zero_pad is_long))"
  unfolding convert_def Let_def split_beta by (auto intro!: out_number_sound out_string_sound out_char_sound)

lemma format_loop_sound: "sound b \<Longrightarrow> sound (format_loop wr fmt args b)"
proof (induction wr fmt args b rule: format_loop.induct)
  case (2 wr c fmt args b)
  show ?case
  proof (cases "c = CHR ''%''")
    case True
    define f1 where "f1 = (if peek fmt = CHR ''0'' then tl fmt else fmt)"
    obtain width f2 where w: "read_width 0 f1 = (width, f2)" by fastforce
    define f3 where "f3 = (if peek f2 = CHR ''l'' then tl f2 else f2)"
    show ?thesis
    proof (cases f3)
      case Nil
      then show ?thesis using True w 2(3) by (simp add: Let_def f1_def f3_def)
    next
      case (Cons c' f4)
      obtain b' args' where b': "convert wr b args c' width (peek fmt = CHR ''0'') (peek f2 = CHR ''l'') = (b', args')" by fastforce
      have "sound b'" using convert_sound [OF 2(3), of wr args c' width] b' by (metis fst_conv)
      then have "sound (format_loop wr f4 args' b')"
        using 2(2) [OF _ refl refl w [symmetric, unfolded f1_def] refl refl f3_def [unfolded Cons, symmetric] b' [symmetric]] True by simp
      then show ?thesis using True w Cons b' by (simp add: Let_def f1_def f3_def)
    qed
  qed (use 2(1,3) out_char_sound in simp)
qed simp

lemma format_loop_literal: "CHR ''%'' \<notin> set lit \<Longrightarrow> format_loop wr (lit @ fmt) args b = format_loop wr fmt args (out_string wr b lit)"
  by (induction lit arbitrary: b) (auto simp: out_string_def)



section \<open>Reading a line\<close>

text \<open>A line arrives cut to the room there is, whatever signals interrupt the reads.\<close>

fun plain :: "read_one list \<Rightarrow> string" where
  "plain [] = []"
| "plain (Got c # input) = c # plain input"
| "plain (_ # input) = plain input"

lemma fdreadline_loop_line:
  assumes "Ended \<notin> set input" and "CHR 0x0A \<notin> set (plain input)" and "length buf \<le> room - 1"
  shows "fdreadline_loop room buf (input @ Got (CHR 0x0A) # rest) =
    Some (take (room - 1) (buf @ plain input), int (length (take (room - 1) (buf @ plain input))), rest)"
  using assms
proof (induction input arbitrary: buf rule: plain.induct)
  case (2 c input)
  then have c: "c \<noteq> CHR 0x0A" by auto
  show ?case
  proof (cases "length buf < room - 1")
    case True
    then show ?thesis using c 2 "2.IH" [of "buf @ [c]"] by (simp del: take_append length_take)
  next
    case False
    then show ?thesis using c 2 "2.IH" [of buf] by simp
  qed
qed auto

lemma fdreadline_line:
  assumes "Ended \<notin> set input" and "CHR 0x0A \<notin> set (plain input)" and "0 < room"
  shows "fdreadline room (input @ Got (CHR 0x0A) # rest) =
    Some (take (room - 1) (plain input), int (min (room - 1) (length (plain input))), rest)"
  using fdreadline_loop_line [OF assms(1,2), of "[]" room rest] assms(3) by (simp add: fdreadline_def min.commute)

end
