(* ===== verification/Elf.thy ===== *)
theory Elf
  imports Bytes
begin

text \<open>
  The program loader, \<^verbatim>\<open>src/src/fs/elf.c\<close>, and the relocation of position-independent programs,
  \<^verbatim>\<open>src/src/fs/elf_dyn.c\<close>. All numbers of the file are words of their own width, so the checks have
  to hold against wrap-around. The address space is reached through the four operations of the memory
  manager the loader uses; they are an argument, and so are the file system's read, the random number
  and the success of allocations.
\<close>

unbundle bit_operations_syntax

section \<open>The code\<close>

abbreviation (input) "ELF_MAX_PHDRS \<equiv> 64 :: nat"
abbreviation (input) "ELF_MAX_SEGMENT \<equiv> 268435456 :: u64"
abbreviation (input) "ELF_MIN_VADDR \<equiv> 0x1000 :: u64"
abbreviation (input) "USER_SPACE_END \<equiv> 0x0000800000000000 :: u64"
abbreviation (input) "PT_LOAD \<equiv> 1 :: u32"
abbreviation (input) "PT_DYNAMIC \<equiv> 2 :: u32"
abbreviation (input) "PF_X \<equiv> 1 :: u32"
abbreviation (input) "PF_W \<equiv> 2 :: u32"
abbreviation (input) "ET_EXEC \<equiv> 2 :: u16"
abbreviation (input) "ET_DYN \<equiv> 3 :: u16"
abbreviation (input) "VMM_PRESENT \<equiv> 1 :: u64"
abbreviation (input) "VMM_WRITABLE \<equiv> 2 :: u64"
abbreviation (input) "VMM_USER \<equiv> 4 :: u64"
abbreviation (input) "VMM_NO_EXECUTE \<equiv> 0x8000000000000000 :: u64"
abbreviation (input) "PTE_ADDR_MASK \<equiv> 0x000FFFFFFFFFF000 :: u64"

subsection \<open>Headers\<close>

record Elf64_Ehdr =
  e_ident :: "u8 list"
  e_type :: u16
  e_machine :: u16
  e_entry :: u64
  e_phoff :: u64
  e_phentsize :: u16
  e_phnum :: u16

record Elf64_Phdr =
  p_type :: u32
  p_flags :: u32
  p_offset :: u64
  p_vaddr :: u64
  p_filesz :: u64
  p_memsz :: u64

text \<open>A field of a packed structure: \<open>n\<close> bytes at \<open>at\<close>, little endian.\<close>

definition field :: "nat \<Rightarrow> nat \<Rightarrow> u8 list \<Rightarrow> 'a::len word" where
  "field at n bytes = of_le (take n (drop at bytes))"

definition read_ehdr :: "u8 list \<Rightarrow> Elf64_Ehdr" where
  "read_ehdr b = \<lparr>e_ident = take 16 b, e_type = field 16 2 b, e_machine = field 18 2 b, e_entry = field 24 8 b,
     e_phoff = field 32 8 b, e_phentsize = field 54 2 b, e_phnum = field 56 2 b\<rparr>"

definition read_phdr :: "u8 list \<Rightarrow> Elf64_Phdr" where
  "read_phdr b = \<lparr>p_type = field 0 4 b, p_flags = field 4 4 b, p_offset = field 8 8 b, p_vaddr = field 16 8 b,
     p_filesz = field 32 8 b, p_memsz = field 40 8 b\<rparr>"

fun read_phdrs :: "nat \<Rightarrow> u8 list \<Rightarrow> Elf64_Phdr list" where
  "read_phdrs 0 b = []"
| "read_phdrs (Suc n) b = read_phdr (take 56 b) # read_phdrs n (drop 56 b)"

subsection \<open>The file\<close>

text \<open>The file in memory, or a node whose read gives the bytes it got; \<open>src_size\<close> is the size it claims.\<close>

record elf_source =
  src_data :: "u8 list option"
  src_node :: "(u64 \<Rightarrow> u64 \<Rightarrow> u8 list) option"
  src_size :: u64

definition range_in_file :: "u64 \<Rightarrow> u64 \<Rightarrow> u64 \<Rightarrow> bool" where
  "range_in_file offset len sz \<longleftrightarrow> offset \<le> sz \<and> len \<le> sz - offset"

definition elf_source_read :: "elf_source \<Rightarrow> u64 \<Rightarrow> u64 \<Rightarrow> u8 list option" where
  "elf_source_read src offset len =
     (if \<not> range_in_file offset len (src_size src) then None
      else if len = 0 then Some []
      else case src_data src of
        Some d \<Rightarrow> Some (take (unat len) (drop (unat offset) d))
      | None \<Rightarrow> (case src_node src of
          None \<Rightarrow> None
        | Some rd \<Rightarrow> let got = rd offset len in if length got = unat len then Some got else None))"

subsection \<open>The address space\<close>

record 'v vmm_ops =
  vmm_get_pte :: "'v \<Rightarrow> u64 \<Rightarrow> u64"
  vmm_map_page :: "'v \<Rightarrow> u64 \<Rightarrow> u64 \<Rightarrow> u64 \<Rightarrow> 'v \<times> bool"
  vmm_alloc_user_page :: "'v \<Rightarrow> u64 \<Rightarrow> u64 \<Rightarrow> 'v \<times> bool"
  vmm_copy_to_space :: "'v \<Rightarrow> u64 \<Rightarrow> u8 list \<Rightarrow> 'v \<times> u64"

function copy_chunks :: "'v vmm_ops \<Rightarrow> elf_source \<Rightarrow> u64 \<Rightarrow> u64 \<Rightarrow> nat \<Rightarrow> nat \<Rightarrow> 'v \<Rightarrow> 'v \<times> bool" where
  "copy_chunks ops src offset vaddr done len v =
     (if done < len then
        let chunk = min (len - done) PAGE_SIZE
        in case elf_source_read src (offset + of_nat done) (of_nat chunk) of
          None \<Rightarrow> (v, False)
        | Some bytes \<Rightarrow>
            let (v, n) = vmm_copy_to_space ops v (vaddr + of_nat done) bytes
            in if n = of_nat chunk then copy_chunks ops src offset vaddr (done + chunk) len v else (v, False)
      else (v, True))"
  by pat_completeness auto
termination by (relation "measure (\<lambda>(_, _, _, _, done, len, _). len - done)") auto

declare copy_chunks.simps [simp del]

text \<open>\<open>bounce\<close>: whether the bounce buffer could be allocated.\<close>

definition copy_from_source :: "bool \<Rightarrow> 'v vmm_ops \<Rightarrow> elf_source \<Rightarrow> u64 \<Rightarrow> u64 \<Rightarrow> u64 \<Rightarrow> 'v \<Rightarrow> 'v \<times> bool" where
  "copy_from_source bounce ops src offset vaddr len v =
     (case src_data src of
        Some d \<Rightarrow>
          if \<not> range_in_file offset len (src_size src) then (v, False)
          else let (v, n) = vmm_copy_to_space ops v vaddr (take (unat len) (drop (unat offset) d)) in (v, n = len)
      | None \<Rightarrow> if \<not> bounce then (v, False) else copy_chunks ops src offset vaddr 0 (unat len) v)"

subsection \<open>Segments\<close>

definition segment_valid :: "Elf64_Phdr \<Rightarrow> u64 \<Rightarrow> u64 \<Rightarrow> bool" where
  "segment_valid ph sz bias =
     (if p_memsz ph = 0 then True
      else if p_filesz ph > p_memsz ph then False
      else if \<not> range_in_file (p_offset ph) (p_filesz ph) sz then False
      else if p_memsz ph > ELF_MAX_SEGMENT then False
      else let vaddr = p_vaddr ph + bias
        in if vaddr < p_vaddr ph then False
           else if vaddr < ELF_MIN_VADDR then False
           else if vaddr \<ge> USER_SPACE_END \<or> p_memsz ph > USER_SPACE_END - vaddr then False
           else True)"

definition segment_flags :: "Elf64_Phdr \<Rightarrow> u64" where
  "segment_flags ph = VMM_PRESENT OR VMM_USER OR (if p_flags ph AND PF_W \<noteq> 0 then VMM_WRITABLE else 0)
     OR (if p_flags ph AND PF_X = 0 then VMM_NO_EXECUTE else 0)"

definition page_down :: "u64 \<Rightarrow> u64" where
  "page_down a = a AND NOT 0xFFF"

definition page_align_up :: "u64 \<Rightarrow> u64" where
  "page_align_up a = (a + 0x1000 - 1) AND NOT 0xFFF"

text \<open>
  The loop over the pages of a segment, on the numbers the addresses stand for: the end of a validated
  segment is at most \<open>2 ^ 47\<close>, so adding a page never wraps.
\<close>

function load_pages :: "'v vmm_ops \<Rightarrow> u64 \<Rightarrow> nat \<Rightarrow> nat \<Rightarrow> 'v \<Rightarrow> 'v \<times> bool" where
  "load_pages ops flags page stop v =
     (if page < stop then
        let addr = of_nat page; pte = vmm_get_pte ops v addr;
            merged = (pte AND (VMM_WRITABLE OR VMM_USER)) OR (flags AND VMM_WRITABLE) OR VMM_PRESENT OR VMM_USER;
            merged = (if pte AND VMM_NO_EXECUTE \<noteq> 0 \<and> flags AND VMM_NO_EXECUTE \<noteq> 0 then merged OR VMM_NO_EXECUTE else merged);
            (v, ok) = (if pte AND VMM_PRESENT \<noteq> 0 then vmm_map_page ops v addr (pte AND PTE_ADDR_MASK) merged
                       else vmm_alloc_user_page ops v addr flags)
        in if ok then load_pages ops flags (page + PAGE_SIZE) stop v else (v, False)
      else (v, True))"
  by pat_completeness auto
termination by (relation "measure (\<lambda>(_, _, page, stop, _). stop - page)") auto

declare load_pages.simps [simp del]

definition load_segment :: "bool \<Rightarrow> 'v vmm_ops \<Rightarrow> elf_source \<Rightarrow> Elf64_Phdr \<Rightarrow> u64 \<Rightarrow> 'v \<Rightarrow> 'v \<times> bool" where
  "load_segment bounce ops src ph bias v =
     (if p_memsz ph = 0 then (v, True)
      else let vaddr = p_vaddr ph + bias; first_page = page_down vaddr; stop = vaddr + p_memsz ph;
               (v, ok) = load_pages ops (segment_flags ph) (unat first_page) (unat stop) v
        in if ok then copy_from_source bounce ops src (p_offset ph) vaddr (p_filesz ph) v else (v, False))"

definition segment_pages :: "Elf64_Phdr \<Rightarrow> u64 \<Rightarrow> u64 \<times> u64" where
  "segment_pages ph bias = (let vaddr = p_vaddr ph + bias in (page_down vaddr, page_align_up (vaddr + p_memsz ph)))"

definition segment_lazy :: "Elf64_Phdr list \<Rightarrow> nat \<Rightarrow> u64 \<Rightarrow> bool" where
  "segment_lazy phdr which bias =
     (let ph = phdr ! which
      in if p_memsz ph = 0 \<or> p_flags ph AND PF_W \<noteq> 0 \<or> p_filesz ph \<noteq> p_memsz ph then False
         else if p_offset ph AND 0xFFF \<noteq> (p_vaddr ph + bias) AND 0xFFF then False
         else let (first, stop) = segment_pages ph bias
           in list_all (\<lambda>i. i = which \<or> p_type (phdr ! i) \<noteq> PT_LOAD \<or> p_memsz (phdr ! i) = 0
                \<or> (let (other_start, other_end) = segment_pages (phdr ! i) bias in \<not> (first < other_end \<and> other_start < stop)))
              [0 ..< length phdr])"

definition random_load_base :: "u32 \<Rightarrow> u64" where
  "random_load_base r = 0x100000000 + push_bit 12 (ucast (r AND 0x3FFFFFF))"


subsection \<open>Relocation\<close>

fun vaddr_to_file_offset :: "Elf64_Phdr list \<Rightarrow> u64 \<Rightarrow> u64 \<Rightarrow> u64 \<Rightarrow> u64 option" where
  "vaddr_to_file_offset [] sz vaddr len = None"
| "vaddr_to_file_offset (ph # phs) sz vaddr len =
     (if p_type ph \<noteq> PT_LOAD \<or> vaddr < p_vaddr ph then vaddr_to_file_offset phs sz vaddr len
      else let within = vaddr - p_vaddr ph
        in if within > p_filesz ph \<or> len > p_filesz ph - within then vaddr_to_file_offset phs sz vaddr len
           else let offset = p_offset ph + within
             in if offset < p_offset ph \<or> \<not> range_in_file offset len sz then None else Some offset)"

fun vaddr_in_image :: "Elf64_Phdr list \<Rightarrow> u64 \<Rightarrow> u64 \<Rightarrow> bool" where
  "vaddr_in_image [] vaddr len = False"
| "vaddr_in_image (ph # phs) vaddr len =
     (if p_type ph \<noteq> PT_LOAD \<or> vaddr < p_vaddr ph then vaddr_in_image phs vaddr len
      else let within = vaddr - p_vaddr ph
        in if within \<le> p_memsz ph \<and> len \<le> p_memsz ph - within then True else vaddr_in_image phs vaddr len)"

record rela_info =
  rela_vaddr :: u64
  rela_size :: u64
  rela_entry :: u64
  have_rela :: bool
  ended :: bool

fun dyn_entries :: "nat \<Rightarrow> u8 list \<Rightarrow> rela_info \<Rightarrow> rela_info" where
  "dyn_entries 0 bytes info = info"
| "dyn_entries (Suc n) bytes info =
     (if ended info then info
      else let tag = field 0 8 bytes :: u64; val = field 8 8 bytes;
               info = (if tag = 0 then info\<lparr>ended := True\<rparr>
                       else if tag = 7 then info\<lparr>rela_vaddr := val, have_rela := True\<rparr>
                       else if tag = 8 then info\<lparr>rela_size := val\<rparr>
                       else if tag = 9 then info\<lparr>rela_entry := val\<rparr> else info)
        in dyn_entries n (drop 16 bytes) info)"

function dyn_loop :: "elf_source \<Rightarrow> u64 \<Rightarrow> nat \<Rightarrow> nat \<Rightarrow> rela_info \<Rightarrow> rela_info option" where
  "dyn_loop src base at dyn_count info =
     (if at < dyn_count \<and> \<not> ended info then
        let n = min (dyn_count - at) 16
        in case elf_source_read src (base + of_nat at * 16) (of_nat n * 16) of
          None \<Rightarrow> None
        | Some bytes \<Rightarrow> dyn_loop src base (at + 16) dyn_count (dyn_entries n bytes info)
      else Some info)"
  by pat_completeness auto
termination by (relation "measure (\<lambda>(_, _, at, dyn_count, _). dyn_count - at)") auto

declare dyn_loop.simps [simp del]

fun apply_relas :: "'v vmm_ops \<Rightarrow> Elf64_Phdr list \<Rightarrow> u64 \<Rightarrow> nat \<Rightarrow> u8 list \<Rightarrow> 'v \<times> nat \<Rightarrow> ('v \<times> nat) \<times> bool" where
  "apply_relas ops phs bias 0 bytes s = (s, True)"
| "apply_relas ops phs bias (Suc n) bytes s =
     (let r_offset = field 0 8 bytes; type = ucast (field 8 8 bytes :: u64) :: u32; r_addend = field 16 8 bytes; rest = drop 24 bytes
      in if type = 0 then apply_relas ops phs bias n rest s
         else if type \<noteq> 8 then (s, False)
         else if \<not> vaddr_in_image phs r_offset 8 then (s, False)
         else let (v, wrote) = vmm_copy_to_space ops (fst s) (bias + r_offset) (to_le 8 (bias + r_addend))
           in if wrote \<noteq> 8 then ((v, snd s), False) else apply_relas ops phs bias n rest (v, snd s + 1))"

function rela_loop :: "'v vmm_ops \<Rightarrow> Elf64_Phdr list \<Rightarrow> elf_source \<Rightarrow> u64 \<Rightarrow> u64 \<Rightarrow> nat \<Rightarrow> nat \<Rightarrow> 'v \<times> nat \<Rightarrow> ('v \<times> nat) \<times> bool" where
  "rela_loop ops phs src table_offset bias at count s =
     (if at < count then
        let n = min (count - at) 64
        in case elf_source_read src (table_offset + of_nat at * 24) (of_nat n * 24) of
          None \<Rightarrow> (s, False)
        | Some bytes \<Rightarrow>
            let (s, ok) = apply_relas ops phs bias n bytes s
            in if ok then rela_loop ops phs src table_offset bias (at + 64) count s else (s, False)
      else (s, True))"
  by pat_completeness auto
termination by (relation "measure (\<lambda>(_, _, _, _, _, at, count, _). count - at)") auto

declare rela_loop.simps [simp del]

definition elf_apply_relocations_from :: "'v vmm_ops \<Rightarrow> elf_source \<Rightarrow> Elf64_Phdr list \<Rightarrow> u64 \<Rightarrow> 'v \<Rightarrow> ('v \<times> nat) \<times> bool" where
  "elf_apply_relocations_from ops src phs bias v =
     (case find (\<lambda>ph. p_type ph = PT_DYNAMIC) phs of
        None \<Rightarrow> ((v, 0), True)
      | Some dynamic \<Rightarrow>
          if \<not> range_in_file (p_offset dynamic) (p_filesz dynamic) (src_size src) then ((v, 0), False)
          else let dyn_count = unat (p_filesz dynamic div 16)
            in case dyn_loop src (p_offset dynamic) 0 dyn_count
                 \<lparr>rela_vaddr = 0, rela_size = 0, rela_entry = 24, have_rela = False, ended = False\<rparr> of
              None \<Rightarrow> ((v, 0), False)
            | Some info \<Rightarrow>
                if \<not> have_rela info \<or> rela_size info = 0 then ((v, 0), True)
                else if rela_entry info \<noteq> 24 \<or> rela_size info mod 24 \<noteq> 0 then ((v, 0), False)
                else let count = unat (rela_size info div 24)
                  in if count > 2 ^ 20 then ((v, 0), False)
                     else case vaddr_to_file_offset phs (src_size src) (rela_vaddr info) (rela_size info) of
                       None \<Rightarrow> ((v, 0), False)
                     | Some table_offset \<Rightarrow> rela_loop ops phs src table_offset bias 0 count (v, 0))"

subsection \<open>The loader\<close>

record elf_segment =
  seg_start :: u64
  seg_end :: u64
  seg_prot :: u32

record elf_lazy =
  lazy_start :: u64
  lazy_end :: u64
  file_offset :: u64
  lazy_prot :: u32

record elf_program =
  entry :: u64
  image_end :: u64
  segments :: "elf_segment list"
  lazy :: "elf_lazy list"

definition PROT :: "u32 \<Rightarrow> bool \<Rightarrow> u32" where
  "PROT flags writable = 1 OR (if writable \<and> flags AND PF_W \<noteq> 0 then 2 else 0) OR (if flags AND PF_X \<noteq> 0 then 4 else 0)"

text \<open>What one turn of the loop over the program headers leaves in \<open>out\<close>, and the highest address so far.\<close>

definition report_segment :: "Elf64_Phdr \<Rightarrow> u64 \<Rightarrow> elf_program \<Rightarrow> elf_program" where
  "report_segment ph bias out =
     (let seg_end = p_vaddr ph + bias + p_memsz ph;
          out = (if seg_end > image_end out then out\<lparr>image_end := seg_end\<rparr> else out)
      in if length (segments out) < 4 \<and> p_memsz ph > 0 then
           let (first, stop) = segment_pages ph bias
           in out\<lparr>segments := segments out @ [\<lparr>seg_start = first, seg_end = stop, seg_prot = PROT (p_flags ph) True\<rparr>]\<rparr>
         else out)"

fun load_segments ::
  "(nat \<Rightarrow> bool) \<Rightarrow> 'v vmm_ops \<Rightarrow> elf_source \<Rightarrow> Elf64_Phdr list \<Rightarrow> u64 \<Rightarrow> nat list \<Rightarrow> 'v \<times> elf_program \<times> bool \<Rightarrow> ('v \<times> elf_program \<times> bool) \<times> bool"
where
  "load_segments bounce ops src phs bias [] s = (s, True)"
| "load_segments bounce ops src phs bias (i # is) (v, out, any) =
     (let ph = phs ! i
      in if p_type ph \<noteq> PT_LOAD then load_segments bounce ops src phs bias is (v, out, any)
         else if \<not> segment_valid ph (src_size src) bias then ((v, out, any), False)
         else if src_node src \<noteq> None \<and> length (lazy out) < 4 \<and> segment_lazy phs i bias then
           let (first, stop) = segment_pages ph bias;
               out = out\<lparr>lazy := lazy out @ [\<lparr>lazy_start = first, lazy_end = stop, file_offset = page_down (p_offset ph),
                                              lazy_prot = PROT (p_flags ph) False\<rparr>]\<rparr>
           in load_segments bounce ops src phs bias is (v, report_segment ph bias out, True)
         else let (v, ok) = load_segment (bounce i) ops src ph bias v
           in if ok then load_segments bounce ops src phs bias is (v, report_segment ph bias out, True)
              else ((v, out, any), False))"

definition entry_in_segment :: "Elf64_Ehdr \<Rightarrow> Elf64_Phdr \<Rightarrow> bool" where
  "entry_in_segment ehdr ph \<longleftrightarrow> p_type ph = PT_LOAD \<and> p_flags ph AND PF_X \<noteq> 0
     \<and> e_entry ehdr \<ge> p_vaddr ph \<and> e_entry ehdr - p_vaddr ph < p_memsz ph"

definition header_ok :: "Elf64_Ehdr \<Rightarrow> u64 \<Rightarrow> bool" where
  "header_ok ehdr sz =
     (if take 4 (e_ident ehdr) \<noteq> [0x7F, 0x45, 0x4C, 0x46] then False
      else if e_ident ehdr ! 4 \<noteq> 2 \<or> e_ident ehdr ! 5 \<noteq> 1 \<or> e_machine ehdr \<noteq> 62
              \<or> (e_type ehdr \<noteq> ET_EXEC \<and> e_type ehdr \<noteq> ET_DYN) then False
      else if e_phentsize ehdr \<noteq> 56 \<or> e_phnum ehdr = 0 \<or> unat (e_phnum ehdr) > ELF_MAX_PHDRS
              \<or> \<not> range_in_file (e_phoff ehdr) (ucast (e_phnum ehdr) * 56) sz then False
      else True)"

text \<open>\<open>r\<close> is the random number, \<open>room\<close> whether the table of program headers could be allocated.\<close>

definition load_image ::
  "u32 \<Rightarrow> bool \<Rightarrow> (nat \<Rightarrow> bool) \<Rightarrow> 'v vmm_ops \<Rightarrow> elf_source \<Rightarrow> u64 \<Rightarrow> 'v \<Rightarrow> 'v \<times> (elf_program \<times> u64) option"
where
  "load_image r room bounce ops src requested_base v =
     (if src_size src < 64 then (v, None)
      else case elf_source_read src 0 64 of
        None \<Rightarrow> (v, None)
      | Some bytes \<Rightarrow>
          let ehdr = read_ehdr bytes
          in if \<not> header_ok ehdr (src_size src) then (v, None)
             else let bias = (if e_type ehdr = ET_DYN then if requested_base \<noteq> 0 then requested_base else random_load_base r else 0)
               in if e_type ehdr = ET_DYN \<and> bias AND 0xFFF \<noteq> 0 then (v, None)
                  else if \<not> room then (v, None)
                  else case elf_source_read src (e_phoff ehdr) (ucast (e_phnum ehdr) * 56) of
                    None \<Rightarrow> (v, None)
                  | Some table \<Rightarrow>
                      let phs = read_phdrs (unat (e_phnum ehdr)) table;
                          ((v, out, any), ok) = load_segments bounce ops src phs bias [0 ..< length phs]
                            (v, \<lparr>entry = 0, image_end = 0, segments = [], lazy = []\<rparr>, False);
                          (v, ok) = (if ok \<and> e_type ehdr = ET_DYN
                            then let ((v, _), ok) = elf_apply_relocations_from ops src phs bias v in (v, ok) else (v, ok));
                          entry = e_entry ehdr + bias
                      in if \<not> ok then (v, None)
                         else if \<not> any \<or> entry < e_entry ehdr \<or> entry \<ge> USER_SPACE_END \<or> \<not> list_ex (entry_in_segment ehdr) phs
                           then (v, None)
                         else (v, Some (out\<lparr>entry := entry\<rparr>, bias)))"

definition load_buffer ::
  "u32 \<Rightarrow> bool \<Rightarrow> (nat \<Rightarrow> bool) \<Rightarrow> 'v vmm_ops \<Rightarrow> u8 list option \<Rightarrow> u64 \<Rightarrow> u64 \<Rightarrow> 'v \<Rightarrow> 'v \<times> (elf_program \<times> u64) option"
where
  "load_buffer r room bounce ops elf_data sz requested_base v =
     (case elf_data of
        None \<Rightarrow> (v, None)
      | Some d \<Rightarrow> load_image r room bounce ops \<lparr>src_data = Some d, src_node = None, src_size = sz\<rparr> requested_base v)"

definition elf_load ::
  "u32 \<Rightarrow> bool \<Rightarrow> (nat \<Rightarrow> bool) \<Rightarrow> 'v vmm_ops \<Rightarrow> u8 list option \<Rightarrow> u64 \<Rightarrow> 'v \<Rightarrow> 'v \<times> (u64 \<times> u64) option"
where
  "elf_load r room bounce ops elf_data sz v =
     (let (v, result) = load_buffer r room bounce ops elf_data sz 0 v
      in (v, map_option (\<lambda>(out, _). (entry out, image_end out)) result))"

definition elf_load_at ::
  "u32 \<Rightarrow> bool \<Rightarrow> (nat \<Rightarrow> bool) \<Rightarrow> 'v vmm_ops \<Rightarrow> u8 list option \<Rightarrow> u64 \<Rightarrow> u64 \<Rightarrow> 'v \<Rightarrow> 'v \<times> (u64 \<times> u64 \<times> u64) option"
where
  "elf_load_at r room bounce ops elf_data sz requested_base v =
     (let (v, result) = load_buffer r room bounce ops elf_data sz requested_base v
      in (v, map_option (\<lambda>(out, base). (entry out, image_end out, base)) result))"

definition elf_load_program ::
  "u32 \<Rightarrow> bool \<Rightarrow> (nat \<Rightarrow> bool) \<Rightarrow> 'v vmm_ops \<Rightarrow> elf_source \<Rightarrow> 'v \<Rightarrow> 'v \<times> elf_program option"
where
  "elf_load_program r room bounce ops src v =
     (let (v, result) = load_image r room bounce ops src 0 v in (v, map_option fst result))"


section \<open>Addresses a program may have\<close>

definition user_page :: "u64 \<Rightarrow> bool" where
  "user_page page \<longleftrightarrow> unat page mod PAGE_SIZE = 0 \<and> 0x1000 \<le> unat page \<and> unat page + PAGE_SIZE \<le> 2 ^ 47"

definition user_range :: "u64 \<Rightarrow> nat \<Rightarrow> bool" where
  "user_range addr n \<longleftrightarrow> 0x1000 \<le> unat addr \<and> unat addr + n \<le> 2 ^ 47"

lemma unat_page_down: "unat (page_down a) = unat a div PAGE_SIZE * PAGE_SIZE"
proof -
  have mask: "(0xFFF :: u64) = mask 12" by (simp add: mask_eq_exp_minus_1)
  have "page_down a = push_bit 12 (drop_bit 12 a)"
    unfolding page_down_def mask by (rule bit_word_eqI) (auto simp: bit_simps)
  moreover have "unat (push_bit 12 (drop_bit 12 a)) = take_bit 64 (unat a div 4096 * 4096)"
    by (simp add: push_bit_eq_mult drop_bit_eq_div unat_word_ariths unat_div take_bit_eq_mod mod_mult_left_eq)
  moreover have "unat a div 4096 * 4096 < 2 ^ 64"
  proof -
    have "unat a < 2 ^ 64" using unsigned_less [of a, where 'a = nat] by simp
    then show ?thesis using div_times_less_eq_dividend [of "unat a" 4096] by linarith
  qed
  ultimately show ?thesis by (simp add: take_bit_nat_eq_self)
qed

text \<open>The address of something inside a range of addresses that does not wrap.\<close>

lemma unat_plus_nat: "unat a + n < 2 ^ 64 \<Longrightarrow> unat (a + of_nat n :: u64) = unat a + n"
  by (simp add: unat_word_ariths unat_of_nat)

lemma unat_plus: "unat a + unat b < 2 ^ 64 \<Longrightarrow> unat (a + b :: u64) = unat a + unat b"
  by (simp add: unat_word_ariths)

lemma no_wrap: "\<not> a + b < a \<Longrightarrow> unat (a + b :: u64) = unat a + unat b"
  by (metis add.commute not_less unat_plus_simple word_le_nat_alt)

definition vaddr_of :: "Elf64_Phdr \<Rightarrow> u64 \<Rightarrow> u64" where
  "vaddr_of ph bias = p_vaddr ph + bias"

lemma segment_valid_range:
  assumes "segment_valid ph sz bias" and "p_memsz ph \<noteq> 0"
  shows "user_range (p_vaddr ph + bias) (unat (p_memsz ph))" and "unat (p_filesz ph) \<le> unat (p_memsz ph)"
    and "unat (p_vaddr ph + bias) = unat (p_vaddr ph) + unat bias" and "range_in_file (p_offset ph) (p_filesz ph) sz"
proof -
  define va where "va = p_vaddr ph + bias"
  have v: "p_filesz ph \<le> p_memsz ph" "\<not> va < p_vaddr ph" "0x1000 \<le> va" "va < 0x800000000000" "p_memsz ph \<le> 0x800000000000 - va"
    and "range_in_file (p_offset ph) (p_filesz ph) sz"
    using assms unfolding segment_valid_def Let_def va_def [symmetric] by (auto split: if_splits)
  show "range_in_file (p_offset ph) (p_filesz ph) sz" by fact
  show "unat (p_filesz ph) \<le> unat (p_memsz ph)" using v(1) by (simp add: word_le_nat_alt)
  show "unat (p_vaddr ph + bias) = unat (p_vaddr ph) + unat bias" using v(2) by (simp add: no_wrap va_def)
  have "unat (0x800000000000 - va) = 0x800000000000 - unat va" using v(4) by (simp add: unat_sub word_less_nat_alt word_le_nat_alt)
  then show "user_range (p_vaddr ph + bias) (unat (p_memsz ph))"
    using v(3,4,5) unfolding user_range_def va_def [symmetric] by (simp add: word_le_nat_alt word_less_nat_alt)
qed

lemma elf_source_read_length: "elf_source_read src offset len = Some bytes \<Longrightarrow> length bytes \<le> unat len"
  by (auto simp: elf_source_read_def Let_def split: if_splits option.splits)

lemma vaddr_in_image_range:
  assumes "list_all (\<lambda>ph. p_type ph = PT_LOAD \<longrightarrow> segment_valid ph sz bias) phs" and "vaddr_in_image phs addr len" and "0 < unat len"
  shows "user_range (bias + addr) (unat len)"
  using assms(1,2)
proof (induction phs)
  case (Cons ph phs)
  show ?case
  proof (cases "p_type ph = PT_LOAD \<and> \<not> addr < p_vaddr ph \<and> addr - p_vaddr ph \<le> p_memsz ph \<and> len \<le> p_memsz ph - (addr - p_vaddr ph)")
    case True
    define within where "within = addr - p_vaddr ph"
    have w: "unat addr = unat (p_vaddr ph) + unat within" using True by (simp add: within_def unat_sub word_le_nat_alt word_less_nat_alt)
    have l: "unat within + unat len \<le> unat (p_memsz ph)"
    proof -
      have le: "within \<le> p_memsz ph" "len \<le> p_memsz ph - within" using True by (simp_all add: within_def)
      then have "unat (p_memsz ph - within) = unat (p_memsz ph) - unat within" by (simp add: unat_sub)
      with le show ?thesis by (simp add: word_le_nat_alt)
    qed
    then have "p_memsz ph \<noteq> 0" using assms(3) by auto
    moreover have "segment_valid ph sz bias" using Cons.prems(1) True by simp
    ultimately have r: "user_range (p_vaddr ph + bias) (unat (p_memsz ph))" "unat (p_vaddr ph + bias) = unat (p_vaddr ph) + unat bias"
      using segment_valid_range by blast+
    have "unat bias + unat addr + unat len \<le> 2 ^ 47" using r w l by (simp add: user_range_def)
    then have "unat (bias + addr) = unat bias + unat addr" by (intro unat_plus) simp
    then show ?thesis using r w l by (simp add: user_range_def)
  next
    case False
    then have "vaddr_in_image phs addr len" using Cons.prems(2) by (auto simp: Let_def split: if_splits)
    then show ?thesis using Cons.IH Cons.prems(1) by simp
  qed
qed simp

text \<open>The program headers a file has, and an address in an executable one of them, moved by \<open>base\<close>.\<close>

definition program_headers :: "elf_source \<Rightarrow> Elf64_Phdr list" where
  "program_headers src = (case elf_source_read src 0 64 of
       None \<Rightarrow> []
     | Some bytes \<Rightarrow> (case elf_source_read src (e_phoff (read_ehdr bytes)) (ucast (e_phnum (read_ehdr bytes)) * 56) of
           None \<Rightarrow> []
         | Some table \<Rightarrow> read_phdrs (unat (e_phnum (read_ehdr bytes))) table))"

definition starts_in :: "Elf64_Phdr list \<Rightarrow> u64 \<Rightarrow> u64 \<Rightarrow> bool" where
  "starts_in phs base addr \<longleftrightarrow> (\<exists>ph\<in>set phs. p_type ph = PT_LOAD \<and> p_flags ph AND PF_X \<noteq> 0
     \<and> user_range (p_vaddr ph + base) (unat (p_memsz ph))
     \<and> unat (p_vaddr ph + base) \<le> unat addr \<and> unat addr < unat (p_vaddr ph + base) + unat (p_memsz ph))"

lemma entry_starts_in:
  assumes valid: "list_all (\<lambda>ph. p_type ph = PT_LOAD \<longrightarrow> segment_valid ph sz bias) phs" and ex: "list_ex (entry_in_segment ehdr) phs"
  shows "starts_in phs bias (e_entry ehdr + bias)"
proof -
  obtain ph where ph: "ph \<in> set phs" "p_type ph = PT_LOAD" "p_flags ph AND PF_X \<noteq> 0" "p_vaddr ph \<le> e_entry ehdr" "e_entry ehdr - p_vaddr ph < p_memsz ph"
    using ex by (auto simp: list_ex_iff entry_in_segment_def)
  have nz: "p_memsz ph \<noteq> 0" using ph(5) by auto
  have "segment_valid ph sz bias" using valid ph(1,2) by (simp add: list_all_iff)
  note r = segment_valid_range [OF this nz]
  have le: "unat (p_vaddr ph) \<le> unat (e_entry ehdr)" using ph(4) by (simp add: word_le_nat_alt)
  moreover have "unat (e_entry ehdr) - unat (p_vaddr ph) < unat (p_memsz ph)" using ph(4,5) by (simp add: unat_sub word_less_nat_alt)
  ultimately have w: "unat (e_entry ehdr) < unat (p_vaddr ph) + unat (p_memsz ph)" by linarith
  then have "unat (e_entry ehdr) + unat bias < 2 ^ 64" using r(1,3) by (auto simp: user_range_def)
  then have "unat (e_entry ehdr + bias) = unat (e_entry ehdr) + unat bias" by (rule unat_plus)
  then show ?thesis unfolding starts_in_def using ph(1-3) r(1,3) w le by (intro bexI [of _ ph]) auto
qed

section \<open>What the loader asks of the memory manager\<close>

text \<open>
  Operations that keep a property of the address space as long as they are asked for pages and ranges a
  program may have. The loader keeps every such property.
\<close>

locale confined_ops =
  fixes ops :: "'v vmm_ops" and keeps :: "'v \<Rightarrow> bool"
  assumes map_keeps: "keeps v \<Longrightarrow> user_page page \<Longrightarrow> keeps (fst (vmm_map_page ops v page frame flags))"
    and alloc_keeps: "keeps v \<Longrightarrow> user_page page \<Longrightarrow> keeps (fst (vmm_alloc_user_page ops v page flags))"
    and copy_keeps: "keeps v \<Longrightarrow> user_range addr (length bytes) \<Longrightarrow> keeps (fst (vmm_copy_to_space ops v addr bytes))"
begin

lemma load_pages_keeps:
  "keeps v \<Longrightarrow> page mod PAGE_SIZE = 0 \<Longrightarrow> 0x1000 \<le> page \<Longrightarrow> stop \<le> 2 ^ 47 \<Longrightarrow> keeps (fst (load_pages ops flags page stop v))"
proof (induction "stop - page" arbitrary: page v rule: less_induct)
  case less
  show ?case
  proof (cases "page < stop")
    case True
    have "unat (of_nat page :: u64) = page" using True less.prems(4) by (simp add: unat_of_nat)
    moreover have "page + 4096 \<le> 2 ^ 47"
    proof -
      obtain k where k: "page = 4096 * k" using less.prems(2) by (auto simp: mod_eq_0_iff_dvd)
      have "4096 * k < 4096 * 2 ^ 35" using True less.prems(4) k by simp
      then show ?thesis unfolding k by simp
    qed
    ultimately have up: "user_page (of_nat page)" using less.prems(2,3) by (simp add: user_page_def)
    have "keeps (fst (load_pages ops flags (page + PAGE_SIZE) stop v'))" if "keeps v'" for v'
      using less.hyps [of "page + PAGE_SIZE" v'] True less.prems that by simp
    then show ?thesis
      using True map_keeps [OF less.prems(1) up] alloc_keeps [OF less.prems(1) up]
      by (subst load_pages.simps) (auto simp: Let_def split_beta)
  qed (subst load_pages.simps, use less.prems in simp)
qed

lemma copy_chunks_keeps:
  "keeps v \<Longrightarrow> user_range vaddr len \<Longrightarrow> keeps (fst (copy_chunks ops src offset vaddr done len v))"
proof (induction "len - done" arbitrary: "done" v rule: less_induct)
  case less
  show ?case
  proof (cases "done < len")
    case True
    define chunk where "chunk = min (len - done) 4096"
    have c: "done + chunk \<le> len" "0 < chunk" using True by (auto simp: chunk_def)
    have va: "unat (vaddr + of_nat done) = unat vaddr + done"
      using less.prems(2) True by (intro unat_plus_nat) (auto simp: user_range_def)
    show ?thesis
    proof (cases "elf_source_read src (offset + of_nat done) (of_nat chunk)")
      case None
      then show ?thesis using True less.prems by (subst copy_chunks.simps) (simp add: chunk_def Let_def)
    next
      case (Some bytes)
      have "unat (of_nat chunk :: u64) = chunk" by (simp add: chunk_def unat_of_nat)
      then have "length bytes \<le> chunk" using elf_source_read_length [OF Some] by simp
      then have "user_range (vaddr + of_nat done) (length bytes)" using less.prems(2) c va by (simp add: user_range_def)
      then have k: "keeps (fst (vmm_copy_to_space ops v (vaddr + of_nat done) bytes))" using copy_keeps less.prems(1) by blast
      then have "keeps (fst (copy_chunks ops src offset vaddr (done + chunk) len (fst (vmm_copy_to_space ops v (vaddr + of_nat done) bytes))))"
        using less.hyps [of "done + chunk"] c less.prems(2) by simp
      then show ?thesis using True Some k by (subst copy_chunks.simps) (simp add: chunk_def [symmetric] Let_def split_beta)
    qed
  qed (subst copy_chunks.simps, use less.prems in simp)
qed

lemma copy_from_source_keeps:
  assumes "keeps v" and "user_range vaddr (unat len)"
  shows "keeps (fst (copy_from_source bounce ops src offset vaddr len v))"
proof -
  have "user_range vaddr (length (take (unat len) d))" for d :: "u8 list" using assms(2) by (auto simp: user_range_def)
  then have "keeps (fst (vmm_copy_to_space ops v vaddr (take (unat len) d)))" for d
    using copy_keeps [OF assms(1)] by blast
  then show ?thesis using assms copy_chunks_keeps
    by (auto simp: copy_from_source_def Let_def split_beta split: option.splits)
qed

lemma load_segment_keeps:
  assumes "keeps v" and "segment_valid ph sz bias"
  shows "keeps (fst (load_segment bounce ops src ph bias v))"
proof (cases "p_memsz ph = 0")
  case False
  note r = segment_valid_range [OF assms(2) False]
  define va where "va = p_vaddr ph + bias"
  have range: "0x1000 \<le> unat va" "unat va + unat (p_memsz ph) \<le> 2 ^ 47" using r(1) by (simp_all add: user_range_def va_def)
  then have stop: "unat (va + p_memsz ph) \<le> 2 ^ 47" by (subst unat_plus) simp_all
  have "1 \<le> unat va div 4096" using range(1) by (simp add: div_le_mono [of 4096 "unat va" 4096, simplified])
  then have first: "0x1000 \<le> unat (page_down va)" "unat (page_down va) mod 4096 = 0" by (simp_all add: unat_page_down)
  have "keeps (fst (load_pages ops (segment_flags ph) (unat (page_down va)) (unat (va + p_memsz ph)) v))"
    by (rule load_pages_keeps [OF assms(1) first(2,1) stop])
  moreover have "user_range va (unat (p_filesz ph))" using range r(2) by (simp add: user_range_def)
  ultimately show ?thesis using False copy_from_source_keeps
    by (auto simp: load_segment_def Let_def split_beta va_def [symmetric])
qed (use assms in \<open>simp add: load_segment_def\<close>)

lemma apply_relas_keeps:
  "list_all (\<lambda>ph. p_type ph = PT_LOAD \<longrightarrow> segment_valid ph sz bias) phs \<Longrightarrow> keeps (fst s)
    \<Longrightarrow> keeps (fst (fst (apply_relas ops phs bias n bytes s)))"
proof (induction n arbitrary: bytes s)
  case (Suc n)
  have "keeps (fst (vmm_copy_to_space ops (fst s) (bias + off) (to_le 8 (x :: u64))))" if "vaddr_in_image phs off 8" for off x
    using vaddr_in_image_range [OF Suc.prems(1) that] copy_keeps [OF Suc.prems(2)] by simp
  then show ?case using Suc by (auto simp: Let_def split_beta)
qed simp

lemma rela_loop_keeps:
  assumes "list_all (\<lambda>ph. p_type ph = PT_LOAD \<longrightarrow> segment_valid ph sz bias) phs"
  shows "keeps (fst s) \<Longrightarrow> keeps (fst (fst (rela_loop ops phs src table bias at count s)))"
proof (induction "count - at" arbitrary: at s rule: less_induct)
  case less
  show ?case
    using less.hyps [of "at + 64"] less.prems apply_relas_keeps [OF assms]
    by (subst rela_loop.simps) (auto simp: Let_def split_beta split: option.splits)
qed

lemma relocations_keep:
  assumes "list_all (\<lambda>ph. p_type ph = PT_LOAD \<longrightarrow> segment_valid ph sz bias) phs" and "keeps v"
  shows "keeps (fst (fst (elf_apply_relocations_from ops src phs bias v)))"
  unfolding elf_apply_relocations_from_def Let_def
  using rela_loop_keeps [OF assms(1), of "(v, 0)"] assms(2) by (auto split: option.splits)

lemma load_segments_keeps:
  "keeps (fst s) \<Longrightarrow> keeps (fst (fst (load_segments bounce ops src phs bias is s)))
    \<and> (snd (load_segments bounce ops src phs bias is s) \<longrightarrow> (\<forall>i\<in>set is. p_type (phs ! i) = PT_LOAD \<longrightarrow> segment_valid (phs ! i) (src_size src) bias))"
proof (induction "is" arbitrary: s)
  case (Cons i "is")
  obtain v out any where s: "s = (v, out, any)" by (cases s)
  define ph where "ph = phs ! i"
  have ph: "phs ! i = ph" by (simp add: ph_def)
  obtain v' ok where ld: "load_segment (bounce i) ops src ph bias v = (v', ok)" by fastforce
  have v': "keeps v'" if "segment_valid ph (src_size src) bias"
    using load_segment_keeps [OF _ that, of v "bounce i" src] Cons.prems ld by (simp add: s)
  show ?case
  proof (cases "p_type ph = PT_LOAD \<and> segment_valid ph (src_size src) bias")
    case True
    then show ?thesis using Cons v' ld unfolding s load_segments.simps Let_def ph by (auto simp: split_beta ph)
  next
    case False
    then show ?thesis using Cons unfolding s load_segments.simps Let_def ph by (auto simp: ph)
  qed
qed simp

lemma load_image_keeps:
  assumes "keeps v"
  shows "keeps (fst (load_image r room bounce ops src requested_base v))"
proof -
  have seg: "keeps (fst (fst (load_segments bounce ops src phs bias [0 ..< length phs] (v, out, any))))"
    "snd (load_segments bounce ops src phs bias [0 ..< length phs] (v, out, any)) \<Longrightarrow>
      list_all (\<lambda>ph. p_type ph = PT_LOAD \<longrightarrow> segment_valid ph (src_size src) bias) phs" for phs bias out any
    using load_segments_keeps [of "(v, out, any)" bounce src phs bias "[0 ..< length phs]"] assms by (auto simp: list_all_length)
  have rel: "keeps (fst (fst (elf_apply_relocations_from ops src phs bias (fst (fst (load_segments bounce ops src phs bias [0 ..< length phs] (v, out, any)))))))"
    if "snd (load_segments bounce ops src phs bias [0 ..< length phs] (v, out, any))" for phs bias out any
    using relocations_keep [OF seg(2) [OF that] seg(1)] .
  show ?thesis unfolding load_image_def Let_def split_beta
    using assms seg(1) rel by (auto split: option.splits)
qed

lemma load_image_starts:
  assumes "keeps v" and "snd (load_image r room bounce ops src requested_base v) = Some (out, base)"
  shows "starts_in (program_headers src) base (entry out)"
proof -
  have seg: "list_all (\<lambda>ph. p_type ph = PT_LOAD \<longrightarrow> segment_valid ph (src_size src) bias) phs"
    if "snd (load_segments bounce ops src phs bias [0 ..< length phs] (v, out', any))" for phs bias out' any
    using load_segments_keeps [of "(v, out', any)" bounce src phs bias "[0 ..< length phs]"] assms(1) that by (auto simp: list_all_length)
  show ?thesis using assms(2) unfolding load_image_def Let_def split_beta program_headers_def
    by (auto split: option.splits if_splits intro!: entry_starts_in entry_starts_in [where bias = 0, simplified] seg)
qed

end

section \<open>The loader stays inside user space\<close>

text \<open>Any memory manager, with the requests made of it written down.\<close>

datatype request = Map_page u64 u64 | Alloc_page u64 u64 | Copy_to u64 nat

definition recorded :: "'v vmm_ops \<Rightarrow> ('v \<times> request list) vmm_ops" where
  "recorded ops = \<lparr>
     vmm_get_pte = (\<lambda>(v, _). vmm_get_pte ops v),
     vmm_map_page = (\<lambda>(v, rs) page frame flags. let (v, ok) = vmm_map_page ops v page frame flags in ((v, rs @ [Map_page page flags]), ok)),
     vmm_alloc_user_page = (\<lambda>(v, rs) page flags. let (v, ok) = vmm_alloc_user_page ops v page flags in ((v, rs @ [Alloc_page page flags]), ok)),
     vmm_copy_to_space = (\<lambda>(v, rs) addr bytes. let (v, n) = vmm_copy_to_space ops v addr bytes in ((v, rs @ [Copy_to addr (length bytes)]), n))\<rparr>"

primrec request_ok :: "request \<Rightarrow> bool" where
  "request_ok (Map_page page flags) = user_page page"
| "request_ok (Alloc_page page flags) = user_page page"
| "request_ok (Copy_to addr n) = user_range addr n"

interpretation rec_ops: confined_ops "recorded ops" "\<lambda>(v, rs). list_all request_ok rs" for ops :: "'v vmm_ops"
  by unfold_locales (auto simp: recorded_def Let_def split_beta)

lemma read_phdrs_length: "length (read_phdrs n b) = n"
  by (induction n arbitrary: b) simp_all

text \<open>
  An empty segment is accepted without a look at its address, and still moves the end of the image: the
  address at which the heap of the new process will start is then whatever the file says.
\<close>

lemma empty_segment_moves_end:
  assumes "p_memsz ph = 0" and "image_end out < p_vaddr ph + bias"
  shows "segment_valid ph sz bias \<and> image_end (report_segment ph bias out) = p_vaddr ph + bias"
  using assms by (simp add: segment_valid_def report_segment_def Let_def)

text \<open>
  C3. However a program file was crafted, loading it maps pages and writes bytes only at user addresses
  above the first page: every page is aligned and every copy lies whole below the end of user space, the
  writes of relocations included, whatever the memory manager answers on the way. And a file that is
  accepted starts in an executable segment of its own, which lies whole in user space.
\<close>

theorem elf_load_confined:
  "list_all request_ok (snd (fst (load_image r room bounce (recorded ops) src requested_base (v, []))))
   \<and> (case snd (load_image r room bounce (recorded ops) src requested_base (v, [])) of
        None \<Rightarrow> True
      | Some (out, base) \<Rightarrow> \<exists>ph\<in>set (program_headers src). p_type ph = PT_LOAD \<and> p_flags ph AND PF_X \<noteq> 0
          \<and> user_range (p_vaddr ph + base) (unat (p_memsz ph))
          \<and> unat (p_vaddr ph + base) \<le> unat (entry out) \<and> unat (entry out) < unat (p_vaddr ph + base) + unat (p_memsz ph))"
  using rec_ops.load_image_keeps [of "(v, [])" r room bounce ops src requested_base]
    rec_ops.load_image_starts [of "(v, [])" r room bounce ops src requested_base]
  by (auto simp: split_beta starts_in_def split: option.splits)

end
