(* ===== verification/Ipfrag.thy ===== *)
theory Ipfrag
  imports Prelude
begin

text \<open>
  Reassembly of IPv4 fragments, \<^verbatim>\<open>src/src/net/ipfrag.c\<close>. The linked list of pieces is a list, a slot in
  use an element of the array of slots; lengths, offsets and ticks are natural numbers (an offset is
  below \<open>2 ^ 16\<close>, and the ticks of a 64-bit counter do not wrap). A call is one holding of the lock;
  whether the two allocations succeed is an argument.
\<close>

section \<open>The code\<close>

abbreviation (input) "IPV4_PAYLOAD_MAX \<equiv> 65515 :: nat"
abbreviation (input) "IPFRAG_SLOTS \<equiv> 8 :: nat"
abbreviation (input) "IPFRAG_MEMORY \<equiv> 262144 :: nat"
abbreviation (input) "IPFRAG_PIECE_OVERHEAD \<equiv> 32 :: nat"

record piece =
  offset :: nat
  pdata :: "u8 list"

record frag_key =
  src :: u32
  dst :: u32
  protocol :: u8
  ident :: u16

record reassembly =
  used :: bool
  key :: frag_key
  pieces :: "piece list"
  received :: nat
  total :: nat
  cost :: nat
  deadline :: nat
  quote :: "u8 list"

record ipfrag_stats =
  fragments :: nat
  reassembled :: nat
  duplicates :: nat
  refused :: nat
  timeouts :: nat
  evicted :: nat

record ipfrag =
  slots :: "reassembly list"
  memory_used :: nat
  stats :: ipfrag_stats
  timeout_ticks :: nat

text \<open>What \<^verbatim>\<open>memset\<close> leaves of a slot.\<close>

definition empty_slot :: reassembly where
  "empty_slot = \<lparr>used = False, key = \<lparr>src = 0, dst = 0, protocol = 0, ident = 0\<rparr>, pieces = [], received = 0, total = 0, cost = 0,
     deadline = 0, quote = []\<rparr>"

definition ipfrag_boot :: "nat \<Rightarrow> ipfrag" where
  "ipfrag_boot ticks = \<lparr>slots = replicate IPFRAG_SLOTS empty_slot, memory_used = 0,
     stats = \<lparr>fragments = 0, reassembled = 0, duplicates = 0, refused = 0, timeouts = 0, evicted = 0\<rparr>, timeout_ticks = ticks\<rparr>"

definition piece_len :: "piece \<Rightarrow> nat" where
  "piece_len p = length (pdata p)"

definition release :: "ipfrag \<Rightarrow> nat \<Rightarrow> ipfrag" where
  "release f i = f\<lparr>slots := (slots f)[i := empty_slot], memory_used := memory_used f - cost (slots f ! i)\<rparr>"

definition count_refused :: "ipfrag \<Rightarrow> ipfrag" where
  "count_refused f = f\<lparr>stats := (stats f)\<lparr>refused := refused (stats f) + 1\<rparr>\<rparr>"

definition count_evicted :: "ipfrag \<Rightarrow> ipfrag" where
  "count_evicted f = f\<lparr>stats := (stats f)\<lparr>evicted := evicted (stats f) + 1\<rparr>\<rparr>"

definition oldest_except :: "ipfrag \<Rightarrow> nat option \<Rightarrow> nat option" where
  "oldest_except f keep =
     foldl (\<lambda>oldest i. if used (slots f ! i) \<and> keep \<noteq> Some i
               \<and> (case oldest of None \<Rightarrow> True | Some j \<Rightarrow> deadline (slots f ! i) < deadline (slots f ! j))
             then Some i else oldest) None [0 ..< length (slots f)]"

definition copy_piece :: "u8 list \<Rightarrow> piece \<Rightarrow> u8 list" where
  "copy_piece whole p = take (offset p) whole @ pdata p @ drop (offset p + piece_len p) whole"

text \<open>The buffer is not cleared: its first contents are whatever the allocator gave.\<close>

definition assemble :: "u8 list \<Rightarrow> piece list \<Rightarrow> u8 list" where
  "assemble whole ps = foldl copy_piece whole ps"

fun find_slot :: "nat \<Rightarrow> (reassembly \<Rightarrow> bool) \<Rightarrow> reassembly list \<Rightarrow> nat option" where
  "find_slot i P [] = None"
| "find_slot i P (s # ss) = (if P s then Some i else find_slot (i + 1) P ss)"

text \<open>A slot for a new datagram: a free one, or the oldest one given up.\<close>

definition start_slot :: "ipfrag \<Rightarrow> frag_key \<Rightarrow> nat \<Rightarrow> ipfrag \<times> nat" where
  "start_slot f k now =
     (let (f, i) = (case find_slot 0 (\<lambda>s. \<not> used s) (slots f) of
           Some i \<Rightarrow> (f, i)
         | None \<Rightarrow> (case oldest_except f None of
             Some i \<Rightarrow> (count_evicted (release f i), i)
           | None \<Rightarrow> (f, 0)))
      in (f\<lparr>slots := (slots f)[i := (slots f ! i)\<lparr>used := True, key := k, deadline := now + timeout_ticks f\<rparr>]\<rparr>, i))"

text \<open>Room for a piece: older datagrams go first; \<^const>\<open>None\<close> when only this one is left.\<close>

lemma oldest_except_used:
  "oldest_except f keep = Some i \<Longrightarrow> i < length (slots f) \<and> used (slots f ! i) \<and> keep \<noteq> Some i"
proof -
  define step where "step = (\<lambda>oldest i. if used (slots f ! i) \<and> keep \<noteq> Some i
     \<and> (case oldest of None \<Rightarrow> True | Some j \<Rightarrow> deadline (slots f ! i) < deadline (slots f ! j)) then Some i else oldest)"
  have "foldl step o0 is = Some i \<Longrightarrow> o0 = Some i \<or> i \<in> set is \<and> used (slots f ! i) \<and> keep \<noteq> Some i" for o0 "is"
    by (induction "is" arbitrary: o0) (auto simp: step_def split: if_splits)
  from this [of None "[0 ..< length (slots f)]"] show "oldest_except f keep = Some i \<Longrightarrow> ?thesis"
    by (simp add: oldest_except_def step_def)
qed

lemma filter_update_less: "i < length xs \<Longrightarrow> P (xs ! i) \<Longrightarrow> \<not> P y \<Longrightarrow> length (filter P (xs[i := y])) < length (filter P xs)"
  by (induction xs arbitrary: i) (auto split: nat.splits)

function make_room :: "ipfrag \<Rightarrow> nat \<Rightarrow> nat \<Rightarrow> ipfrag \<times> bool" where
  "make_room f r c =
     (if memory_used f + c > IPFRAG_MEMORY then
        (case oldest_except f (Some r) of
           None \<Rightarrow> (f, False)
         | Some victim \<Rightarrow> make_room (count_evicted (release f victim)) r c)
      else (f, True))"
  by pat_completeness auto
termination
proof (relation "measure (\<lambda>(f, _, _). length (filter used (slots f)))")
  fix f :: ipfrag and r c victim
  assume "oldest_except f (Some r) = Some victim"
  then have v: "victim < length (slots f)" "used (slots f ! victim)" using oldest_except_used by blast+
  then have "length (filter used ((slots f)[victim := empty_slot])) < length (filter used (slots f))"
    by (intro filter_update_less) (simp_all add: empty_slot_def)
  then show "((count_evicted (release f victim), r, c), f, r, c) \<in> measure (\<lambda>(f, _, _). length (filter used (slots f)))"
    by (simp add: count_evicted_def release_def)
qed simp

declare make_room.simps [simp del]


record fragment =
  fkey :: frag_key
  foffset :: nat
  more_frags :: bool
  header :: "u8 list"
  fdata :: "u8 list"

text \<open>The piece goes after those that start before it.\<close>

definition insert_piece :: "piece list \<Rightarrow> piece \<Rightarrow> piece list" where
  "insert_piece ps p = takeWhile (\<lambda>q. offset q < offset p) ps @ p # dropWhile (\<lambda>q. offset q < offset p) ps"

definition piece_overlaps :: "piece list \<Rightarrow> piece list \<Rightarrow> nat \<Rightarrow> nat \<Rightarrow> bool" where
  "piece_overlaps before after off stop \<longleftrightarrow>
     (before \<noteq> [] \<and> offset (last before) + piece_len (last before) > off) \<or> (after \<noteq> [] \<and> offset (hd after) < stop)"

definition piece_contradicts :: "reassembly \<Rightarrow> piece list \<Rightarrow> bool \<Rightarrow> nat \<Rightarrow> bool" where
  "piece_contradicts r after m stop \<longleftrightarrow>
     (total r \<noteq> 0 \<and> stop > total r) \<or> (\<not> m \<and> total r \<noteq> 0 \<and> stop \<noteq> total r)
     \<or> (\<not> m \<and> total r = 0 \<and> list_ex (\<lambda>p. offset p + piece_len p > stop) after)"

text \<open>Adding an accepted piece to its datagram.\<close>

definition add_piece :: "reassembly \<Rightarrow> fragment \<Rightarrow> reassembly" where
  "add_piece r x =
     r\<lparr>pieces := insert_piece (pieces r) \<lparr>offset = foffset x, pdata = fdata x\<rparr>,
       received := received r + length (fdata x),
       cost := cost r + (IPFRAG_PIECE_OVERHEAD + length (fdata x)),
       quote := (if foffset x = 0 then 0x45 # drop 1 (take 20 (header x)) @ take 8 (fdata x) else quote r),
       total := (if \<not> more_frags x then foffset x + length (fdata x) else total r)\<rparr>"

text \<open>
  A piece that fits goes into the datagram in slot \<open>i\<close>; if it was the last one missing, the datagram is
  taken out and its pieces are copied together. \<open>junk\<close>: the first contents of the buffer for a whole
  datagram, if it could be allocated.
\<close>

definition accept_piece :: "ipfrag \<Rightarrow> nat \<Rightarrow> fragment \<Rightarrow> (nat \<Rightarrow> u8) option \<Rightarrow> ipfrag \<times> u8 list option" where
  "accept_piece f i x junk =
     (let c = IPFRAG_PIECE_OVERHEAD + length (fdata x)
      in case make_room f i c of
        (f, False) \<Rightarrow> (release (count_refused f) i, None)
      | (f, True) \<Rightarrow>
          let r = add_piece (slots f ! i) x;
              f = f\<lparr>slots := (slots f)[i := r], memory_used := memory_used f + c\<rparr>
          in if total r \<noteq> 0 \<and> received r = total r then
               let f = f\<lparr>slots := (slots f)[i := empty_slot], memory_used := memory_used f - cost r\<rparr>
               in (case junk of
                     None \<Rightarrow> (count_refused f, None)
                   | Some j \<Rightarrow> (f\<lparr>stats := (stats f)\<lparr>reassembled := reassembled (stats f) + 1\<rparr>\<rparr>,
                                Some (assemble (map j [0 ..< total r]) (pieces r))))
             else (f, None))"

text \<open>What becomes of a fragment of the datagram in slot \<open>i\<close>: repeated, refused with the whole datagram, or taken.\<close>

definition place_piece :: "ipfrag \<Rightarrow> nat \<Rightarrow> fragment \<Rightarrow> (nat \<Rightarrow> u8) option \<Rightarrow> ipfrag \<times> u8 list option" where
  "place_piece f i x junk =
     (let off = foffset x; len = length (fdata x); stop = off + len; r = slots f ! i;
          before = takeWhile (\<lambda>q. offset q < off) (pieces r);
          after = dropWhile (\<lambda>q. offset q < off) (pieces r)
      in if after \<noteq> [] \<and> offset (hd after) = off \<and> piece_len (hd after) = len \<and> (more_frags x \<or> total r = stop) then
           (f\<lparr>stats := (stats f)\<lparr>duplicates := duplicates (stats f) + 1\<rparr>\<rparr>, None)
         else if piece_overlaps before after off stop \<or> piece_contradicts r after (more_frags x) stop then
           (release (count_refused f) i, None)
         else accept_piece f i x junk)"

text \<open>
  \<open>room\<close>: whether a piece could be allocated. The result is the new state, the datagram that is complete,
  and whether one was begun.
\<close>

definition ipfrag_input :: "ipfrag \<Rightarrow> fragment \<Rightarrow> nat \<Rightarrow> bool \<Rightarrow> (nat \<Rightarrow> u8) option \<Rightarrow> ipfrag \<times> u8 list option \<times> bool" where
  "ipfrag_input f x now room junk =
     (let f = f\<lparr>stats := (stats f)\<lparr>fragments := fragments (stats f) + 1\<rparr>\<rparr>;
          len = length (fdata x);
          malformed = (more_frags x \<and> (len = 0 \<or> len mod 8 \<noteq> 0)) \<or> foffset x + len > IPV4_PAYLOAD_MAX;
          found = find_slot 0 (\<lambda>s. used s \<and> key s = fkey x) (slots f)
      in if malformed then
           (let f = count_refused f in (case found of None \<Rightarrow> f | Some i \<Rightarrow> release f i), None, False)
         else if \<not> room then (f, None, False)
         else let (f, i) = (case found of Some i \<Rightarrow> (f, i) | None \<Rightarrow> start_slot f (fkey x) now);
                  (f, whole) = place_piece f i x junk
           in (f, whole, found = None))"

text \<open>Giving up what has run out: the slots in turn, the quotes to report, and the next deadline (0: none).\<close>

definition expire_slot :: "nat \<Rightarrow> ipfrag \<times> u8 list list \<times> nat \<Rightarrow> nat \<Rightarrow> ipfrag \<times> u8 list list \<times> nat" where
  "expire_slot now = (\<lambda>(f, quotes, next_deadline) i.
     let r = slots f ! i
     in if \<not> used r then (f, quotes, next_deadline)
        else if deadline r \<le> now then
          (let f = release f i in f\<lparr>stats := (stats f)\<lparr>timeouts := timeouts (stats f) + 1\<rparr>\<rparr>,
           if quote r \<noteq> [] then quotes @ [quote r] else quotes, next_deadline)
        else (f, quotes, if next_deadline = 0 \<or> deadline r < next_deadline then deadline r else next_deadline))"

definition ipfrag_expire :: "ipfrag \<Rightarrow> nat \<Rightarrow> ipfrag \<times> u8 list list \<times> nat" where
  "ipfrag_expire f now = foldl (expire_slot now) (f, [], 0) [0 ..< length (slots f)]"


text \<open>What the tests use to shorten the wait; 0 restores 30 seconds of 100 ticks.\<close>

definition ipfrag_test_timeout :: "ipfrag \<Rightarrow> nat \<Rightarrow> ipfrag" where
  "ipfrag_test_timeout f ticks = f\<lparr>timeout_ticks := if ticks \<noteq> 0 then ticks else 30 * 100\<rparr>"

section \<open>Pieces that fill a datagram\<close>

definition apart :: "piece list \<Rightarrow> bool" where
  "apart ps \<longleftrightarrow> sorted_wrt (\<lambda>p q. offset p + piece_len p \<le> offset q) ps"

abbreviation lengths :: "piece list \<Rightarrow> nat" where
  "lengths ps \<equiv> sum_list (map piece_len ps)"

text \<open>Each piece starts where the one before it ends.\<close>

fun chained :: "nat \<Rightarrow> piece list \<Rightarrow> bool" where
  "chained at [] = True"
| "chained at (p # ps) \<longleftrightarrow> offset p = at \<and> chained (at + piece_len p) ps"

lemma lengths_le:
  "apart ps \<Longrightarrow> \<forall>p\<in>set ps. at \<le> offset p \<and> offset p + piece_len p \<le> t \<Longrightarrow> at \<le> t \<Longrightarrow> at + lengths ps \<le> t"
proof (induction ps arbitrary: at)
  case (Cons p ps)
  have "offset p + piece_len p + lengths ps \<le> t"
    using Cons.IH [of "offset p + piece_len p"] Cons.prems by (auto simp: apart_def)
  then show ?case using Cons.prems(2) by simp
qed simp

lemma chained_if_full:
  "apart ps \<Longrightarrow> \<forall>p\<in>set ps. at \<le> offset p \<and> offset p + piece_len p \<le> t \<Longrightarrow> at \<le> t \<Longrightarrow> at + lengths ps = t \<Longrightarrow> chained at ps"
proof (induction ps arbitrary: at)
  case (Cons p ps)
  have rest: "apart ps" "\<forall>q\<in>set ps. offset p + piece_len p \<le> offset q \<and> offset q + piece_len q \<le> t" "offset p + piece_len p \<le> t"
    using Cons.prems(1,2) by (auto simp: apart_def)
  have "offset p + piece_len p + lengths ps \<le> t" using lengths_le [OF rest] .
  then have "offset p = at" using Cons.prems(2,4) by auto
  then show ?case using Cons.IH [OF rest] Cons.prems(4) by simp
qed simp

lemma assemble_chained:
  "chained at ps \<Longrightarrow> length whole = at + lengths ps \<Longrightarrow> assemble whole ps = take at whole @ concat (map pdata ps)"
proof (induction ps arbitrary: at whole)
  case (Cons p ps)
  define w where "w = copy_piece whole p"
  have p: "offset p = at" "chained (at + piece_len p) ps" "at + piece_len p \<le> length whole" using Cons.prems by auto
  have w: "length w = at + piece_len p + lengths ps" "take (at + piece_len p) w = take at whole @ pdata p"
    using p Cons.prems(2) by (simp_all add: w_def copy_piece_def flip: piece_len_def)
  have "assemble whole (p # ps) = assemble w ps" by (simp add: assemble_def w_def)
  then show ?case using Cons.IH [OF p(2) w(1)] w(2) by simp
qed (simp add: assemble_def)

lemma chained_slices:
  "chained at ps \<Longrightarrow> \<forall>p\<in>set ps. pdata p = take (piece_len p) (drop (offset p) d) \<Longrightarrow> concat (map pdata ps) = take (lengths ps) (drop at d)"
proof (induction ps arbitrary: at)
  case (Cons p ps)
  have "concat (map pdata ps) = take (lengths ps) (drop (at + piece_len p) d)" using Cons by simp
  moreover have "pdata p = take (piece_len p) (drop at d)" using Cons.prems by simp
  ultimately show ?case by (simp add: take_add add.commute)
qed simp

section \<open>A well-formed set of datagrams\<close>

definition slot_ok :: "reassembly \<Rightarrow> bool" where
  "slot_ok s \<longleftrightarrow> (if used s then apart (pieces s) \<and> received s = lengths (pieces s)
      \<and> cost s = sum_list (map (\<lambda>p. IPFRAG_PIECE_OVERHEAD + piece_len p) (pieces s))
      \<and> (total s \<noteq> 0 \<longrightarrow> (\<forall>p\<in>set (pieces s). offset p + piece_len p \<le> total s))
    else s = empty_slot)"

definition frag_inv :: "ipfrag \<Rightarrow> bool" where
  "frag_inv f \<longleftrightarrow> length (slots f) = IPFRAG_SLOTS \<and> (\<forall>s\<in>set (slots f). slot_ok s)
     \<and> memory_used f = sum_list (map cost (slots f)) \<and> memory_used f \<le> IPFRAG_MEMORY"

lemma slot_ok_empty [simp]: "slot_ok empty_slot" "cost empty_slot = 0" "used empty_slot = False"
  by (simp_all add: slot_ok_def empty_slot_def)

lemma sum_update:
  "i < length xs \<Longrightarrow> sum_list (map g (xs[i := y])) + g (xs ! i) = sum_list (map g xs) + (g y :: nat)"
  by (induction xs arbitrary: i) (auto split: nat.splits)

lemma release_inv:
  assumes "frag_inv f" and "i < length (slots f)"
  shows "frag_inv (release f i)"
proof -
  have "set ((slots f)[i := empty_slot]) \<subseteq> insert empty_slot (set (slots f))" by (rule set_update_subset_insert)
  then have "\<forall>s\<in>set ((slots f)[i := empty_slot]). slot_ok s" using assms(1) slot_ok_empty(1) unfolding frag_inv_def by blast
  moreover have "sum_list (map cost ((slots f)[i := empty_slot])) = memory_used f - cost (slots f ! i)"
    using sum_update [OF assms(2), of cost empty_slot] assms(1) by (simp add: frag_inv_def)
  ultimately show ?thesis using assms(1) by (auto simp: frag_inv_def release_def intro: le_trans [OF diff_le_self])
qed

lemma counters_inv [simp]:
  "frag_inv (count_refused f) = frag_inv f" "frag_inv (count_evicted f) = frag_inv f" "frag_inv (f\<lparr>stats := st\<rparr>) = frag_inv f"
  "slots (count_refused f) = slots f" "slots (count_evicted f) = slots f" "memory_used (count_refused f) = memory_used f"
  by (simp_all add: frag_inv_def count_refused_def count_evicted_def)

lemma test_timeout_inv [simp]: "frag_inv (ipfrag_test_timeout f ticks) = frag_inv f" "slots (ipfrag_test_timeout f ticks) = slots f"
  by (simp_all add: frag_inv_def ipfrag_test_timeout_def)

lemma find_slot_Some: "find_slot j P ss = Some i \<Longrightarrow> j \<le> i \<and> i - j < length ss \<and> P (ss ! (i - j))"
proof (induction ss arbitrary: j)
  case (Cons s ss)
  show ?case
  proof (cases "P s")
    case False
    then have "j + 1 \<le> i \<and> i - (j + 1) < length ss \<and> P (ss ! (i - (j + 1)))" using Cons.IH [of "j + 1"] Cons.prems by simp
    moreover from this have "i - j = Suc (i - (j + 1))" by arith
    ultimately show ?thesis by simp
  qed (use Cons.prems in simp)
qed simp

lemma find_slot_None: "find_slot j P ss = None \<Longrightarrow> \<forall>s\<in>set ss. \<not> P s"
  by (induction ss arbitrary: j) (auto split: if_splits)


lemma make_room_inv:
  "frag_inv f \<Longrightarrow> i < length (slots f) \<Longrightarrow> make_room f i c = (f', ok) \<Longrightarrow>
    frag_inv f' \<and> length (slots f') = length (slots f) \<and> slots f' ! i = slots f ! i
    \<and> set (slots f') \<subseteq> insert empty_slot (set (slots f)) \<and> (ok \<longrightarrow> memory_used f' + c \<le> IPFRAG_MEMORY)"
proof (induction f i c arbitrary: f' ok rule: make_room.induct)
  case (1 f i c)
  show ?case
  proof (cases "memory_used f + c > IPFRAG_MEMORY \<and> oldest_except f (Some i) \<noteq> None")
    case True
    then obtain v where v: "oldest_except f (Some i) = Some v" by auto
    note used = oldest_except_used [OF v]
    define g where "g = count_evicted (release f v)"
    have g: "frag_inv g" "slots g = (slots f)[v := empty_slot]"
      using release_inv [OF "1.prems"(1), of v] used by (simp_all add: g_def release_def)
    have "make_room g i c = (f', ok)" using "1.prems"(3) True v by (subst (asm) make_room.simps) (simp add: g_def)
    then have "frag_inv f' \<and> length (slots f') = length (slots g) \<and> slots f' ! i = slots g ! i
      \<and> set (slots f') \<subseteq> insert empty_slot (set (slots g)) \<and> (ok \<longrightarrow> memory_used f' + c \<le> IPFRAG_MEMORY)"
      using "1.IH" [OF _ v, of f' ok] True g(1) "1.prems"(2) g(2) unfolding g_def by simp
    moreover have "slots g ! i = slots f ! i" "set (slots g) \<subseteq> insert empty_slot (set (slots f))"
      using used g(2) set_update_subset_insert [of "slots f" v empty_slot] by auto
    ultimately show ?thesis using g(2) by auto
  next
    case False
    then have "f' = f" "ok \<longrightarrow> memory_used f + c \<le> IPFRAG_MEMORY"
      using "1.prems"(3) by (subst (asm) make_room.simps, auto split: if_splits option.splits)+
    then show ?thesis using "1.prems" by auto
  qed
qed

lemma oldest_except_None:
  assumes "oldest_except f keep = None" and "i < length (slots f)"
  shows "\<not> used (slots f ! i) \<or> keep = Some i"
proof -
  define step where "step = (\<lambda>oldest i. if used (slots f ! i) \<and> keep \<noteq> Some i
     \<and> (case oldest of None \<Rightarrow> True | Some j \<Rightarrow> deadline (slots f ! i) < deadline (slots f ! j)) then Some i else oldest)"
  have some: "foldl step (Some j) is \<noteq> None" for j "is"
    by (induction "is" arbitrary: j) (simp_all add: step_def)
  have "foldl step None is = None \<Longrightarrow> i \<in> set is \<Longrightarrow> \<not> used (slots f ! i) \<or> keep = Some i" for "is"
  proof (induction "is")
    case (Cons k "is")
    have "step None k = None" using Cons.prems(1) some by (cases "step None k") auto
    then show ?case using Cons by (auto simp: step_def split: if_splits)
  qed simp
  from this [of "[0 ..< length (slots f)]"] assms show ?thesis by (simp add: oldest_except_def step_def)
qed

definition fresh_slot :: "frag_key \<Rightarrow> nat \<Rightarrow> reassembly" where
  "fresh_slot k d = empty_slot\<lparr>used := True, key := k, deadline := d\<rparr>"

lemma slot_ok_fresh [simp]: "slot_ok (fresh_slot k d)" "cost (fresh_slot k d) = 0" "used (fresh_slot k d)" "key (fresh_slot k d) = k"
  by (simp_all add: fresh_slot_def slot_ok_def empty_slot_def apart_def)

lemma start_slot_inv:
  assumes "frag_inv f" and "start_slot f k now = (f', i)"
  shows "frag_inv f' \<and> i < length (slots f') \<and> (\<exists>d. slots f' ! i = fresh_slot k d \<and> set (slots f') \<subseteq> insert (fresh_slot k d) (insert empty_slot (set (slots f))))"
proof -
  have len: "length (slots f) = 8" using assms(1) by (simp add: frag_inv_def)
  obtain g where g: "frag_inv g" "length (slots g) = 8" "i < 8" "slots g ! i = empty_slot" "set (slots g) \<subseteq> insert empty_slot (set (slots f))"
    "f' = g\<lparr>slots := (slots g)[i := (slots g ! i)\<lparr>used := True, key := k, deadline := now + timeout_ticks g\<rparr>]\<rparr>"
  proof (cases "find_slot 0 (\<lambda>s. \<not> used s) (slots f)")
    case (Some j)
    then have j: "j < 8" "\<not> used (slots f ! j)" using find_slot_Some [OF Some] len by auto
    then have "slots f ! j = empty_slot" using assms(1) len by (auto simp: frag_inv_def slot_ok_def)
    then show ?thesis using that [of f] assms len j Some by (auto simp: start_slot_def Let_def)
  next
    case None
    then have "used (slots f ! 0)" using find_slot_None [OF None] len by simp
    then obtain j where j: "oldest_except f None = Some j" using oldest_except_None [of f None 0] len by (cases "oldest_except f None") auto
    have "j < 8" using oldest_except_used [OF j] len by simp
    define g where "g = count_evicted (release f j)"
    have "frag_inv g" "slots g = (slots f)[j := empty_slot]"
      using release_inv [OF assms(1)] \<open>j < 8\<close> len by (simp_all add: g_def release_def)
    then show ?thesis using that [of g] assms(2) \<open>j < 8\<close> len j None set_update_subset_insert [of "slots f" j empty_slot]
      by (auto simp: start_slot_def Let_def g_def)
  qed
  define d where "d = now + timeout_ticks g"
  have f': "f' = g\<lparr>slots := (slots g)[i := fresh_slot k d]\<rparr>" using g(4,6) by (simp add: fresh_slot_def d_def)
  have "sum_list (map cost ((slots g)[i := fresh_slot k d])) = sum_list (map cost (slots g))"
    using sum_update [of i "slots g" cost "fresh_slot k d"] g(2,3,4) by simp
  then have "frag_inv f'"
    using g(1) set_update_subset_insert [of "slots g" i "fresh_slot k d"] by (auto simp: f' frag_inv_def)
  moreover have "set (slots f') \<subseteq> insert (fresh_slot k d) (insert empty_slot (set (slots f)))"
    using set_update_subset_insert [of "slots g" i "fresh_slot k d"] g(5) by (auto simp: f')
  ultimately show ?thesis using g(2,3) by (auto simp: f')
qed


section \<open>Taking a piece\<close>

lemma apart_last: "apart ps \<Longrightarrow> q \<in> set ps \<Longrightarrow> offset q + piece_len q \<le> offset (last ps) + piece_len (last ps)"
  by (induction ps) (auto simp: apart_def intro: trans_le_add1)

lemma apart_hd: "apart ps \<Longrightarrow> q \<in> set ps \<Longrightarrow> offset (hd ps) \<le> offset q"
  by (cases ps) (auto simp: apart_def)

lemma split_pieces: "ps = takeWhile (\<lambda>q. offset q < off) ps @ dropWhile (\<lambda>q. offset q < off) ps"
  by simp

lemma set_insert_piece: "set (insert_piece ps p) = insert p (set ps)"
proof -
  have "set ps = set (takeWhile (\<lambda>q. offset q < offset p) ps) \<union> set (dropWhile (\<lambda>q. offset q < offset p) ps)"
    by (metis set_append takeWhile_dropWhile_id)
  then show ?thesis by (auto simp: insert_piece_def)
qed

lemma sum_insert_piece: "sum_list (map g (insert_piece ps p)) = sum_list (map g ps) + (g p :: nat)"
proof -
  have "sum_list (map g ps) = sum_list (map g (takeWhile (\<lambda>q. offset q < offset p) ps)) + sum_list (map g (dropWhile (\<lambda>q. offset q < offset p) ps))"
    by (metis map_append sum_list_append takeWhile_dropWhile_id)
  then show ?thesis by (simp add: insert_piece_def)
qed

lemma between_pieces:
  fixes p :: piece
  defines "off \<equiv> offset p"
  assumes "apart ps" and "\<not> piece_overlaps (takeWhile (\<lambda>q. offset q < off) ps) (dropWhile (\<lambda>q. offset q < off) ps) off (off + piece_len p)"
  shows "\<forall>q\<in>set (takeWhile (\<lambda>q. offset q < off) ps). offset q + piece_len q \<le> off"
    and "\<forall>q\<in>set (dropWhile (\<lambda>q. offset q < off) ps). off + piece_len p \<le> offset q"
proof -
  define a b where "a = takeWhile (\<lambda>q. offset q < off) ps" and "b = dropWhile (\<lambda>q. offset q < off) ps"
  have "apart (a @ b)" using assms(2) by (simp add: a_def b_def)
  then have ab: "apart a" "apart b" by (simp_all add: apart_def sorted_wrt_append)
  have gap: "a = [] \<or> offset (last a) + piece_len (last a) \<le> off" "b = [] \<or> off + piece_len p \<le> offset (hd b)"
    using assms(3) unfolding piece_overlaps_def a_def [symmetric] b_def [symmetric] by auto
  show "\<forall>q\<in>set (takeWhile (\<lambda>q. offset q < off) ps). offset q + piece_len q \<le> off"
    using gap(1) apart_last [OF ab(1)] unfolding a_def [symmetric] by fastforce
  show "\<forall>q\<in>set (dropWhile (\<lambda>q. offset q < off) ps). off + piece_len p \<le> offset q"
    using gap(2) apart_hd [OF ab(2)] unfolding b_def [symmetric] by fastforce
qed

lemma insert_piece_apart:
  assumes "apart ps" and "\<not> piece_overlaps (takeWhile (\<lambda>q. offset q < offset p) ps) (dropWhile (\<lambda>q. offset q < offset p) ps) (offset p) (offset p + piece_len p)"
  shows "apart (insert_piece ps p)"
proof -
  have "apart (takeWhile (\<lambda>q. offset q < offset p) ps @ dropWhile (\<lambda>q. offset q < offset p) ps)" using assms(1) by simp
  then show ?thesis using between_pieces [OF assms] unfolding apart_def insert_piece_def by (auto simp: sorted_wrt_append) (meson le_add1 le_trans)
qed

text \<open>A fragment that neither overlaps what is held nor contradicts where the datagram ends.\<close>

definition fits :: "reassembly \<Rightarrow> fragment \<Rightarrow> bool" where
  "fits r x \<longleftrightarrow> (let before = takeWhile (\<lambda>q. offset q < foffset x) (pieces r); after = dropWhile (\<lambda>q. offset q < foffset x) (pieces r);
       stop = foffset x + length (fdata x)
     in \<not> piece_overlaps before after (foffset x) stop \<and> \<not> piece_contradicts r after (more_frags x) stop)"

lemma add_piece_ok:
  assumes "slot_ok r" and "used r" and "fits r x"
  shows "slot_ok (add_piece r x)" and "used (add_piece r x)" and "key (add_piece r x) = key r"
proof -
  define p where "p = \<lparr>offset = foffset x, pdata = fdata x\<rparr>"
  have p: "offset p = foffset x" "piece_len p = length (fdata x)" by (simp_all add: p_def piece_len_def)
  note ok = assms(1) [unfolded slot_ok_def, simplified assms(2), simplified]
  define a b where "a = takeWhile (\<lambda>q. offset q < foffset x) (pieces r)" and "b = dropWhile (\<lambda>q. offset q < foffset x) (pieces r)"
  have no: "\<not> piece_overlaps a b (foffset x) (foffset x + length (fdata x))" "\<not> piece_contradicts r b (more_frags x) (foffset x + length (fdata x))"
    using assms(3) by (simp_all add: fits_def Let_def a_def b_def)
  have ap: "apart (insert_piece (pieces r) p)" using insert_piece_apart [of "pieces r" p] ok no(1) p by (simp add: a_def b_def)
  have ab: "\<forall>q\<in>set a. offset q + piece_len q \<le> foffset x" "set (pieces r) = set a \<union> set b"
    using between_pieces(1) [of "pieces r" p] ok no(1) p by (simp add: a_def b_def) (metis a_def b_def set_append takeWhile_dropWhile_id)
  have ends: "\<forall>q\<in>set (insert_piece (pieces r) p). offset q + piece_len q \<le> total (add_piece r x)" if "total (add_piece r x) \<noteq> 0"
  proof (cases "more_frags x")
    case True
    then show ?thesis using that ok no(2) p by (auto simp: add_piece_def set_insert_piece piece_contradicts_def)
  next
    case False
    then have t: "total (add_piece r x) = foffset x + length (fdata x)" by (simp add: add_piece_def)
    have "\<forall>q\<in>set b. offset q + piece_len q \<le> foffset x + length (fdata x)"
    proof (cases "total r = 0")
      case True
      then show ?thesis using no(2) False by (auto simp: piece_contradicts_def list_ex_iff not_less)
    next
      case False
      then have "total r = foffset x + length (fdata x)" using no(2) \<open>\<not> more_frags x\<close> by (auto simp: piece_contradicts_def)
      then show ?thesis using ok ab(2) False by auto
    qed
    then show ?thesis using ab p unfolding t set_insert_piece by fastforce
  qed
  show "used (add_piece r x)" "key (add_piece r x) = key r" using assms(2) by (simp_all add: add_piece_def)
  have "received (add_piece r x) = lengths (insert_piece (pieces r) p)"
    "cost (add_piece r x) = sum_list (map (\<lambda>q. IPFRAG_PIECE_OVERHEAD + piece_len q) (insert_piece (pieces r) p))"
    unfolding sum_insert_piece using ok p by (simp_all add: add_piece_def)
  moreover have "pieces (add_piece r x) = insert_piece (pieces r) p" by (simp add: add_piece_def p_def)
  ultimately show "slot_ok (add_piece r x)" using ap ends assms(2) by (simp add: slot_ok_def add_piece_def)
qed

lemma full_datagram:
  assumes "slot_ok r" and "used r" and "total r \<noteq> 0" and "received r = total r"
  shows "assemble (map j [0 ..< total r]) (pieces r) = concat (map pdata (pieces r))" and "chained 0 (pieces r)" and "lengths (pieces r) = total r"
proof -
  note ok = assms(1) [unfolded slot_ok_def, simplified assms(2), simplified]
  show len: "lengths (pieces r) = total r" using ok assms(4) by simp
  show "chained 0 (pieces r)" using chained_if_full [of "pieces r" 0 "total r"] ok assms(3) len by auto
  then show "assemble (map j [0 ..< total r]) (pieces r) = concat (map pdata (pieces r))"
    using assemble_chained [of 0 "pieces r" "map j [0 ..< total r]"] len by simp
qed


lemma accept_piece_inv:
  assumes inv: "frag_inv f" and i: "i < length (slots f)" and r: "used (slots f ! i)" "fits (slots f ! i) x"
    and a: "accept_piece f i x junk = (f', whole)"
  shows "frag_inv f' \<and> set (slots f') \<subseteq> insert (add_piece (slots f ! i) x) (insert empty_slot (set (slots f)))
    \<and> (\<forall>w. whole = Some w \<longrightarrow> (let r = add_piece (slots f ! i) x in slot_ok r \<and> used r \<and> total r \<noteq> 0 \<and> received r = total r
          \<and> w = concat (map pdata (pieces r))))"
proof -
  define c where "c = IPFRAG_PIECE_OVERHEAD + length (fdata x)"
  obtain g ok where g: "make_room f i c = (g, ok)" by fastforce
  note room = make_room_inv [OF inv i g]
  define r' where "r' = add_piece (slots f ! i) x"
  have ok': "slot_ok r'" "used r'" using add_piece_ok [OF _ r] inv i by (auto simp: r'_def frag_inv_def)
  have cost: "cost r' = cost (slots f ! i) + c" by (simp add: r'_def add_piece_def c_def)
  have gi: "slots g ! i = slots f ! i" "i < length (slots g)" using room i by simp_all
  show ?thesis
  proof (cases ok)
    case False
    then have "f' = release (count_refused g) i" "whole = None"
      using a g unfolding accept_piece_def c_def [symmetric] Let_def by simp_all
    moreover have "set (slots (release (count_refused g) i)) \<subseteq> insert empty_slot (set (slots g))"
      by (simp add: release_def set_update_subset_insert)
    ultimately show ?thesis using release_inv [of "count_refused g" i] room gi by auto
  next
    case True
    define h where "h = g\<lparr>slots := (slots g)[i := r'], memory_used := memory_used g + c\<rparr>"
    have sub: "set (slots h) \<subseteq> insert r' (insert empty_slot (set (slots f)))"
      using room set_update_subset_insert [of "slots g" i r'] by (auto simp: h_def)
    have "sum_list (map cost (slots h)) = memory_used h"
      using sum_update [OF gi(2), of cost r'] room cost gi by (simp add: h_def frag_inv_def)
    then have invh: "frag_inv h"
      using room True ok'(1) set_update_subset_insert [of "slots g" i r'] by (auto simp: h_def frag_inv_def)
    define e where "e = h\<lparr>slots := (slots h)[i := empty_slot], memory_used := memory_used h - cost r'\<rparr>"
    have "e = release h i" using gi(2) by (simp add: e_def h_def release_def)
    then have inve: "frag_inv e" "set (slots e) \<subseteq> insert empty_slot (set (slots h))"
      using release_inv [OF invh, of i] gi(2) set_update_subset_insert [of "slots h" i empty_slot] by (simp_all add: h_def release_def)
    have acc: "(f', whole) = (if total r' \<noteq> 0 \<and> received r' = total r' then (case junk of
        None \<Rightarrow> (count_refused e, None)
      | Some j \<Rightarrow> (e\<lparr>stats := (stats e)\<lparr>reassembled := reassembled (stats e) + 1\<rparr>\<rparr>, Some (assemble (map j [0 ..< total r']) (pieces r'))))
      else (h, None))"
      using a g True unfolding accept_piece_def c_def [symmetric] Let_def h_def e_def r'_def gi(1) [symmetric] by simp
    show ?thesis unfolding r'_def [symmetric] Let_def
    proof (cases "total r' \<noteq> 0 \<and> received r' = total r'")
      case True
      then show "frag_inv f' \<and> set (slots f') \<subseteq> insert r' (insert empty_slot (set (slots f)))
        \<and> (\<forall>w. whole = Some w \<longrightarrow> slot_ok r' \<and> used r' \<and> total r' \<noteq> 0 \<and> received r' = total r' \<and> w = concat (map pdata (pieces r')))"
        using acc inve sub ok' full_datagram(1) [OF ok'] by (auto split: option.splits)
    next
      case False
      then have "f' = h" "whole = None" using acc by auto
      then show "frag_inv f' \<and> set (slots f') \<subseteq> insert r' (insert empty_slot (set (slots f)))
        \<and> (\<forall>w. whole = Some w \<longrightarrow> slot_ok r' \<and> used r' \<and> total r' \<noteq> 0 \<and> received r' = total r' \<and> w = concat (map pdata (pieces r')))"
        using invh sub by simp
    qed
  qed
qed

lemma place_piece_inv:
  assumes inv: "frag_inv f" and i: "i < length (slots f)" and r: "used (slots f ! i)"
    and a: "place_piece f i x junk = (f', whole)"
  shows "frag_inv f' \<and> (set (slots f') \<subseteq> insert empty_slot (set (slots f)) \<and> whole = None
    \<or> fits (slots f ! i) x \<and> set (slots f') \<subseteq> insert (add_piece (slots f ! i) x) (insert empty_slot (set (slots f)))
      \<and> (\<forall>w. whole = Some w \<longrightarrow> (let r = add_piece (slots f ! i) x in slot_ok r \<and> used r \<and> total r \<noteq> 0 \<and> received r = total r
          \<and> w = concat (map pdata (pieces r)))))"
proof -
  define stop where "stop = foffset x + length (fdata x)"
  define after where "after = dropWhile (\<lambda>q. offset q < foffset x) (pieces (slots f ! i))"
  define dup where "dup \<longleftrightarrow> after \<noteq> [] \<and> offset (hd after) = foffset x \<and> piece_len (hd after) = length (fdata x) \<and> (more_frags x \<or> total (slots f ! i) = stop)"
  have pl: "(f', whole) = (if dup then (f\<lparr>stats := (stats f)\<lparr>duplicates := duplicates (stats f) + 1\<rparr>\<rparr>, None)
      else if \<not> fits (slots f ! i) x then (release (count_refused f) i, None) else accept_piece f i x junk)"
    using a unfolding place_piece_def fits_def Let_def dup_def after_def stop_def by (simp only: de_Morgan_conj not_not)
  have rel: "frag_inv (release (count_refused f) i)" "set (slots (release (count_refused f) i)) \<subseteq> insert empty_slot (set (slots f))"
    using release_inv [of "count_refused f" i] inv i set_update_subset_insert [of "slots f" i empty_slot] by (simp_all add: release_def)
  show ?thesis
  proof (cases "dup \<or> \<not> fits (slots f ! i) x")
    case True
    then show ?thesis using pl rel inv by (auto split: if_splits)
  next
    case False
    then show ?thesis using pl accept_piece_inv [OF inv i r, of x junk f' whole] by auto
  qed
qed

lemma ipfrag_input_cases:
  assumes inv: "frag_inv f" and inp: "ipfrag_input f x now room junk = (f', whole, b)"
  obtains (dropped) "frag_inv f'" "set (slots f') \<subseteq> insert empty_slot (set (slots f))" "whole = None"
  | (started) d r where "frag_inv f'" "r \<in> insert (fresh_slot (fkey x) d) (set (slots f))" "used r" "key r = fkey x" "fits r x"
      "set (slots f') \<subseteq> insert (add_piece r x) (insert (fresh_slot (fkey x) d) (insert empty_slot (set (slots f))))"
      "\<forall>w. whole = Some w \<longrightarrow> slot_ok (add_piece r x) \<and> total (add_piece r x) \<noteq> 0 \<and> received (add_piece r x) = total (add_piece r x)
          \<and> w = concat (map pdata (pieces (add_piece r x)))"
  | (refused) d where "frag_inv f'" "set (slots f') \<subseteq> insert (fresh_slot (fkey x) d) (insert empty_slot (set (slots f)))" "whole = None"
proof -
  define g where "g = f\<lparr>stats := (stats f)\<lparr>fragments := fragments (stats f) + 1\<rparr>\<rparr>"
  have g: "frag_inv g" "slots g = slots f" using inv by (simp_all add: g_def)
  define found where "found = find_slot 0 (\<lambda>s. used s \<and> key s = fkey x) (slots g)"
  define bad where "bad \<longleftrightarrow> (more_frags x \<and> (length (fdata x) = 0 \<or> length (fdata x) mod 8 \<noteq> 0)) \<or> foffset x + length (fdata x) > IPV4_PAYLOAD_MAX"
  have inp': "(f', whole, b) = (if bad then (let f = count_refused g in (case found of None \<Rightarrow> f | Some i \<Rightarrow> release f i), None, False)
         else if \<not> room then (g, None, False)
         else let (f, i) = (case found of Some i \<Rightarrow> (g, i) | None \<Rightarrow> start_slot g (fkey x) now); (f, whole) = place_piece f i x junk
           in (f, whole, found = None))"
    using inp unfolding ipfrag_input_def Let_def g_def found_def bad_def by simp
  consider "bad \<or> \<not> room" | "\<not> bad" "room" by auto
  then show ?thesis
  proof cases
    case 1
    have "i < length (slots g)" if "found = Some i" for i using that find_slot_Some [of 0 _ "slots g" i] by (simp add: found_def)
    then have "frag_inv f' \<and> set (slots f') \<subseteq> insert empty_slot (set (slots f)) \<and> whole = None"
      using 1 inp' g release_inv [of "count_refused g"] set_update_subset_insert [of "slots f" _ empty_slot]
      by (auto simp: Let_def release_def split: option.splits if_splits dest: in_mono)
    then show ?thesis using dropped by blast
  next
    case 2
    obtain h i where hi: "(case found of Some i \<Rightarrow> (g, i) | None \<Rightarrow> start_slot g (fkey x) now) = (h, i)" by fastforce
    have "\<exists>d. frag_inv h \<and> i < length (slots h) \<and> slots h ! i \<in> insert (fresh_slot (fkey x) d) (set (slots f)) \<and> used (slots h ! i) \<and> key (slots h ! i) = fkey x
        \<and> set (slots h) \<subseteq> insert (fresh_slot (fkey x) d) (insert empty_slot (set (slots f)))"
    proof (cases found)
      case None
      then show ?thesis using hi start_slot_inv [OF g(1), of "fkey x" now h i] g(2) by auto
    next
      case (Some j)
      then have "j < length (slots g) \<and> used (slots g ! j) \<and> key (slots g ! j) = fkey x"
        using find_slot_Some [of 0 "\<lambda>s. used s \<and> key s = fkey x" "slots g" j] by (simp add: found_def)
      then show ?thesis using hi Some g by auto
    qed
    then obtain d where h: "frag_inv h" "i < length (slots h)" "slots h ! i \<in> insert (fresh_slot (fkey x) d) (set (slots f))" "used (slots h ! i)" "key (slots h ! i) = fkey x"
        "set (slots h) \<subseteq> insert (fresh_slot (fkey x) d) (insert empty_slot (set (slots f)))" by blast
    have "place_piece h i x junk = (f', whole)" using inp' 2 hi by (auto split: prod.splits)
    note pl = place_piece_inv [OF h(1,2,4) this]
    show ?thesis
    proof (cases "set (slots f') \<subseteq> insert empty_slot (set (slots h)) \<and> whole = None")
      case True
      then show ?thesis using refused [of d] pl h(6) by auto
    next
      case False
      then show ?thesis using started [of "slots h ! i" d] pl h(3-6) by (auto simp: Let_def)
    qed
  qed
qed

lemma expire_inv: "frag_inv f \<Longrightarrow> set is \<subseteq> {..< length (slots f)} \<Longrightarrow> foldl (expire_slot now) (f, qs, nd) is = (f', qs', nd')
  \<Longrightarrow> frag_inv f' \<and> set (slots f') \<subseteq> insert empty_slot (set (slots f))"
proof (induction "is" arbitrary: f qs nd)
  case (Cons i "is")
  obtain g qs1 nd1 where g: "expire_slot now (f, qs, nd) i = (g, qs1, nd1)" using prod_cases3 by blast
  have "frag_inv g \<and> set (slots g) \<subseteq> insert empty_slot (set (slots f)) \<and> length (slots g) = length (slots f)"
    using g Cons.prems(1,2) release_inv [of f i] set_update_subset_insert [of "slots f" i empty_slot]
    by (auto simp: expire_slot_def Let_def release_def split: if_splits)
  then show ?case using Cons.IH [of g qs1 nd1] Cons.prems(2,3) g by auto
qed auto

section \<open>What is delivered\<close>

datatype frag_event = Arrives fragment nat bool "(nat \<Rightarrow> u8) option" | Timer nat | Set_timeout nat

fun frag_step :: "ipfrag \<Rightarrow> frag_event \<Rightarrow> ipfrag \<times> u8 list option" where
  "frag_step f (Arrives x now room junk) = (case ipfrag_input f x now room junk of (f', whole, _) \<Rightarrow> (f', whole))"
| "frag_step f (Timer now) = (fst (ipfrag_expire f now), None)"
| "frag_step f (Set_timeout ticks) = (ipfrag_test_timeout f ticks, None)"

text \<open>The state after a series of events and what each of them delivered, by the key it was for.\<close>

fun frag_run :: "ipfrag \<Rightarrow> frag_event list \<Rightarrow> ipfrag \<times> (frag_event \<times> u8 list option) list" where
  "frag_run f [] = (f, [])"
| "frag_run f (e # es) = (let (f1, w) = frag_step f e; (f2, ws) = frag_run f1 es in (f2, (e, w) # ws))"

text \<open>A fragment that is not of the datagram \<open>d\<close> with key \<open>k\<close>, or is a slice of it that says truthfully where it ends.\<close>

definition slice_of :: "frag_key \<Rightarrow> u8 list \<Rightarrow> fragment \<Rightarrow> bool" where
  "slice_of k d x \<longleftrightarrow> (fkey x = k \<longrightarrow> fdata x = take (length (fdata x)) (drop (foffset x) d)
     \<and> (\<not> more_frags x \<longrightarrow> foffset x + length (fdata x) = length d))"

definition slot_of :: "frag_key \<Rightarrow> u8 list \<Rightarrow> reassembly \<Rightarrow> bool" where
  "slot_of k d s \<longleftrightarrow> (used s \<and> key s = k \<longrightarrow> (\<forall>p\<in>set (pieces s). pdata p = take (piece_len p) (drop (offset p) d)) \<and> (total s = 0 \<or> total s = length d))"

lemma slot_of_simps [simp]: "slot_of k d empty_slot" "slot_of k d (fresh_slot k' t)"
  by (simp_all add: slot_of_def fresh_slot_def empty_slot_def)

lemma slot_of_add: "slot_of k d r \<Longrightarrow> slice_of k d x \<Longrightarrow> used r \<Longrightarrow> key r = fkey x \<Longrightarrow> slot_of k d (add_piece r x)"
  by (auto simp: slot_of_def slice_of_def add_piece_def set_insert_piece piece_len_def)

lemma whole_datagram:
  assumes "slot_of k d r" and "used r" and "key r = k" and "slot_ok r" and "total r \<noteq> 0" and "received r = total r"
  shows "concat (map pdata (pieces r)) = d"
  using chained_slices [OF full_datagram(2) [OF assms(4,2,5,6)], of d] full_datagram(3) [OF assms(4,2,5,6)] assms by (simp add: slot_of_def)

lemma frag_step_ok:
  assumes "frag_inv f" and "\<forall>s\<in>set (slots f). slot_of k d s" and "frag_step f e = (f', w)"
    and "\<forall>x now room junk. e = Arrives x now room junk \<longrightarrow> slice_of k d x"
  shows "frag_inv f' \<and> (\<forall>s\<in>set (slots f'). slot_of k d s) \<and> (\<forall>x now room junk v. e = Arrives x now room junk \<and> fkey x = k \<and> w = Some v \<longrightarrow> v = d)"
proof (cases e)
  case (Timer now)
  obtain qs nd where "ipfrag_expire f now = (f', qs, nd)" using assms(3) Timer by (cases "ipfrag_expire f now") auto
  then show ?thesis using expire_inv [OF assms(1), of "[0 ..< length (slots f)]" now "[]" 0 f' qs nd] assms(2) Timer by (auto simp: ipfrag_expire_def atLeast0LessThan)
next
  case (Set_timeout ticks)
  then show ?thesis using assms(1-3) by auto
next
  case (Arrives x now room junk)
  then obtain b where inp: "ipfrag_input f x now room junk = (f', w, b)" using assms(3) by (auto split: prod.splits)
  have sl: "slice_of k d x" using assms(4) Arrives by blast
  from assms(1) inp show ?thesis
  proof (cases rule: ipfrag_input_cases)
    case (started t r)
    have "slot_of k d r" using started(2) assms(2) by auto
    note add = slot_of_add [OF this sl started(3,4)]
    have "used (add_piece r x)" "key (add_piece r x) = fkey x" using started(3,4) by (simp_all add: add_piece_def)
    then have "v = d" if "w = Some v" "fkey x = k" for v
      using started(7) that whole_datagram [OF add] by auto
    moreover have "\<forall>s\<in>set (slots f'). slot_of k d s" using started(6) add assms(2) by auto
    ultimately show ?thesis using started(1) Arrives by auto
  qed (use assms(2) Arrives in auto)
qed

lemma frag_run_ok:
  "frag_inv f \<Longrightarrow> \<forall>s\<in>set (slots f). slot_of k d s \<Longrightarrow> \<forall>x now room junk. Arrives x now room junk \<in> set es \<longrightarrow> slice_of k d x \<Longrightarrow> frag_run f es = (f', ws)
    \<Longrightarrow> frag_inv f' \<and> (\<forall>x now room junk v. (Arrives x now room junk, Some v) \<in> set ws \<and> fkey x = k \<longrightarrow> v = d)"
proof (induction es arbitrary: f f' ws)
  case (Cons e es)
  obtain f1 w where st: "frag_step f e = (f1, w)" by fastforce
  obtain f2 ws1 where rn: "frag_run f1 es = (f2, ws1)" by fastforce
  note one = frag_step_ok [OF Cons.prems(1,2) st]
  have "\<forall>x now room junk. e = Arrives x now room junk \<longrightarrow> slice_of k d x" using Cons.prems(3) by auto
  note one = one [OF this]
  have rest: "frag_inv f2 \<and> (\<forall>x now room junk v. (Arrives x now room junk, Some v) \<in> set ws1 \<and> fkey x = k \<longrightarrow> v = d)"
  proof (rule Cons.IH [OF _ _ _ rn])
    show "\<forall>x now room junk. Arrives x now room junk \<in> set es \<longrightarrow> slice_of k d x" using Cons.prems(3) by simp
  qed (use one in blast)+
  have "f' = f2" "ws = (e, w) # ws1" using Cons.prems(4) st rn by auto
  have "v = d" if a: "(Arrives x now room junk, Some v) \<in> set ws" and k: "fkey x = k" for x now room junk v
  proof -
    from a consider "e = Arrives x now room junk" "w = Some v" | "(Arrives x now room junk, Some v) \<in> set ws1"
      unfolding \<open>ws = (e, w) # ws1\<close> by auto
    then show ?thesis using one rest k by cases blast+
  qed
  then show ?case using rest \<open>f' = f2\<close> by blast
qed auto

lemma boot_inv: "frag_inv (ipfrag_boot t)" "\<forall>s\<in>set (slots (ipfrag_boot t)). slot_of k d s"
  by (simp_all add: ipfrag_boot_def frag_inv_def)


section \<open>A datagram that arrives whole is delivered\<close>

text \<open>The fragments of \<open>d\<close>, in any order: they are well formed, none overlaps another, and together they are as long as \<open>d\<close>.\<close>

definition apart_from :: "fragment \<Rightarrow> fragment \<Rightarrow> bool" where
  "apart_from x y \<longleftrightarrow> foffset x + length (fdata x) \<le> foffset y \<or> foffset y + length (fdata y) \<le> foffset x"

definition fragment_in :: "frag_key \<Rightarrow> u8 list \<Rightarrow> fragment \<Rightarrow> bool" where
  "fragment_in k d x \<longleftrightarrow> fkey x = k \<and> fdata x = take (length (fdata x)) (drop (foffset x) d) \<and> fdata x \<noteq> []
     \<and> foffset x + length (fdata x) \<le> length d \<and> (more_frags x \<longleftrightarrow> foffset x + length (fdata x) < length d)
     \<and> (more_frags x \<longrightarrow> length (fdata x) mod 8 = 0)"

definition fragments_of :: "frag_key \<Rightarrow> u8 list \<Rightarrow> fragment list \<Rightarrow> bool" where
  "fragments_of k d xs \<longleftrightarrow> list_all (fragment_in k d) xs \<and> sorted_wrt apart_from xs \<and> list_ex (\<lambda>x. \<not> more_frags x) xs
     \<and> sum_list (map (\<lambda>x. length (fdata x)) xs) = length d \<and> length d \<le> IPV4_PAYLOAD_MAX
     \<and> IPFRAG_PIECE_OVERHEAD * length xs + length d \<le> IPFRAG_MEMORY"

definition piece_of :: "fragment \<Rightarrow> piece" where
  "piece_of x = \<lparr>offset = foffset x, pdata = fdata x\<rparr>"

lemma piece_of_simps [simp]: "offset (piece_of x) = foffset x" "piece_len (piece_of x) = length (fdata x)" "pdata (piece_of x) = fdata x"
  by (simp_all add: piece_of_def piece_len_def)

text \<open>The slot of the datagram with the fragments \<open>ys\<close> of it.\<close>

definition gathered :: "frag_key \<Rightarrow> u8 list \<Rightarrow> fragment list \<Rightarrow> reassembly \<Rightarrow> bool" where
  "gathered k d ys r \<longleftrightarrow> used r \<and> key r = k \<and> set (pieces r) = piece_of ` set ys \<and> received r = sum_list (map (\<lambda>x. length (fdata x)) ys)
     \<and> cost r = IPFRAG_PIECE_OVERHEAD * length ys + sum_list (map (\<lambda>x. length (fdata x)) ys)
     \<and> total r = (if list_ex (\<lambda>x. \<not> more_frags x) ys then length d else 0) \<and> slot_ok r \<and> slot_of k d r"

lemma gathered_fits:
  assumes "gathered k d ys r" and "list_all (fragment_in k d) (ys @ [x])" and "list_all (\<lambda>y. apart_from y x) ys"
  defines "after \<equiv> dropWhile (\<lambda>q. offset q < foffset x) (pieces r)"
  shows "fits r x" and "after = [] \<or> offset (hd after) \<noteq> foffset x"
proof -
  define before where "before = takeWhile (\<lambda>q. offset q < foffset x) (pieces r)"
  have apart: "offset p + piece_len p \<le> foffset x \<or> foffset x + length (fdata x) \<le> offset p" "piece_len p > 0" "offset p + piece_len p \<le> length d" if "p \<in> set (pieces r)" for p
    using that assms(1-3) by (auto simp: gathered_def list_all_iff apart_from_def fragment_in_def)
  have x: "length (fdata x) > 0" "foffset x + length (fdata x) \<le> length d" "\<not> more_frags x \<longrightarrow> foffset x + length (fdata x) = length d"
    using assms(2) by (auto simp: fragment_in_def)
  have b: "offset (last before) < foffset x" "last before \<in> set (pieces r)" if "before \<noteq> []"
    using that last_in_set [of before] unfolding before_def by (blast dest: set_takeWhileD)+
  have a: "\<not> offset (hd after) < foffset x" "hd after \<in> set (pieces r)" if "after \<noteq> []"
    using that hd_dropWhile [of "\<lambda>q. offset q < foffset x" "pieces r"] hd_in_set [of after] unfolding after_def by (blast dest: set_dropWhileD)+
  have "\<not> piece_overlaps before after (foffset x) (foffset x + length (fdata x))"
  proof -
    have "offset (last before) + piece_len (last before) \<le> foffset x" if "before \<noteq> []" using apart(1) [OF b(2) [OF that]] b(1) [OF that] x(1) by arith
    moreover have "foffset x + length (fdata x) \<le> offset (hd after)" if "after \<noteq> []" using apart(1,2) [OF a(2) [OF that]] a(1) [OF that] by arith
    ultimately show ?thesis by (auto simp: piece_overlaps_def)
  qed
  moreover have "\<not> piece_contradicts r after (more_frags x) (foffset x + length (fdata x))"
  proof -
    have "\<forall>p\<in>set after. offset p + piece_len p \<le> length d" using apart(3) set_dropWhileD unfolding after_def by fast
    moreover have "total r = 0 \<or> total r = length d" using assms(1) by (simp add: gathered_def)
    ultimately show ?thesis using x by (auto simp: piece_contradicts_def list_ex_iff not_less)
  qed
  ultimately show "fits r x" by (simp add: fits_def before_def after_def)
  show "after = [] \<or> offset (hd after) \<noteq> foffset x"
  proof (cases "after = []")
    case False
    then show ?thesis using apart(1,2) [OF a(2) [OF False]] x(1) by arith
  qed simp
qed

lemma gathered_add:
  assumes "gathered k d ys r" and "list_all (fragment_in k d) (ys @ [x])" and "list_all (\<lambda>y. apart_from y x) ys"
  shows "gathered k d (ys @ [x]) (add_piece r x)"
proof -
  have x: "fkey x = k" "slice_of k d x" "\<not> more_frags x \<longrightarrow> foffset x + length (fdata x) = length d"
    using assms(2) by (auto simp: fragment_in_def slice_of_def)
  have r: "used r" "key r = k" "slot_ok r" "slot_of k d r" using assms(1) unfolding gathered_def by blast+
  have "set (pieces (add_piece r x)) = piece_of ` set (ys @ [x])"
    using assms(1) by (simp add: gathered_def add_piece_def set_insert_piece piece_of_def)
  then show ?thesis
    using assms(1) x r add_piece_ok [OF r(3,1) gathered_fits(1) [OF assms]] slot_of_add [OF r(4) x(2) r(1)]
    by (auto simp: gathered_def add_piece_def)
qed

text \<open>One more fragment, when nothing has to be evicted for it: the datagram grows, and is delivered with the last one.\<close>

lemma alone_cost:
  assumes "frag_inv f" and "oldest_except f (Some i) = None" and "i < length (slots f)"
  shows "memory_used f = cost (slots f ! i)"
proof -
  have empty: "slots f ! j = empty_slot" if "j < length (slots f)" "j \<noteq> i" for j
    using oldest_except_None [OF assms(2) that(1)] that assms(1) nth_mem [OF that(1)] by (auto simp: frag_inv_def slot_ok_def split: if_splits)
  have "sum_list (map cost ((slots f)[i := empty_slot])) = 0"
    using empty assms(3) by (auto simp: in_set_conv_nth nth_list_update)
  then show ?thesis using sum_update [OF assms(3), of cost empty_slot] assms(1) unfolding frag_inv_def slot_ok_empty(2) by linarith
qed

lemma make_room_evicted:
  "make_room f i c = (f', ok) \<Longrightarrow> evicted (stats f) \<le> evicted (stats f') \<and> timeout_ticks f' = timeout_ticks f
    \<and> (evicted (stats f') = evicted (stats f) \<longrightarrow> f' = f \<and> (ok \<or> oldest_except f (Some i) = None \<and> memory_used f + c > IPFRAG_MEMORY))"
proof (induction f i c arbitrary: f' ok rule: make_room.induct)
  case (1 f i c)
  show ?case
  proof (cases "memory_used f + c > IPFRAG_MEMORY \<and> oldest_except f (Some i) \<noteq> None")
    case True
    then obtain v where v: "oldest_except f (Some i) = Some v" by auto
    have "make_room (count_evicted (release f v)) i c = (f', ok)" using "1.prems" True v by (subst (asm) make_room.simps) simp
    then show ?thesis using "1.IH" [OF _ v, of f' ok] True by (auto simp: count_evicted_def release_def)
  next
    case False
    then show ?thesis using "1.prems" by (subst (asm) make_room.simps) (auto split: if_splits option.splits)
  qed
qed

lemma accept_piece_evicted:
  assumes "accept_piece f i x junk = (f', w)"
  shows "evicted (stats f) \<le> evicted (stats f') \<and> timeout_ticks f' = timeout_ticks f
    \<and> (evicted (stats f') = evicted (stats f) \<longrightarrow> (\<exists>r. slots f' = (slots f)[i := r] \<and> (used r \<longrightarrow> key r = key (slots f ! i))))"
proof -
  obtain g ok where g: "make_room f i (IPFRAG_PIECE_OVERHEAD + length (fdata x)) = (g, ok)" by fastforce
  note room = make_room_evicted [OF g]
  define r where "r = add_piece (slots g ! i) x"
  have "key r = key (slots g ! i)" by (simp add: r_def add_piece_def)
  moreover have "stats f' = stats g \<or> evicted (stats f') = evicted (stats g)" "timeout_ticks f' = timeout_ticks g"
    "slots f' = (slots g)[i := empty_slot] \<or> slots f' = (slots g)[i := r]"
    using assms g unfolding accept_piece_def Let_def
    by (auto simp: r_def release_def count_refused_def split: bool.splits if_splits option.splits)
  ultimately show ?thesis using room by (metis slot_ok_empty(3))
qed

lemma place_piece_evicted:
  assumes "place_piece f i x junk = (f', w)"
  shows "evicted (stats f) \<le> evicted (stats f') \<and> timeout_ticks f' = timeout_ticks f
    \<and> (evicted (stats f') = evicted (stats f) \<longrightarrow> (\<exists>r. slots f' = (slots f)[i := r] \<and> (used r \<longrightarrow> key r = key (slots f ! i))))"
proof -
  consider "f' = f\<lparr>stats := (stats f)\<lparr>duplicates := duplicates (stats f) + 1\<rparr>\<rparr>" | "f' = release (count_refused f) i" | "accept_piece f i x junk = (f', w)"
    using assms unfolding place_piece_def Let_def by (auto split: if_splits)
  then show ?thesis
  proof cases
    case 1
    then show ?thesis by (auto intro!: exI [of _ "slots f ! i"])
  next
    case 2
    then show ?thesis by (auto simp: release_def count_refused_def intro!: exI [of _ empty_slot])
  next
    case 3
    then show ?thesis by (rule accept_piece_evicted)
  qed
qed

lemma start_slot_evicted:
  assumes "frag_inv f" and "start_slot f k now = (f', i)"
  shows "evicted (stats f) \<le> evicted (stats f') \<and> timeout_ticks f' = timeout_ticks f
    \<and> (evicted (stats f') = evicted (stats f) \<longrightarrow> i < length (slots f) \<and> slots f ! i = empty_slot
        \<and> slots f' = (slots f)[i := fresh_slot k (now + timeout_ticks f)])"
proof (cases "find_slot 0 (\<lambda>s. \<not> used s) (slots f)")
  case (Some j)
  then have j: "j < length (slots f)" "\<not> used (slots f ! j)" using find_slot_Some [OF Some] by auto
  then have "slots f ! j = empty_slot" using assms(1) nth_mem [OF j(1)] by (auto simp: frag_inv_def slot_ok_def split: if_splits)
  then show ?thesis using assms(2) j Some by (auto simp: start_slot_def Let_def fresh_slot_def)
next
  case None
  have "0 < length (slots f)" using assms(1) by (simp add: frag_inv_def)
  then obtain v where "oldest_except f None = Some v"
    using oldest_except_None [of f None 0] find_slot_None [OF None] by (cases "oldest_except f None") auto
  then show ?thesis using assms(2) None by (auto simp: start_slot_def Let_def count_evicted_def release_def)
qed

text \<open>A slot that is not of the datagram with key \<open>k\<close>, and what is left alone of a state that is not.\<close>

definition other :: "frag_key \<Rightarrow> reassembly \<Rightarrow> bool" where
  "other k s \<longleftrightarrow> used s \<longrightarrow> key s \<noteq> k"

definition leaves :: "frag_key \<Rightarrow> ipfrag \<Rightarrow> ipfrag \<Rightarrow> bool" where
  "leaves k f f' \<longleftrightarrow> length (slots f') = length (slots f)
     \<and> (\<forall>j < length (slots f). slots f' ! j = slots f ! j \<or> other k (slots f ! j) \<and> other k (slots f' ! j))"

lemma leaves_trans: "leaves k f g \<Longrightarrow> leaves k g h \<Longrightarrow> leaves k f h"
  unfolding leaves_def by metis

lemma leaves_update: "slots f' = (slots f)[i := r] \<Longrightarrow> other k (slots f ! i) \<Longrightarrow> other k r \<Longrightarrow> leaves k f f'"
  unfolding leaves_def by (metis length_list_update nth_list_update_eq nth_list_update_neq)

lemma other_empty [simp]: "other k empty_slot" "other k (fresh_slot k' t) \<longleftrightarrow> k' \<noteq> k"
  by (auto simp: other_def)

lemma ipfrag_input_evicted:
  assumes inv: "frag_inv f" and inp: "ipfrag_input f x now room junk = (f', w, b)"
  shows "evicted (stats f) \<le> evicted (stats f') \<and> timeout_ticks f' = timeout_ticks f
    \<and> (evicted (stats f') = evicted (stats f) \<and> fkey x \<noteq> k \<longrightarrow> leaves k f f')"
proof -
  define g where "g = f\<lparr>stats := (stats f)\<lparr>fragments := fragments (stats f) + 1\<rparr>\<rparr>"
  have g: "frag_inv g" "slots g = slots f" "timeout_ticks g = timeout_ticks f" "evicted (stats g) = evicted (stats f)" using inv by (simp_all add: g_def)
  define found where "found = find_slot 0 (\<lambda>s. used s \<and> key s = fkey x) (slots g)"
  have found: "used (slots f ! i) \<and> key (slots f ! i) = fkey x" if "found = Some i" for i
    using find_slot_Some [of 0 "\<lambda>s. used s \<and> key s = fkey x" "slots f" i] that by (simp add: found_def g)
  consider "f' = g" | "f' = count_refused g" | i where "found = Some i" "f' = release (count_refused g) i"
    | i where "found = Some i" "place_piece g i x junk = (f', w)"
    | h i where "start_slot g (fkey x) now = (h, i)" "place_piece h i x junk = (f', w)"
    using inp unfolding ipfrag_input_def g_def [symmetric] Let_def found_def [symmetric] by (auto split: if_splits option.splits prod.splits)
  then show ?thesis
  proof cases
    case 1
    then show ?thesis using g by (auto simp: leaves_def)
  next
    case 2
    then show ?thesis using g by (auto simp: leaves_def count_refused_def)
  next
    case (3 i)
    have "leaves k f f'" if "fkey x \<noteq> k"
      by (rule leaves_update [of _ _ i empty_slot]) (use 3 g found that in \<open>auto simp: release_def count_refused_def other_def\<close>)
    then show ?thesis using 3 g by (simp add: release_def count_refused_def)
  next
    case (4 i)
    note one = place_piece_evicted [OF 4(2)]
    have "leaves k f f'" if "fkey x \<noteq> k" "evicted (stats f') = evicted (stats f)"
      using one that g found [OF 4(1)] leaves_update [of f' f i _ k] by (auto simp: other_def)
    then show ?thesis using one g by simp
  next
    case (5 h i)
    note st = start_slot_evicted [OF g(1) 5(1)]
    note one = place_piece_evicted [OF 5(2)]
    have "leaves k f f'" if k: "fkey x \<noteq> k" and e: "evicted (stats f') = evicted (stats f)"
    proof -
      have eq: "evicted (stats h) = evicted (stats g)" "evicted (stats f') = evicted (stats h)" using st one e g by linarith+
      have h: "i < length (slots f)" "slots f ! i = empty_slot" "slots h = (slots f)[i := fresh_slot (fkey x) (now + timeout_ticks f)]"
        using st eq(1) g by auto
      obtain r where r: "slots f' = (slots h)[i := r]" "used r \<longrightarrow> key r = key (slots h ! i)" using one eq(2) by blast
      have "leaves k f h" by (rule leaves_update [OF h(3)]) (use h(2) k in simp_all)
      moreover have "leaves k h f'" by (rule leaves_update [OF r(1)]) (use r(2) h k in \<open>auto simp: other_def\<close>)
      ultimately show ?thesis by (rule leaves_trans)
    qed
    then show ?thesis using st one g by (simp add: order_trans)
  qed
qed

lemma gather_step:
  assumes inv: "frag_inv f" and i: "i < length (slots f)" and g: "gathered k d ys (slots f ! i)"
    and ys: "list_all (fragment_in k d) (ys @ [x])" "list_all (\<lambda>y. apart_from y x) ys"
    and room: "IPFRAG_PIECE_OVERHEAD * length (ys @ [x]) + length d \<le> IPFRAG_MEMORY" "sum_list (map (\<lambda>x. length (fdata x)) (ys @ [x])) \<le> length d"
    and p: "place_piece f i x (Some j) = (f', w)" and e: "evicted (stats f') = evicted (stats f)"
  defines "r \<equiv> add_piece (slots f ! i) x"
  shows "w = (if total r \<noteq> 0 \<and> received r = total r then Some d else None)"
    and "\<not> (total r \<noteq> 0 \<and> received r = total r) \<Longrightarrow> slots f' = (slots f)[i := r]"
proof -
  note fit = gathered_fits [OF g ys]
  have r: "gathered k d (ys @ [x]) r" unfolding r_def by (rule gathered_add [OF g ys])
  then have ok: "slot_ok r" "used r" "key r = k" "slot_of k d r" unfolding gathered_def by blast+
  have acc: "accept_piece f i x (Some j) = (f', w)" using p fit unfolding place_piece_def fits_def Let_def by auto
  obtain h full where h: "make_room f i (IPFRAG_PIECE_OVERHEAD + length (fdata x)) = (h, full)" by fastforce
  have "stats f' = stats h \<or> evicted (stats f') = evicted (stats h)"
    using acc h unfolding accept_piece_def Let_def by (auto simp: release_def count_refused_def split: bool.splits if_splits)
  then have h': "h = f" "full \<or> oldest_except f (Some i) = None \<and> memory_used f + (IPFRAG_PIECE_OVERHEAD + length (fdata x)) > IPFRAG_MEMORY"
    using make_room_evicted [OF h] e by auto
  have full
    using h'(2) alone_cost [OF inv _ i] room g by (auto simp: gathered_def)
  have "assemble (map j [0 ..< total r]) (pieces r) = d" if "total r \<noteq> 0" "received r = total r"
    using whole_datagram [OF ok(4,2,3,1) that] full_datagram(1) [OF ok(1,2) that] by simp
  moreover have "w = (if total r \<noteq> 0 \<and> received r = total r then Some (assemble (map j [0 ..< total r]) (pieces r)) else None)
    \<and> (\<not> (total r \<noteq> 0 \<and> received r = total r) \<longrightarrow> slots f' = (slots f)[i := r])"
    using acc h h'(1) \<open>full\<close> unfolding accept_piece_def Let_def r_def by (auto split: if_splits)
  ultimately show "w = (if total r \<noteq> 0 \<and> received r = total r then Some d else None)"
    and "\<not> (total r \<noteq> 0 \<and> received r = total r) \<Longrightarrow> slots f' = (slots f)[i := r]" by auto
qed

text \<open>The fragments \<open>ys\<close> of the datagram have come, and it is kept until \<open>D\<close> at least.\<close>

definition pending :: "frag_key \<Rightarrow> u8 list \<Rightarrow> nat \<Rightarrow> fragment list \<Rightarrow> ipfrag \<Rightarrow> bool" where
  "pending k d D ys f \<longleftrightarrow> frag_inv f \<and> (ys = [] \<and> list_all (other k) (slots f)
     \<or> (\<exists>i < length (slots f). gathered k d ys (slots f ! i) \<and> D \<le> deadline (slots f ! i)
          \<and> (\<forall>j < length (slots f). j \<noteq> i \<longrightarrow> other k (slots f ! j))))"

lemma gathered_not_other: "gathered k d ys r \<Longrightarrow> \<not> other k r"
  by (auto simp: gathered_def other_def)

lemma pending_leaves:
  assumes "pending k d D ys f" and "leaves k f f'" and "frag_inv f'"
  shows "pending k d D ys f'"
proof -
  from assms(1) consider (none) "ys = []" "list_all (other k) (slots f)"
    | (some) i where "i < length (slots f)" "gathered k d ys (slots f ! i)" "D \<le> deadline (slots f ! i)" "\<forall>j < length (slots f). j \<noteq> i \<longrightarrow> other k (slots f ! j)"
    unfolding pending_def by blast
  then show ?thesis
  proof cases
    case none
    then have "list_all (other k) (slots f')" using assms(2) unfolding leaves_def list_all_length by metis
    then show ?thesis using none assms(3) by (simp add: pending_def)
  next
    case (some i)
    have "slots f' ! i = slots f ! i" using some(1,2) assms(2) gathered_not_other unfolding leaves_def by blast
    moreover have "other k (slots f' ! j)" if "j < length (slots f)" "j \<noteq> i" for j using assms(2) some(4) that unfolding leaves_def by metis
    moreover have "length (slots f') = length (slots f)" using assms(2) by (simp add: leaves_def)
    ultimately show ?thesis using some assms(3) unfolding pending_def by auto
  qed
qed

lemma gathered_fresh: "gathered k d [] (fresh_slot k t)"
  by (auto simp: gathered_def fresh_slot_def empty_slot_def slot_ok_def apart_def slot_of_def)

lemma find_slot_other:
  assumes "find_slot 0 (\<lambda>s. used s \<and> key s = k) ss = res" and "i < length ss" and "\<not> other k (ss ! i)" and "\<forall>j < length ss. j \<noteq> i \<longrightarrow> other k (ss ! j)"
  shows "res = Some i"
proof (cases res)
  case None
  then show ?thesis using find_slot_None [of 0 "\<lambda>s. used s \<and> key s = k" ss] assms(1-3) nth_mem [OF assms(2)] by (auto simp: other_def)
next
  case (Some j)
  then show ?thesis using find_slot_Some [of 0 "\<lambda>s. used s \<and> key s = k" ss j] assms by (auto simp: other_def)
qed

lemma pending_input:
  assumes w: "pending k d D ys f" and x: "fkey x = k" "length (fdata x) mod 8 = 0 \<or> \<not> more_frags x" "fdata x \<noteq> []" "foffset x + length (fdata x) \<le> IPV4_PAYLOAD_MAX"
    and D: "D \<le> now + timeout_ticks f" and inp: "ipfrag_input f x now True (Some j) = (f', w, b)" and e: "evicted (stats f') = evicted (stats f)"
  obtains g i where "frag_inv g" "i < length (slots g)" "gathered k d ys (slots g ! i)" "D \<le> deadline (slots g ! i)"
    "\<forall>j < length (slots g). j \<noteq> i \<longrightarrow> other k (slots g ! j)" "place_piece g i x (Some j) = (f', w)" "evicted (stats f') = evicted (stats g)"
proof -
  define g where "g = f\<lparr>stats := (stats f)\<lparr>fragments := fragments (stats f) + 1\<rparr>\<rparr>"
  have g: "frag_inv g" "slots g = slots f" "timeout_ticks g = timeout_ticks f" "evicted (stats g) = evicted (stats f)"
    using w by (simp_all add: g_def pending_def)
  define found where "found = find_slot 0 (\<lambda>s. used s \<and> key s = fkey x) (slots g)"
  have inp: "(let (h, i) = (case found of Some i \<Rightarrow> (g, i) | None \<Rightarrow> start_slot g (fkey x) now); (h, w) = place_piece h i x (Some j)
           in (h, w, found = None)) = (f', w, b)"
    using inp x(2-4) unfolding ipfrag_input_def g_def [symmetric] Let_def found_def by auto
  from w consider (none) "ys = []" "list_all (other k) (slots f)"
    | (some) i where "i < length (slots f)" "gathered k d ys (slots f ! i)" "D \<le> deadline (slots f ! i)" "\<forall>j < length (slots f). j \<noteq> i \<longrightarrow> other k (slots f ! j)"
    unfolding pending_def by blast
  then show ?thesis
  proof cases
    case none
    have "found = None" using none(2) find_slot_Some [of 0 "\<lambda>s. used s \<and> key s = fkey x" "slots g"] x(1) g(2)
      by (cases found) (auto simp: found_def list_all_length other_def)
    then obtain h i where h: "start_slot g k now = (h, i)" "place_piece h i x (Some j) = (f', w)" using inp x(1) by (auto split: prod.splits)
    note st = start_slot_evicted [OF g(1) h(1)] and pl = place_piece_evicted [OF h(2)]
    have ev: "evicted (stats h) = evicted (stats g)" "evicted (stats f') = evicted (stats h)" using st pl e g by linarith+
    then have s: "i < length (slots f)" "slots h = (slots f)[i := fresh_slot k (now + timeout_ticks f)]" using st g by auto
    have inv: "frag_inv h" using start_slot_inv [OF g(1) h(1)] by blast
    show ?thesis
      by (rule that [OF inv _ _ _ _ h(2) ev(2), unfolded s(2)])
        (use s none gathered_fresh D in \<open>auto simp: list_all_length nth_list_update fresh_slot_def\<close>)
  next
    case (some i)
    have "found = Some i" by (rule find_slot_other [of k "slots f"]) (use some gathered_not_other x(1) g(2) in \<open>auto simp: found_def\<close>)
    then have "place_piece g i x (Some j) = (f', w)" using inp by (auto split: prod.splits)
    then show ?thesis using that [OF g(1)] some e g by auto
  qed
qed

lemma ipfrag_input_inv: "frag_inv f \<Longrightarrow> ipfrag_input f x now room junk = (f', w, b) \<Longrightarrow> frag_inv f'"
  by (erule (1) ipfrag_input_cases) auto

lemma gather_input:
  assumes w: "pending k d D ys f" and fr: "fragments_of k d (ys @ x # xs)" and D: "D \<le> now + timeout_ticks f"
    and inp: "ipfrag_input f x now True (Some j) = (f', w, b)" and e: "evicted (stats f') = evicted (stats f)"
  shows "w = (if xs = [] then Some d else None) \<and> (xs \<noteq> [] \<longrightarrow> pending k d D (ys @ [x]) f')"
proof -
  have all: "list_all (fragment_in k d) (ys @ x # xs)" "sum_list (map (\<lambda>x. length (fdata x)) (ys @ x # xs)) = length d" "length d \<le> IPV4_PAYLOAD_MAX"
    "IPFRAG_PIECE_OVERHEAD * length (ys @ x # xs) + length d \<le> IPFRAG_MEMORY" "list_ex (\<lambda>x. \<not> more_frags x) (ys @ x # xs)"
    "list_all (\<lambda>y. apart_from y x) ys"
    using fr by (simp_all add: fragments_of_def sorted_wrt_append list_all_iff)
  have part: "list_all (fragment_in k d) (ys @ [x])" "IPFRAG_PIECE_OVERHEAD * length (ys @ [x]) + length d \<le> IPFRAG_MEMORY"
    "sum_list (map (\<lambda>x. length (fdata x)) (ys @ [x])) \<le> length d" using all(1,2,4) by simp_all
  have x: "fkey x = k" "length (fdata x) mod 8 = 0 \<or> \<not> more_frags x" "fdata x \<noteq> []" "foffset x + length (fdata x) \<le> IPV4_PAYLOAD_MAX"
    using part(1) all(3) by (auto simp: fragment_in_def)
  obtain g i where g: "frag_inv g" "i < length (slots g)" "gathered k d ys (slots g ! i)" "D \<le> deadline (slots g ! i)"
    "\<forall>j < length (slots g). j \<noteq> i \<longrightarrow> other k (slots g ! j)" "place_piece g i x (Some j) = (f', w)" "evicted (stats f') = evicted (stats g)"
    using pending_input [OF w x D inp e] by blast
  define r where "r = add_piece (slots g ! i) x"
  have r: "gathered k d (ys @ [x]) r" unfolding r_def by (rule gathered_add [OF g(3) part(1) all(6)])
  have full: "(total r \<noteq> 0 \<and> received r = total r) = (xs = [])"
  proof (cases xs)
    case Nil
    then show ?thesis using r all(2,5) x(3) by (auto simp: gathered_def)
  next
    case (Cons y zs)
    then have "0 < length (fdata y)" using all(1) by (simp add: fragment_in_def)
    then have "sum_list (map (\<lambda>x. length (fdata x)) (ys @ [x])) < length d" using all(2) unfolding Cons map_append list.map sum_list_append sum_list.Cons sum_list.Nil by linarith
    moreover have "received r = sum_list (map (\<lambda>x. length (fdata x)) (ys @ [x]))" "total r = 0 \<or> total r = length d"
      using r by (simp_all add: gathered_def)
    ultimately show ?thesis using Cons by auto
  qed
  note step = gather_step [OF g(1-3) part(1) all(6) part(2,3) g(6,7), folded r_def, unfolded full]
  have "pending k d D (ys @ [x]) f'" if "xs \<noteq> []"
  proof -
    have "deadline r = deadline (slots g ! i)" by (simp add: r_def add_piece_def)
    then show ?thesis using step(2) [OF that] g r ipfrag_input_inv [OF _ inp] w unfolding pending_def by (auto intro!: exI [of _ i] simp: nth_list_update)
  qed
  then show ?thesis using step(1) by simp
qed

text \<open>
  The fragments of the datagram with key \<open>k\<close> among a series of events, and what is asked of the events:
  its fragments come no earlier than \<open>T\<close> and find memory, the timer does not run as late as its deadline, and
  nobody changes the time a datagram is given.
\<close>

fun of_key :: "frag_key \<Rightarrow> frag_event \<Rightarrow> bool" where
  "of_key k (Arrives x now room junk) \<longleftrightarrow> fkey x = k"
| "of_key k _ \<longleftrightarrow> False"

fun arrived :: "frag_key \<Rightarrow> frag_event list \<Rightarrow> fragment list" where
  "arrived k [] = []"
| "arrived k (Arrives x now room junk # es) = (if fkey x = k then x # arrived k es else arrived k es)"
| "arrived k (_ # es) = arrived k es"

fun timely :: "frag_key \<Rightarrow> nat \<Rightarrow> nat \<Rightarrow> frag_event \<Rightarrow> bool" where
  "timely k T ticks (Arrives x now room junk) \<longleftrightarrow> (fkey x = k \<longrightarrow> T \<le> now \<and> room \<and> junk \<noteq> None)"
| "timely k T ticks (Timer now) \<longleftrightarrow> now < T + ticks"
| "timely k T ticks (Set_timeout _) \<longleftrightarrow> False"

lemma expire_stats: "foldl (expire_slot now) (f, qs, nd) is = (f', qs', nd') \<Longrightarrow> evicted (stats f') = evicted (stats f) \<and> timeout_ticks f' = timeout_ticks f"
proof (induction "is" arbitrary: f qs nd)
  case (Cons i "is")
  obtain g qs1 nd1 where g: "expire_slot now (f, qs, nd) i = (g, qs1, nd1)" using prod_cases3 by blast
  then have "evicted (stats g) = evicted (stats f) \<and> timeout_ticks g = timeout_ticks f"
    by (auto simp: expire_slot_def Let_def release_def split: if_splits)
  then show ?case using Cons.IH [of g qs1 nd1] Cons.prems g by simp
qed simp

lemma expire_leaves:
  "\<forall>j < length (slots f). other k (slots f ! j) \<or> now < deadline (slots f ! j) \<Longrightarrow> foldl (expire_slot now) (f, qs, nd) is = (f', qs', nd') \<Longrightarrow> leaves k f f'"
proof (induction "is" arbitrary: f qs nd)
  case (Cons i "is")
  obtain g qs1 nd1 where g: "expire_slot now (f, qs, nd) i = (g, qs1, nd1)" using prod_cases3 by blast
  have gone: "slots g = slots f \<or> slots g = (slots f)[i := empty_slot] \<and> deadline (slots f ! i) \<le> now"
    using g by (auto simp: expire_slot_def Let_def release_def split: if_splits)
  have step: "leaves k f g"
  proof (cases "i < length (slots f) \<and> slots g \<noteq> slots f")
    case True
    then show ?thesis using gone Cons.prems(1) by (intro leaves_update [of _ _ i empty_slot]) (auto simp: not_le [symmetric])
  qed (use gone in \<open>auto simp: leaves_def\<close>)
  have "\<forall>j < length (slots g). other k (slots g ! j) \<or> now < deadline (slots g ! j)" using step Cons.prems(1) unfolding leaves_def by metis
  from Cons.IH [OF this] Cons.prems(2) g have "leaves k g f'" by simp
  then show ?case by (rule leaves_trans [OF step])
qed (simp add: leaves_def)

lemma frag_step_evicted:
  assumes "frag_inv f" and "frag_step f e = (f', w)"
  shows "frag_inv f'" and "evicted (stats f) \<le> evicted (stats f')" and "timely k T ticks e \<Longrightarrow> timeout_ticks f' = timeout_ticks f"
proof -
  have "frag_inv f' \<and> evicted (stats f) \<le> evicted (stats f') \<and> (timely k T ticks e \<longrightarrow> timeout_ticks f' = timeout_ticks f)"
  proof (cases e)
    case (Arrives x now room junk)
    then obtain b where "ipfrag_input f x now room junk = (f', w, b)" using assms(2) by (auto split: prod.splits)
    then show ?thesis using ipfrag_input_inv [OF assms(1)] ipfrag_input_evicted [OF assms(1)] by blast
  next
    case (Timer now)
    then obtain qs nd where r: "foldl (expire_slot now) (f, [], 0) [0 ..< length (slots f)] = (f', qs, nd)"
      using assms(2) by (cases "ipfrag_expire f now") (auto simp: ipfrag_expire_def)
    show ?thesis using expire_inv [OF assms(1) _ r] expire_stats [OF r] by (simp add: atLeast0LessThan)
  next
    case (Set_timeout t)
    then show ?thesis using assms by (auto simp: ipfrag_test_timeout_def frag_inv_def)
  qed
  then show "frag_inv f'" "evicted (stats f) \<le> evicted (stats f')" "timely k T ticks e \<Longrightarrow> timeout_ticks f' = timeout_ticks f" by blast+
qed

lemma frag_run_evicted: "frag_inv f \<Longrightarrow> frag_run f es = (f', ws) \<Longrightarrow> frag_inv f' \<and> evicted (stats f) \<le> evicted (stats f') \<and> map fst ws = es"
proof (induction es arbitrary: f ws)
  case (Cons e es)
  obtain f1 w where st: "frag_step f e = (f1, w)" by fastforce
  obtain f2 ws1 where rn: "frag_run f1 es = (f2, ws1)" by fastforce
  have "f' = f2" "ws = (e, w) # ws1" using Cons.prems(2) st rn by auto
  then show ?case using Cons.IH [OF _ rn [folded \<open>f' = f2\<close>]] frag_step_evicted(1,2) [OF Cons.prems(1) st] by auto
qed auto

lemma pending_late:
  assumes "pending k d D ys f" and "j < length (slots f)"
  shows "other k (slots f ! j) \<or> D \<le> deadline (slots f ! j)"
proof -
  consider "list_all (other k) (slots f)" | i where "D \<le> deadline (slots f ! i)" "\<forall>j < length (slots f). j \<noteq> i \<longrightarrow> other k (slots f ! j)"
    using assms(1) unfolding pending_def by blast
  then show ?thesis
  proof cases
    case (2 i)
    then show ?thesis using assms(2) by (cases "j = i") auto
  qed (use assms(2) in \<open>simp add: list_all_length\<close>)
qed

lemma other_step:
  assumes p: "pending k d (T + ticks) ys f" and e: "\<not> of_key k e" "timely k T ticks e" "frag_step f e = (f', w)" "evicted (stats f') = evicted (stats f)"
  shows "pending k d (T + ticks) ys f'"
proof (rule pending_leaves [OF p])
  have inv: "frag_inv f" using p by (simp add: pending_def)
  show "frag_inv f'" by (rule frag_step_evicted(1) [OF inv e(3)])
  show "leaves k f f'"
  proof (cases e)
    case (Arrives x now room junk)
    then obtain b where "ipfrag_input f x now room junk = (f', w, b)" using e(3) by (auto split: prod.splits)
    then show ?thesis using ipfrag_input_evicted [OF inv] e(1,4) Arrives by auto
  next
    case (Timer now)
    then obtain qs nd where r: "foldl (expire_slot now) (f, [], 0) [0 ..< length (slots f)] = (f', qs, nd)"
      using e(3) by (cases "ipfrag_expire f now") (auto simp: ipfrag_expire_def)
    have "now < T + ticks" using e(2) Timer by simp
    then have "other k (slots f ! j) \<or> now < deadline (slots f ! j)" if j: "j < length (slots f)" for j
      using pending_late [OF p j] by auto
    then show ?thesis using expire_leaves [OF _ r] by blast
  qed (use e(2) in auto)
qed

lemma of_key_arrived: "length (filter (of_key k) es) = length (arrived k es)"
  by (induction k es rule: arrived.induct) auto

lemma gather_run:
  "pending k d (T + ticks) ys f \<Longrightarrow> timeout_ticks f = ticks \<Longrightarrow> list_all (timely k T ticks) es \<Longrightarrow> fragments_of k d (ys @ arrived k es) \<Longrightarrow> arrived k es \<noteq> []
    \<Longrightarrow> frag_run f es = (f', ws) \<Longrightarrow> evicted (stats f') = evicted (stats f)
    \<Longrightarrow> map snd (filter (\<lambda>(e, w). of_key k e) ws) = replicate (length (arrived k es) - 1) None @ [Some d]"
proof (induction es arbitrary: ys f ws)
  case (Cons e es)
  have inv: "frag_inv f" using Cons.prems(1) by (simp add: pending_def)
  obtain f1 w where st: "frag_step f e = (f1, w)" by fastforce
  obtain f2 ws1 where "frag_run f1 es = (f2, ws1)" by fastforce
  then have rn: "frag_run f1 es = (f', ws1)" and ws: "ws = (e, w) # ws1" using Cons.prems(6) st by auto
  have t: "timely k T ticks e" "list_all (timely k T ticks) es" using Cons.prems(3) by simp_all
  note one = frag_step_evicted [OF inv st]
  have ev: "evicted (stats f1) = evicted (stats f)" "evicted (stats f') = evicted (stats f1)"
    using one(2) frag_run_evicted [OF one(1) rn] Cons.prems(7) by linarith+
  have ticks: "timeout_ticks f1 = ticks" using one(3) [OF t(1)] Cons.prems(2) by simp
  show ?case
  proof (cases "of_key k e")
    case False
    then have "arrived k (e # es) = arrived k es" by (cases e) simp_all
    then show ?thesis using Cons.IH [OF other_step [OF Cons.prems(1) False t(1) st ev(1)] ticks t(2) _ _ rn ev(2)] Cons.prems(4,5) False ws by simp
  next
    case True
    then obtain x now j where e: "e = Arrives x now True (Some j)" "fkey x = k" "T \<le> now" using t(1) by (cases e) auto
    then obtain b where inp: "ipfrag_input f x now True (Some j) = (f1, w, b)" using st by (auto split: prod.splits)
    have got: "w = (if arrived k es = [] then Some d else None) \<and> (arrived k es \<noteq> [] \<longrightarrow> pending k d (T + ticks) (ys @ [x]) f1)"
      by (rule gather_input [OF Cons.prems(1) _ _ inp ev(1)]) (use Cons.prems(2,4) e in auto)
    show ?thesis
    proof (cases "arrived k es = []")
      case True
      then have "filter (of_key k) es = []" using of_key_arrived [of k es] by simp
      then have "filter (\<lambda>(e, w). of_key k e) ws1 = []"
        using frag_run_evicted [OF one(1) rn] by (fastforce simp: filter_empty_conv)
      then show ?thesis using True got ws e by simp
    next
      case False
      then have "map snd (filter (\<lambda>(e, w). of_key k e) ws1) = replicate (length (arrived k es) - 1) None @ [Some d]"
        using Cons.IH [OF _ ticks t(2) _ _ rn ev(2), of "ys @ [x]"] got Cons.prems(4) e by simp
      then show ?thesis using False got ws e by (cases "arrived k es") auto
    qed
  qed
qed simp



definition two_halves :: "fragment list" where
  "two_halves = (let k = \<lparr>src = 1, dst = 2, protocol = 17, ident = 7\<rparr>
     in [\<lparr>fkey = k, foffset = 8, more_frags = False, header = [], fdata = [9, 10]\<rparr>,
         \<lparr>fkey = k, foffset = 0, more_frags = True, header = [], fdata = [1, 2, 3, 4, 5, 6, 7, 8]\<rparr>])"

text \<open>Its two halves, with a fragment of another datagram and a run of the timer between them.\<close>

definition interleaved :: "frag_event list" where
  "interleaved = [Arrives (two_halves ! 0) 5 True (Some (\<lambda>_. 0)),
     Arrives \<lparr>fkey = \<lparr>src = 3, dst = 2, protocol = 17, ident = 7\<rparr>, foffset = 0, more_frags = True, header = [], fdata = [8, 7, 6, 5, 4, 3, 2, 1]\<rparr> 6 True None,
     Timer 200, Arrives (two_halves ! 1) 250 True (Some (\<lambda>_. 0))]"

lemma eight_slots: "replicate 8 s = [s, s, s, s, s, s, s, s]"
  by (simp add: numeral_eq_Suc)



end
