(* ===== verification/Signal.thy ===== *)
theory Signal
  imports Bytes
begin

text \<open>
  Signals, \<^verbatim>\<open>src/src/kernel/proc/signal.c\<close>, with the four operations of the scheduler they rest on
  (\<^verbatim>\<open>sched.c\<close>). The queue of tasks is a list and a task is named by its number; what the threads of a process share
  is a record found by the number of the process. A call is one holding of the scheduler lock. Waking a task is
  making it ready; the run queue it goes to is the scheduler's. User memory is a function from addresses to bytes;
  whether a range of it can be used (\<^verbatim>\<open>process_populate\<close>, \<^verbatim>\<open>vmm_user_range_ok\<close>) is an argument, and so are the
  registers of the floating point unit. \<^verbatim>\<open>task_exit_status\<close>, which does not return, is a result.
\<close>

unbundle bit_operations_syntax

section \<open>The code\<close>

abbreviation (input) "TASK_NSIG \<equiv> 32 :: nat"
abbreviation (input) "SIGKILL \<equiv> 9 :: nat"
abbreviation (input) "SIGSEGV \<equiv> 11 :: nat"
abbreviation (input) "SIGCHLD \<equiv> 17 :: nat"
abbreviation (input) "SIGCONT \<equiv> 18 :: nat"
abbreviation (input) "SIGSTOP \<equiv> 19 :: nat"
abbreviation (input) "SIGTSTP \<equiv> 20 :: nat"
abbreviation (input) "SIGTTIN \<equiv> 21 :: nat"
abbreviation (input) "SIGTTOU \<equiv> 22 :: nat"
abbreviation (input) "SIG_DFL \<equiv> 0 :: u64"
abbreviation (input) "SIG_IGN \<equiv> 1 :: u64"
abbreviation (input) "SA_RESTART \<equiv> 1 :: u32"
abbreviation (input) "USER_SPACE_END \<equiv> 0x800000000000 :: u64"
abbreviation (input) "USER_DS \<equiv> 0x1B :: u64"
abbreviation (input) "USER_CS \<equiv> 0x23 :: u64"
abbreviation (input) "RED_ZONE \<equiv> 128 :: u64"
abbreviation (input) "RFLAGS_USER_MASK \<equiv> 0x0DD5 :: u64"
abbreviation (input) "RFLAGS_ALWAYS \<equiv> 0x0202 :: u64"
abbreviation (input) "MXCSR_VALID_BITS \<equiv> 0xFFBF :: u32"
abbreviation (input) "SYSCALL_RETURN_FULL_FRAME \<equiv> 0x100 :: u64"

datatype task_state = TASK_READY | TASK_RUNNING | TASK_BLOCKED | TASK_ZOMBIE | TASK_STOPPED

record process =
  sig_handlers :: "u64 list"
  sig_restorer :: u64
  sig_masks :: "u32 list"
  sig_flags :: "u8 list"
  live :: nat

record task =
  pid :: nat
  proc :: nat
  is_user :: bool
  exiting :: bool
  tstate :: task_state
  stop_pending :: nat
  kill_pending :: nat
  sig_pending :: u32
  sig_blocked :: u32
  restart_syscall :: u32

record system =
  tasks :: "task list"
  procs :: "nat \<Rightarrow> process"

record signal_action =
  handler :: u64
  amask :: u32
  aflags :: u32

definition sigbit :: "nat \<Rightarrow> u32" where
  "sigbit sig = push_bit sig 1"

definition UNBLOCKABLE :: u32 where
  "UNBLOCKABLE = sigbit SIGKILL OR sigbit SIGSTOP"

definition STOP_SIGNALS :: u32 where
  "STOP_SIGNALS = sigbit SIGSTOP OR sigbit SIGTSTP OR sigbit SIGTTIN OR sigbit SIGTTOU"

definition valid_signal :: "int \<Rightarrow> bool" where
  "valid_signal sig \<longleftrightarrow> sig > 0 \<and> sig < int TASK_NSIG"

definition default_is_ignore :: "nat \<Rightarrow> bool" where
  "default_is_ignore sig \<longleftrightarrow> sig = SIGCHLD \<or> sig = SIGCONT"

definition default_is_stop :: "nat \<Rightarrow> bool" where
  "default_is_stop sig \<longleftrightarrow> sig = SIGSTOP \<or> sig = SIGTSTP \<or> sig = SIGTTIN \<or> sig = SIGTTOU"

subsection \<open>What the scheduler does to a task\<close>

definition wake_task :: "task \<Rightarrow> task" where
  "wake_task t = t\<lparr>tstate := TASK_READY\<rparr>"

definition sched_interrupt_sleep :: "task \<Rightarrow> task" where
  "sched_interrupt_sleep t = (if tstate t = TASK_BLOCKED then wake_task t else t)"

definition sched_request_kill :: "nat \<Rightarrow> task \<Rightarrow> task" where
  "sched_request_kill sig t =
     (if tstate t \<noteq> TASK_ZOMBIE \<and> \<not> exiting t \<and> kill_pending t = 0 then
        let t = t\<lparr>kill_pending := sig, stop_pending := 0\<rparr>
        in if tstate t = TASK_BLOCKED \<or> tstate t = TASK_STOPPED then wake_task t else t
      else t)"

definition sched_request_stop :: "nat \<Rightarrow> task \<Rightarrow> task" where
  "sched_request_stop sig t =
     (if tstate t = TASK_ZOMBIE \<or> tstate t = TASK_STOPPED \<or> exiting t \<or> kill_pending t \<noteq> 0 then t
      else let t = t\<lparr>stop_pending := sig\<rparr> in if tstate t = TASK_BLOCKED then wake_task t else t)"

definition sched_continue :: "task \<Rightarrow> task" where
  "sched_continue t = (let t = t\<lparr>stop_pending := 0\<rparr> in if tstate t = TASK_STOPPED then wake_task t else t)"

definition drop_pending :: "nat \<Rightarrow> task \<Rightarrow> task" where
  "drop_pending sig t = t\<lparr>sig_pending := sig_pending t AND NOT (sigbit sig)\<rparr>"

subsection \<open>Finding tasks\<close>

definition find_task :: "system \<Rightarrow> nat \<Rightarrow> task option" where
  "find_task s p = find (\<lambda>t. pid t = p) (tasks s)"

text \<open>A change to one task.\<close>

definition on_task :: "nat \<Rightarrow> (task \<Rightarrow> task) \<Rightarrow> system \<Rightarrow> system" where
  "on_task p f s = s\<lparr>tasks := map (\<lambda>t. if pid t = p then f t else t) (tasks s)\<rparr>"

definition for_each_thread :: "nat \<Rightarrow> (task \<Rightarrow> task) \<Rightarrow> system \<Rightarrow> system" where
  "for_each_thread pr f s = s\<lparr>tasks := map (\<lambda>t. if proc t = pr then f t else t) (tasks s)\<rparr>"

definition usable :: "task \<Rightarrow> bool" where
  "usable t \<longleftrightarrow> \<not> exiting t \<and> tstate t \<noteq> TASK_ZOMBIE"

definition receiver :: "system \<Rightarrow> task \<Rightarrow> nat \<Rightarrow> nat option" where
  "receiver s t sig =
     (if usable t \<and> sig_blocked t AND sigbit sig = 0 then Some (pid t)
      else case find (\<lambda>u. proc u = proc t \<and> usable u \<and> sig_blocked u AND sigbit sig = 0) (tasks s) of
        Some u \<Rightarrow> Some (pid u)
      | None \<Rightarrow> if usable t then Some (pid t) else map_option pid (find (\<lambda>u. proc u = proc t \<and> usable u) (tasks s)))"

definition signal_deliverable :: "task \<Rightarrow> bool" where
  "signal_deliverable t \<longleftrightarrow> sig_pending t AND NOT (sig_blocked t) \<noteq> 0"

subsection \<open>Acting on what is pending\<close>

definition act_on_signal :: "nat \<Rightarrow> nat \<Rightarrow> u64 \<Rightarrow> nat \<Rightarrow> system \<Rightarrow> system" where
  "act_on_signal p pr h sig s =
     (if h = SIG_DFL then
        let s = on_task p (drop_pending sig) s
        in if default_is_stop sig then for_each_thread pr (sched_request_stop sig) s
           else if \<not> default_is_ignore sig then for_each_thread pr (sched_request_kill sig) s
           else s
      else if h = SIG_IGN then on_task p (drop_pending sig) s
      else on_task p sched_interrupt_sleep s)"

definition act_on_pending :: "nat \<Rightarrow> system \<Rightarrow> system" where
  "act_on_pending p s = (case find_task s p of
       None \<Rightarrow> s
     | Some t \<Rightarrow> let ready = sig_pending t AND NOT (sig_blocked t)
         in foldl (\<lambda>s sig. if ready AND sigbit sig = 0 then s
                           else act_on_signal p (proc t) (sig_handlers (procs s (proc t)) ! sig) sig s) s [1 ..< TASK_NSIG])"

subsection \<open>System calls\<close>

definition action_refused :: "signal_action \<Rightarrow> u64 \<Rightarrow> bool" where
  "action_refused a restorer \<longleftrightarrow>
     (handler a \<noteq> SIG_DFL \<and> handler a \<noteq> SIG_IGN \<and> (handler a \<ge> USER_SPACE_END \<or> restorer = 0 \<or> restorer \<ge> USER_SPACE_END))
     \<or> aflags a AND NOT SA_RESTART \<noteq> 0"

definition set_action :: "process \<Rightarrow> nat \<Rightarrow> signal_action \<Rightarrow> u64 \<Rightarrow> process" where
  "set_action q sig a restorer =
     q\<lparr>sig_handlers := (sig_handlers q)[sig := handler a],
       sig_masks := (sig_masks q)[sig := amask a AND NOT UNBLOCKABLE],
       sig_flags := (sig_flags q)[sig := ucast (aflags a)],
       sig_restorer := (if handler a \<noteq> SIG_DFL \<and> handler a \<noteq> SIG_IGN then restorer else sig_restorer q)\<rparr>"

definition is_ignored :: "u64 \<Rightarrow> nat \<Rightarrow> bool" where
  "is_ignored h sig \<longleftrightarrow> h = SIG_IGN \<or> (h = SIG_DFL \<and> default_is_ignore sig)"

definition signal_set_action :: "system \<Rightarrow> task \<Rightarrow> int \<Rightarrow> signal_action option \<Rightarrow> u64 \<Rightarrow> (errno + signal_action) \<times> system" where
  "signal_set_action s t sig action restorer =
     (if \<not> valid_signal sig \<or> sig = int SIGKILL \<or> sig = int SIGSTOP then (Inl EINVAL, s)
      else if (case action of None \<Rightarrow> False | Some a \<Rightarrow> action_refused a restorer) then (Inl EINVAL, s)
      else let n = nat sig; q = procs s (proc t);
               old = \<lparr>handler = sig_handlers q ! n, amask = sig_masks q ! n, aflags = ucast (sig_flags q ! n)\<rparr>
        in case action of
             None \<Rightarrow> (Inr old, s)
           | Some a \<Rightarrow>
               let s = s\<lparr>procs := (procs s)(proc t := set_action q n a restorer)\<rparr>
               in (Inr old, if is_ignored (handler a) n then for_each_thread (proc t) (drop_pending n) s else s))"

definition signal_set_handler :: "system \<Rightarrow> task \<Rightarrow> int \<Rightarrow> u64 \<Rightarrow> u64 \<Rightarrow> (errno + u64) \<times> system" where
  "signal_set_handler s t sig h restorer =
     (case signal_set_action s t sig (Some \<lparr>handler = h, amask = 0, aflags = 0\<rparr>) restorer of
        (Inl e, s') \<Rightarrow> (Inl e, s')
      | (Inr old, s') \<Rightarrow> (Inr (handler old), s'))"

definition changed_mask :: "int \<Rightarrow> u32 \<Rightarrow> u32 \<Rightarrow> u32" where
  "changed_mask how blocked bits =
     (if how = 0 then blocked OR bits else if how = 1 then blocked AND NOT bits else bits) AND NOT (UNBLOCKABLE OR 1)"

definition signal_change_mask :: "system \<Rightarrow> task \<Rightarrow> int \<Rightarrow> u32 \<Rightarrow> (errno + u32) \<times> system" where
  "signal_change_mask s t how bits =
     (if how \<noteq> 0 \<and> how \<noteq> 1 \<and> how \<noteq> 2 then (Inl EINVAL, s)
      else (Inr (sig_blocked t),
            act_on_pending (pid t) (on_task (pid t) (\<lambda>t. t\<lparr>sig_blocked := changed_mask how (sig_blocked t) bits\<rparr>) s)))"

definition drop_stops :: "nat \<Rightarrow> system \<Rightarrow> system" where
  "drop_stops pr s = foldl (\<lambda>s stop. if STOP_SIGNALS AND sigbit stop \<noteq> 0 then for_each_thread pr (drop_pending stop) s else s) s [1 ..< TASK_NSIG]"

definition signal_send_locked :: "system \<Rightarrow> task option \<Rightarrow> int \<Rightarrow> system" where
  "signal_send_locked s task sig = (case task of
       None \<Rightarrow> s
     | Some t \<Rightarrow>
         if \<not> is_user t \<or> \<not> valid_signal sig \<or> live (procs s (proc t)) = 0 then s
         else let n = nat sig; pr = proc t
           in if n = SIGKILL then for_each_thread pr (sched_request_kill n) s
              else let s = (if n = SIGCONT then for_each_thread pr sched_continue (drop_stops pr s)
                            else if default_is_stop n then for_each_thread pr (drop_pending SIGCONT) s
                            else s)
                in if n = SIGSTOP then for_each_thread pr (sched_request_stop n) s
                   else if is_ignored (sig_handlers (procs s pr) ! n) n then s
                   else case find_task s (pid t) of None \<Rightarrow> s | Some t \<Rightarrow>
                     (case receiver s t n of
                       None \<Rightarrow> s
                     | Some p \<Rightarrow> act_on_pending p (on_task p (\<lambda>t. t\<lparr>sig_pending := sig_pending t OR sigbit n\<rparr>) s)))"

definition signal_reset_on_exec :: "system \<Rightarrow> task \<Rightarrow> system" where
  "signal_reset_on_exec s t =
     (let q = procs s (proc t);
          q = q\<lparr>sig_handlers := map (\<lambda>h. if h \<noteq> SIG_IGN then SIG_DFL else h) (sig_handlers q),
                sig_masks := replicate TASK_NSIG 0, sig_flags := replicate TASK_NSIG 0, sig_restorer := 0\<rparr>
      in act_on_pending (pid t) (s\<lparr>procs := (procs s)(proc t := q)\<rparr>))"


subsection \<open>Entering a handler and coming back\<close>

record registers =
  r15 :: u64
  r14 :: u64
  r13 :: u64
  r12 :: u64
  r11 :: u64
  r10 :: u64
  r9 :: u64
  r8 :: u64
  rbp :: u64
  rdi :: u64
  rsi :: u64
  rdx :: u64
  rcx :: u64
  rbx :: u64
  rax :: u64
  int_no :: u64
  err_code :: u64
  rip :: u64
  cs :: u64
  rflags :: u64
  rsp :: u64
  ss :: u64

text \<open>
  The frame on the user stack, as the C structure lays it out: three words, the 22 registers, 8 bytes that no
  member covers (the image of the floating point unit is aligned to 16 bytes), and that image.
\<close>

abbreviation (input) "FPU_STATE_SIZE \<equiv> 512 :: nat"
abbreviation (input) "FRAME_SIZE \<equiv> 720 :: nat"

definition regs_words :: "registers \<Rightarrow> u64 list" where
  "regs_words r = [r15 r, r14 r, r13 r, r12 r, r11 r, r10 r, r9 r, r8 r, rbp r, rdi r, rsi r, rdx r, rcx r, rbx r, rax r, int_no r, err_code r, rip r, cs r, rflags r, rsp r, ss r]"

definition words_regs :: "u64 list \<Rightarrow> registers" where
  "words_regs w = \<lparr>r15 = w ! 0, r14 = w ! 1, r13 = w ! 2, r12 = w ! 3, r11 = w ! 4, r10 = w ! 5, r9 = w ! 6, r8 = w ! 7, rbp = w ! 8, rdi = w ! 9, rsi = w ! 10, rdx = w ! 11, rcx = w ! 12, rbx = w ! 13, rax = w ! 14, int_no = w ! 15, err_code = w ! 16, rip = w ! 17, cs = w ! 18, rflags = w ! 19, rsp = w ! 20, ss = w ! 21\<rparr>"

definition frame_bytes :: "u64 \<Rightarrow> u64 \<Rightarrow> u64 \<Rightarrow> registers \<Rightarrow> u8 list \<Rightarrow> u8 list \<Rightarrow> u8 list" where
  "frame_bytes restorer signo blocked regs padding fpu =
     concat (map (to_le 8) (restorer # signo # blocked # regs_words regs)) @ padding @ fpu"

definition frame_word :: "u8 list \<Rightarrow> nat \<Rightarrow> u64" where
  "frame_word bs i = of_le (take 8 (drop (8 * i) bs))"

definition frame_regs :: "u8 list \<Rightarrow> registers" where
  "frame_regs bs = words_regs (map (frame_word bs) [3 ..< 25])"

definition frame_fpu :: "u8 list \<Rightarrow> u8 list" where
  "frame_fpu bs = take FPU_STATE_SIZE (drop 208 bs)"

datatype delivery = Resume registers | Enter registers u64 "u8 list" | Exit nat

definition signal_frame_addr :: "u64 \<Rightarrow> u64" where
  "signal_frame_addr sp = ((sp - RED_ZONE - of_nat FRAME_SIZE) AND NOT 0xF) - 8"

text \<open>The saved registers: those of the interrupted code, set back to its system call if that is to be made again.\<close>

definition saved_regs :: "u32 \<Rightarrow> bool \<Rightarrow> registers \<Rightarrow> registers" where
  "saved_regs restart restarts regs =
     (if restart \<noteq> 0 \<and> restarts \<and> rax regs = of_int (- errno_code EINTR)
      then regs\<lparr>rax := ucast (restart - 1), rip := rip regs - 2\<rparr> else regs)"

definition handler_regs :: "registers \<Rightarrow> u64 \<Rightarrow> nat \<Rightarrow> u64 \<Rightarrow> registers" where
  "handler_regs regs h sig frame_addr =
     regs\<lparr>rip := h, rdi := of_nat sig, rsp := frame_addr,
          rflags := rflags regs AND NOT (push_bit 10 1) AND NOT (push_bit 8 1)\<rparr>"

text \<open>
  \<open>stack_ok\<close>: what \<^verbatim>\<open>prepare_user_stack\<close> answers for an address; \<open>padding\<close>: what the kernel stack held where the
  structure has no member; \<open>fpu\<close>: the floating point registers.
\<close>

definition signal_deliver :: "(u64 \<Rightarrow> bool) \<Rightarrow> u8 list \<Rightarrow> u8 list \<Rightarrow> system \<Rightarrow> nat \<Rightarrow> registers \<Rightarrow> system \<times> delivery" where
  "signal_deliver stack_ok padding fpu s p regs = (case find_task s p of
       None \<Rightarrow> (s, Resume regs)
     | Some t \<Rightarrow>
         if \<not> is_user t then (s, Resume regs)
         else let restart = restart_syscall t; s = on_task p (\<lambda>t. t\<lparr>restart_syscall := 0\<rparr>) s
           in if \<not> signal_deliverable t \<or> cs regs AND 3 \<noteq> 3 then (s, Resume regs)
              else case find (\<lambda>n. (sig_pending t AND NOT (sig_blocked t)) AND sigbit n \<noteq> 0) [1 ..< TASK_NSIG] of
                None \<Rightarrow> (s, Resume regs)
              | Some sig \<Rightarrow>
                  let q = procs s (proc t); h = sig_handlers q ! sig;
                      restarts = (sig_flags q ! sig AND 1 \<noteq> 0);
                      s = on_task p (drop_pending sig) s;
                      s = (if h \<noteq> SIG_IGN \<and> h \<noteq> SIG_DFL
                           then on_task p (\<lambda>t. t\<lparr>sig_blocked := sig_blocked t OR ((sig_masks q ! sig OR sigbit sig) AND NOT UNBLOCKABLE)\<rparr>) s else s);
                      frame_addr = signal_frame_addr (rsp regs)
                  in if h = SIG_IGN then (s, Resume regs)
                     else if h = SIG_DFL then
                       (s, if default_is_ignore sig \<or> default_is_stop sig then Resume regs else Exit (128 + sig))
                     else if frame_addr \<ge> rsp regs \<or> \<not> stack_ok frame_addr then (s, Exit (128 + SIGSEGV))
                     else (s, Enter (handler_regs regs h sig frame_addr) frame_addr
                            (frame_bytes (sig_restorer q) (of_nat sig) (ucast (sig_blocked t)) (saved_regs restart restarts regs) padding fpu)))"

definition read_bytes :: "(u64 \<Rightarrow> u8) \<Rightarrow> u64 \<Rightarrow> nat \<Rightarrow> u8 list" where
  "read_bytes mem a n = map (\<lambda>i. mem (a + of_nat i)) [0 ..< n]"

definition user_regs :: "registers \<Rightarrow> registers" where
  "user_regs r = r\<lparr>cs := USER_CS, ss := USER_DS, rflags := (rflags r AND RFLAGS_USER_MASK) OR RFLAGS_ALWAYS, int_no := SYSCALL_RETURN_FULL_FRAME\<rparr>"

definition user_fpu :: "u8 list \<Rightarrow> u8 list" where
  "user_fpu fpu = take 24 fpu @ to_le 4 (of_le (take 4 (drop 24 fpu)) AND MXCSR_VALID_BITS) @ drop 28 fpu"

datatype restoration = Restored registers "u8 list" | Killed nat

definition signal_return :: "(u64 \<Rightarrow> bool) \<Rightarrow> (u64 \<Rightarrow> u8) \<Rightarrow> system \<Rightarrow> task \<Rightarrow> registers \<Rightarrow> system \<times> restoration" where
  "signal_return range_ok mem s t regs =
     (let frame_addr = rsp regs - 8
      in if frame_addr > rsp regs \<or> \<not> range_ok frame_addr then (s, Killed (128 + SIGSEGV))
         else let frame = read_bytes mem frame_addr FRAME_SIZE; r = frame_regs frame
           in if rip r \<ge> USER_SPACE_END \<or> rsp r \<ge> USER_SPACE_END then (s, Killed (128 + SIGSEGV))
              else (snd (signal_change_mask s t 2 (ucast (frame_word frame 2))), Restored (user_regs r) (user_fpu (frame_fpu frame))))"


section \<open>What the operations leave alone\<close>

text \<open>Who the tasks are and what they block: changed by no action on a pending signal.\<close>

definition task_view :: "task \<Rightarrow> nat \<times> nat \<times> bool \<times> u32" where
  "task_view t = (pid t, proc t, is_user t, sig_blocked t)"

definition view :: "system \<Rightarrow> (nat \<Rightarrow> process) \<times> (nat \<times> nat \<times> bool \<times> u32) list" where
  "view s = (procs s, map task_view (tasks s))"

named_theorems task_ops

lemma task_view_ops [simp]:
  "task_view (wake_task t) = task_view t" "task_view (sched_interrupt_sleep t) = task_view t"
  "task_view (sched_request_kill sig t) = task_view t" "task_view (sched_request_stop sig t) = task_view t"
  "task_view (sched_continue t) = task_view t" "task_view (drop_pending sig t) = task_view t"
  "task_view (t\<lparr>sig_pending := w\<rparr>) = task_view t" "task_view (t\<lparr>restart_syscall := v\<rparr>) = task_view t"
  by (simp_all add: task_view_def wake_task_def sched_interrupt_sleep_def sched_request_kill_def sched_request_stop_def
      sched_continue_def drop_pending_def Let_def)

lemma task_proc_ops [simp]:
  "proc (drop_pending sig t) = proc t" "proc (sched_interrupt_sleep t) = proc t" "proc (sched_request_kill sig t) = proc t" "proc (sched_request_stop sig t) = proc t"
  by (simp_all add: wake_task_def sched_interrupt_sleep_def sched_request_kill_def sched_request_stop_def drop_pending_def Let_def)

lemma view_on_task [simp]: "(\<And>t. task_view (f t) = task_view t) \<Longrightarrow> view (on_task p f s) = view s"
  by (auto simp: view_def on_task_def)

lemma view_for_each_thread [simp]: "(\<And>t. task_view (f t) = task_view t) \<Longrightarrow> view (for_each_thread pr f s) = view s"
  by (auto simp: view_def for_each_thread_def)

lemma procs_ops [simp]: "procs (on_task p f s) = procs s" "procs (for_each_thread pr f s) = procs s"
  by (simp_all add: on_task_def for_each_thread_def)

lemma view_foldl: "(\<And>s x. view (g s x) = view s) \<Longrightarrow> view (foldl g s xs) = view s"
  by (induction xs arbitrary: s) auto

lemma view_act_on_signal [simp]: "view (act_on_signal p pr h sig s) = view s"
  by (simp add: act_on_signal_def Let_def)

lemma view_act_on_pending [simp]: "view (act_on_pending p s) = view s"
proof (cases "find_task s p")
  case (Some t)
  then show ?thesis by (simp add: act_on_pending_def Let_def) (rule view_foldl, simp)
qed (simp add: act_on_pending_def)

lemma view_drop_stops [simp]: "view (drop_stops pr s) = view s"
  unfolding drop_stops_def by (rule view_foldl) simp

lemma view_signal_send [simp]: "view (signal_send_locked s t sig) = view s"
  by (auto simp: signal_send_locked_def Let_def split: option.splits)

section \<open>What every system of tasks keeps\<close>

definition process_ok :: "process \<Rightarrow> bool" where
  "process_ok q \<longleftrightarrow> length (sig_handlers q) = TASK_NSIG \<and> length (sig_masks q) = TASK_NSIG \<and> length (sig_flags q) = TASK_NSIG
     \<and> (\<forall>h\<in>set (sig_handlers q). h < USER_SPACE_END) \<and> (\<forall>m\<in>set (sig_masks q). m AND UNBLOCKABLE = 0)"

definition signals_ok :: "system \<Rightarrow> bool" where
  "signals_ok s \<longleftrightarrow> (\<forall>q. process_ok (procs s q)) \<and> (\<forall>t\<in>set (tasks s). sig_blocked t AND UNBLOCKABLE = 0)"

lemma signals_ok_view: "signals_ok s \<longleftrightarrow> (\<forall>q. process_ok (fst (view s) q)) \<and> (\<forall>(_, _, _, b)\<in>set (snd (view s)). b AND UNBLOCKABLE = 0)"
  by (auto simp: signals_ok_def view_def task_view_def)

lemma signals_ok_cong: "view s' = view s \<Longrightarrow> signals_ok s' = signals_ok s"
  by (simp add: signals_ok_view)

lemma and_not_cover: "(w AND NOT m) AND m = (0 :: 'a::len word)"
  by (rule bit_word_eqI) (auto simp: bit_simps)

lemma process_ok_set_action:
  assumes "process_ok q" and "\<not> action_refused a restorer"
  shows "process_ok (set_action q sig a restorer)"
proof -
  have "handler a < USER_SPACE_END" using assms(2) by (force simp: action_refused_def not_le)
  then show ?thesis
    using assms(1) set_update_subset_insert [of "sig_handlers q" sig "handler a"]
      set_update_subset_insert [of "sig_masks q" sig "amask a AND NOT UNBLOCKABLE"] and_not_cover [of "amask a" UNBLOCKABLE]
    unfolding process_ok_def set_action_def by auto
qed

lemma signal_set_action_ok:
  assumes "signals_ok s"
  shows "signals_ok (snd (signal_set_action s t sig action restorer))"
proof -
  have "signals_ok (s\<lparr>procs := (procs s)(proc t := set_action (procs s (proc t)) n a restorer)\<rparr>)" if "\<not> action_refused a restorer" for n a
    using assms process_ok_set_action [OF _ that] by (simp add: signals_ok_def)
  moreover have "signals_ok (for_each_thread pr (drop_pending n) s') = signals_ok s'" for pr n s' by (rule signals_ok_cong) simp
  ultimately show ?thesis using assms by (auto simp: signal_set_action_def Let_def split: option.splits if_splits)
qed

lemma signal_change_mask_ok:
  assumes "signals_ok s"
  shows "signals_ok (snd (signal_change_mask s t how bits))"
proof -
  define f :: "task \<Rightarrow> task" where "f = (\<lambda>t. t\<lparr>sig_blocked := changed_mask how (sig_blocked t) bits\<rparr>)"
  have "sig_blocked (f t) AND UNBLOCKABLE = 0" for t
    unfolding f_def changed_mask_def by (rule bit_word_eqI) (auto simp: bit_simps)
  then have "signals_ok (on_task (pid t) f s)" using assms by (auto simp: signals_ok_def on_task_def)
  then have "signals_ok (act_on_pending (pid t) (on_task (pid t) f s))" using signals_ok_cong view_act_on_pending by blast
  then show ?thesis using assms by (simp add: signal_change_mask_def f_def)
qed

lemma signal_reset_on_exec_ok:
  assumes "signals_ok s"
  shows "signals_ok (signal_reset_on_exec s t)"
proof -
  have "process_ok (procs s (proc t))" using assms by (simp add: signals_ok_def)
  then show ?thesis using assms unfolding signal_reset_on_exec_def Let_def
    by (subst signals_ok_cong [OF view_act_on_pending]) (auto simp: signals_ok_def process_ok_def)
qed

lemma and_or_cover: "a AND m = 0 \<Longrightarrow> b AND m = 0 \<Longrightarrow> (a OR b) AND m = (0 :: 'a::len word)"
  by (simp add: bit.conj_disj_distrib2)


lemma signal_deliver_ok:
  assumes "signals_ok s"
  shows "signals_ok (fst (signal_deliver stack_ok padding fpu s p regs))"
proof -
  have keep: "signals_ok (on_task p (drop_pending sig) s') = signals_ok s'" "signals_ok (on_task p (\<lambda>t. t\<lparr>restart_syscall := 0\<rparr>) s') = signals_ok s'" for sig s'
    by (rule signals_ok_cong, simp)+
  have block: "signals_ok (on_task p (\<lambda>t. t\<lparr>sig_blocked := sig_blocked t OR (m AND NOT UNBLOCKABLE)\<rparr>) s')" if "signals_ok s'" for m s'
    using that by (auto simp: signals_ok_def on_task_def and_or_cover and_not_cover)
  show ?thesis using assms by (auto simp: signal_deliver_def Let_def keep block split: option.splits)
qed

section \<open>Frames\<close>

lemma frame_word_concat: "i < length ws \<Longrightarrow> frame_word (concat (map (to_le 8) ws) @ rest) i = ws ! i"
proof (induction ws arbitrary: i)
  case (Cons w ws)
  then show ?case by (cases i) (simp_all add: frame_word_def)
qed simp

lemma length_concat_words: "length (concat (map (to_le 8) ws)) = 8 * length ws"
  by (induction ws) auto

lemma words_regs_words [simp]: "words_regs (regs_words r) = r"
  by (simp add: words_regs_def regs_words_def)

lemma frame_fields:
  fixes restorer signo blocked :: u64 and regs :: registers and padding fpu :: "u8 list"
  assumes "length padding = 8" and "length fpu = FPU_STATE_SIZE"
  defines "bs \<equiv> frame_bytes restorer signo blocked regs padding fpu"
  shows "length bs = FRAME_SIZE" and "frame_word bs 2 = blocked" and "frame_regs bs = regs" and "frame_fpu bs = fpu"
    and "take 8 (drop 200 bs) = padding"
proof -
  define ws where "ws = restorer # signo # blocked # regs_words regs"
  have ws: "length ws = 25" by (simp add: ws_def regs_words_def)
  have bs: "bs = concat (map (to_le 8) ws) @ padding @ fpu" by (simp add: bs_def frame_bytes_def ws_def)
  have len: "length (concat (map (to_le 8) ws)) = 200" by (simp add: length_concat_words ws)
  show "length bs = FRAME_SIZE" "take 8 (drop 200 bs) = padding" "frame_fpu bs = fpu" unfolding bs frame_fpu_def using len assms(1,2) by simp_all
  have w: "frame_word bs i = ws ! i" if "i < 25" for i unfolding bs using frame_word_concat [of i ws "padding @ fpu"] that ws by simp
  then show "frame_word bs 2 = blocked" by (simp add: ws_def numeral_2_eq_2)
  have "map (frame_word bs) [3 ..< 25] = map ((!) ws) [3 ..< 25]" using w by simp
  also have "\<dots> = regs_words regs" by (rule nth_equalityI) (auto simp: ws_def regs_words_def nth_Cons')
  finally show "frame_regs bs = regs" by (simp add: frame_regs_def)
qed


section \<open>Back from a handler\<close>

lemma find_on_task: "find_task (on_task p f s) p = map_option f (find_task s p)" if "\<And>t. pid (f t) = pid t"
proof -
  have "find (\<lambda>t. pid t = p) (map (\<lambda>t. if pid t = p then f t else t) ts) = map_option f (find (\<lambda>t. pid t = p) ts)" for ts
    using that by (induction ts) auto
  then show ?thesis by (simp add: find_task_def on_task_def)
qed

lemma find_task_view:
  assumes "view s' = view s" and "find_task s p = Some t"
  shows "\<exists>t'. find_task s' p = Some t' \<and> task_view t' = task_view t"
proof -
  have "map task_view ts' = map task_view ts \<Longrightarrow> find (\<lambda>t. pid t = p) ts = Some t \<Longrightarrow> \<exists>t'. find (\<lambda>t. pid t = p) ts' = Some t' \<and> task_view t' = task_view t" for ts ts'
  proof (induction ts arbitrary: ts')
    case (Cons u ts)
    then obtain u' us where ts': "ts' = u' # us" "task_view u' = task_view u" "map task_view us = map task_view ts" by (cases ts') auto
    then have "pid u' = pid u" by (simp add: task_view_def)
    then show ?case using Cons ts' by (auto split: if_splits)
  qed simp
  then show ?thesis using assms by (simp add: view_def find_task_def)
qed

lemma length_read_bytes [simp]: "length (read_bytes mem a n) = n"
  by (simp add: read_bytes_def)

lemma rflags_user:
  fixes f :: u64
  shows "((f AND RFLAGS_USER_MASK) OR RFLAGS_ALWAYS) AND NOT RFLAGS_USER_MASK = RFLAGS_ALWAYS"
  by (simp add: bit.conj_disj_distrib2 and.assoc)

text \<open>Registers a program may have: its own segments, addresses below the end of user space, no flag that is the kernel's.\<close>

definition user_mode :: "registers \<Rightarrow> bool" where
  "user_mode r \<longleftrightarrow> cs r = USER_CS \<and> ss r = USER_DS \<and> rip r < USER_SPACE_END \<and> rsp r < USER_SPACE_END
     \<and> rflags r AND NOT RFLAGS_USER_MASK = RFLAGS_ALWAYS"

definition mxcsr :: "u8 list \<Rightarrow> u32" where
  "mxcsr fpu = of_le (take 4 (drop 24 fpu))"

lemma user_fpu_mxcsr:
  assumes "length fpu = FPU_STATE_SIZE"
  shows "mxcsr (user_fpu fpu) = mxcsr fpu AND MXCSR_VALID_BITS" and "length (user_fpu fpu) = FPU_STATE_SIZE"
  using assms by (simp_all add: mxcsr_def user_fpu_def)

lemma signal_return_restores:
  assumes "signal_return range_ok mem s t regs = (s', Restored r fpu)"
  shows "user_mode r" and "mxcsr fpu AND NOT MXCSR_VALID_BITS = 0" and "length fpu = FPU_STATE_SIZE"
proof -
  define frame where "frame = read_bytes mem (rsp regs - 8) FRAME_SIZE"
  have r: "r = user_regs (frame_regs frame)" "fpu = user_fpu (frame_fpu frame)" "rip (frame_regs frame) < USER_SPACE_END" "rsp (frame_regs frame) < USER_SPACE_END"
    using assms unfolding signal_return_def Let_def frame_def [symmetric] by (auto split: if_splits simp: not_le)
  then show "user_mode r" using rflags_user [of "rflags (frame_regs frame)"] by (simp add: user_mode_def user_regs_def)
  have "length (frame_fpu frame) = FPU_STATE_SIZE" by (simp add: frame_fpu_def frame_def)
  note f = user_fpu_mxcsr [OF this]
  show "length fpu = FPU_STATE_SIZE" using f r by simp
  have "(mxcsr (frame_fpu frame) AND MXCSR_VALID_BITS) AND NOT MXCSR_VALID_BITS = 0"
    by (simp add: and.assoc)
  then show "mxcsr fpu AND NOT MXCSR_VALID_BITS = 0" using f r by simp
qed


lemma signal_deliver_enters:
  assumes "signal_deliver stack_ok padding fpu s p regs = (s', Enter r a frame)" and "find_task s p = Some t"
  obtains sig where "1 \<le> sig" "sig < TASK_NSIG" "a = signal_frame_addr (rsp regs)" "a < rsp regs" "is_user t"
    "r = handler_regs regs (sig_handlers (procs s (proc t)) ! sig) sig a"
    "frame = frame_bytes (sig_restorer (procs s (proc t))) (of_nat sig) (ucast (sig_blocked t))
       (saved_regs (restart_syscall t) (sig_flags (procs s (proc t)) ! sig AND 1 \<noteq> 0) regs) padding fpu"
proof -
  obtain sig where sig: "find (\<lambda>n. (sig_pending t AND NOT (sig_blocked t)) AND sigbit n \<noteq> 0) [1 ..< TASK_NSIG] = Some sig"
    using assms by (auto simp: signal_deliver_def Let_def split: if_splits option.splits)
  then have "sig \<in> set [1 ..< TASK_NSIG]" unfolding find_Some_iff by (metis nth_mem)
  then show ?thesis using that [of sig] assms sig by (auto simp: signal_deliver_def Let_def not_le split: if_splits)
qed

text \<open>Calls, signals, entries and returns, by the task concerned.\<close>

datatype sig_op =
    Action nat int "signal_action option" u64 | Mask nat int u32 | Send nat int | Exec nat
  | Deliver "u64 \<Rightarrow> bool" "u8 list" "u8 list" nat registers | Return "u64 \<Rightarrow> bool" "u64 \<Rightarrow> u8" nat registers

definition with_task :: "system \<Rightarrow> nat \<Rightarrow> (task \<Rightarrow> system) \<Rightarrow> system" where
  "with_task s p f = (case find_task s p of None \<Rightarrow> s | Some t \<Rightarrow> f t)"

fun sig_apply :: "system \<Rightarrow> sig_op \<Rightarrow> system" where
  "sig_apply s (Action p sig a restorer) = with_task s p (\<lambda>t. snd (signal_set_action s t sig a restorer))"
| "sig_apply s (Mask p how bits) = with_task s p (\<lambda>t. snd (signal_change_mask s t how bits))"
| "sig_apply s (Send p sig) = signal_send_locked s (find_task s p) sig"
| "sig_apply s (Exec p) = with_task s p (signal_reset_on_exec s)"
| "sig_apply s (Deliver stack_ok padding fpu p regs) = fst (signal_deliver stack_ok padding fpu s p regs)"
| "sig_apply s (Return range_ok mem p regs) = with_task s p (\<lambda>t. fst (signal_return range_ok mem s t regs))"

lemma signal_return_ok: "signals_ok s \<Longrightarrow> signals_ok (fst (signal_return range_ok mem s t regs))"
  by (simp add: signal_return_def Let_def signal_change_mask_ok)

lemma sig_apply_ok: "signals_ok s \<Longrightarrow> signals_ok (sig_apply s a)"
  by (cases a) (auto simp: with_task_def signal_set_action_ok signal_change_mask_ok signal_reset_on_exec_ok signal_deliver_ok signal_return_ok
      signals_ok_cong [OF view_signal_send] split: option.splits)

lemma sig_run_ok: "signals_ok s \<Longrightarrow> signals_ok (foldl sig_apply s ops)"
  by (induction ops arbitrary: s) (auto simp: sig_apply_ok)

text \<open>C4. Signals give a program no privilege. After any calls, signals, deliveries and returns, no task blocks
  SIGKILL or SIGSTOP; a handler is entered at an address of user space with the segments the program had; and
  whatever bytes a program wrote over the frame it returns through, it comes back with user segments, addresses of
  user space, none of the kernel's flags changed (interrupts on, I/O privilege level 0) and no reserved bit in MXCSR.\<close>

theorem signals_confined:
  assumes "signals_ok s" and "s' = foldl sig_apply s ops"
  shows "list_all (\<lambda>t. sig_blocked t AND (sigbit SIGKILL OR sigbit SIGSTOP) = 0) (tasks s')
    \<and> (\<forall>p t stack_ok padding fpu regs s1 r a frame. find_task s' p = Some t \<and> signal_deliver stack_ok padding fpu s' p regs = (s1, Enter r a frame)
        \<longrightarrow> rip r < USER_SPACE_END \<and> cs r = cs regs \<and> ss r = ss regs \<and> rsp r < rsp regs)
    \<and> (\<forall>range_ok mem t regs s2 r fpu. signal_return range_ok mem s' t regs = (s2, Restored r fpu)
        \<longrightarrow> user_mode r \<and> mxcsr fpu AND NOT MXCSR_VALID_BITS = 0)"
proof -
  have ok: "signals_ok s'" using sig_run_ok [OF assms(1)] assms(2) by simp
  then have "list_all (\<lambda>t. sig_blocked t AND (sigbit SIGKILL OR sigbit SIGSTOP) = 0) (tasks s')"
    by (auto simp: signals_ok_def list_all_iff UNBLOCKABLE_def)
  moreover have "rip r < USER_SPACE_END \<and> cs r = cs regs \<and> ss r = ss regs \<and> rsp r < rsp regs"
    if t: "find_task s' p = Some t" and d: "signal_deliver stack_ok padding fpu s' p regs = (s1, Enter r a frame)"
    for p t stack_ok padding fpu regs s1 r a frame
  proof -
    obtain sig where sig: "sig < TASK_NSIG" "a < rsp regs" "r = handler_regs regs (sig_handlers (procs s' (proc t)) ! sig) sig a"
      using signal_deliver_enters [OF d t] by blast
    have "process_ok (procs s' (proc t))" using ok by (simp add: signals_ok_def)
    then have "sig_handlers (procs s' (proc t)) ! sig < USER_SPACE_END" using sig(1) by (simp add: process_ok_def)
    then show ?thesis using sig(2,3) by (simp add: handler_regs_def)
  qed
  ultimately show ?thesis using signal_return_restores(1,2) by (intro conjI allI impI) (assumption | elim conjE | metis)+
qed

lemma user_regs_id: "user_mode r \<Longrightarrow> user_regs r = r\<lparr>int_no := SYSCALL_RETURN_FULL_FRAME\<rparr>"
proof -
  assume u: "user_mode r"
  have "(rflags r AND RFLAGS_USER_MASK) OR (rflags r AND NOT RFLAGS_USER_MASK) = rflags r"
    by (rule bit_word_eqI) (auto simp: bit_simps)
  then have "(rflags r AND RFLAGS_USER_MASK) OR RFLAGS_ALWAYS = rflags r" using u by (simp add: user_mode_def)
  then show ?thesis using u by (simp add: user_regs_def user_mode_def)
qed

lemma user_mode_saved: "user_mode regs \<Longrightarrow> 2 \<le> rip regs \<Longrightarrow> user_mode (saved_regs restart restarts regs)"
  by (auto simp: user_mode_def saved_regs_def word_less_nat_alt word_le_nat_alt unat_sub)

lemma signal_frame_addr_step: "signal_frame_addr sp < sp \<Longrightarrow> sp < USER_SPACE_END \<Longrightarrow> signal_frame_addr sp \<le> signal_frame_addr sp + 8"
proof -
  assume "signal_frame_addr sp < sp" "sp < USER_SPACE_END"
  then have "unat (signal_frame_addr sp) < 0x800000000000" by (simp add: word_less_nat_alt)
  then have "unat (signal_frame_addr sp + 8) = unat (signal_frame_addr sp) + 8" by (simp add: unat_word_ariths)
  then show ?thesis by (simp add: word_le_nat_alt)
qed

lemma setmask_exact: "b AND UNBLOCKABLE = 0 \<Longrightarrow> changed_mask 2 c b = b AND NOT 1"
proof -
  assume "b AND UNBLOCKABLE = 0"
  moreover have "b = (b AND UNBLOCKABLE) OR (b AND NOT UNBLOCKABLE)" by (rule bit_word_eqI) (auto simp: bit_simps)
  ultimately have "b AND NOT UNBLOCKABLE = b" by simp
  moreover have "changed_mask 2 c b = (b AND NOT UNBLOCKABLE) AND NOT 1" unfolding changed_mask_def by (rule bit_word_eqI) (auto simp: bit_simps)
  ultimately show ?thesis by simp
qed



text \<open>The 8 bytes no member covers are whatever was on the kernel stack: they go to the program as they are.\<close>

lemma frame_padding_leaks:
  "length padding = 8 \<Longrightarrow> length fpu = FPU_STATE_SIZE \<Longrightarrow> take 8 (drop 200 (frame_bytes restorer signo blocked regs padding fpu)) = padding"
  by (rule frame_fields(5))

section \<open>Setting an action\<close>

lemma flags_kept: "w AND NOT SA_RESTART = 0 \<Longrightarrow> ucast (ucast w :: u8) = (w :: u32)"
proof (rule bit_word_eqI)
  fix n assume w: "w AND NOT SA_RESTART = 0" and n: "n < LENGTH(32)"
  have "\<not> (bit w n \<and> n \<noteq> 0)"
  proof
    assume "bit w n \<and> n \<noteq> 0"
    then have "bit (w AND NOT SA_RESTART) n" using n by (simp add: bit_simps)
    then show False using w by simp
  qed
  then show "bit (ucast (ucast w :: u8) :: u32) n = bit w n" using n by (auto simp: bit_simps)
qed



section \<open>Sending a signal\<close>

text \<open>Only threads of process \<open>pr\<close> change, and they stay who they are.\<close>

definition only_in :: "nat \<Rightarrow> system \<Rightarrow> system \<Rightarrow> bool" where
  "only_in pr s s' \<longleftrightarrow> procs s' = procs s \<and> list_all2 (\<lambda>u u'. task_view u' = task_view u \<and> (proc u \<noteq> pr \<longrightarrow> u' = u)) (tasks s) (tasks s')"

lemma only_in_refl [simp]: "only_in pr s s"
  by (simp add: only_in_def list_all2_refl)

lemma only_in_trans: "only_in pr s s1 \<Longrightarrow> only_in pr s1 s2 \<Longrightarrow> only_in pr s s2"
  by (auto simp: only_in_def list_all2_conv_all_nth task_view_def)

lemma only_in_for_each: "(\<And>t. task_view (f t) = task_view t) \<Longrightarrow> only_in pr s (for_each_thread pr f s)"
  by (auto simp: only_in_def for_each_thread_def list_all2_conv_all_nth)

definition owner :: "nat \<Rightarrow> nat \<Rightarrow> system \<Rightarrow> bool" where
  "owner p pr s \<longleftrightarrow> list_all (\<lambda>u. pid u = p \<longrightarrow> proc u = pr) (tasks s)"

lemma only_in_on_task: "(\<And>t. task_view (f t) = task_view t) \<Longrightarrow> owner p pr s \<Longrightarrow> only_in pr s (on_task p f s)"
  by (auto simp: only_in_def on_task_def owner_def list_all2_conv_all_nth list_all_length)

lemma owner_only_in: "owner p pr s \<Longrightarrow> only_in pr s s' \<Longrightarrow> owner p pr s'"
  by (auto simp: owner_def only_in_def list_all2_conv_all_nth list_all_length task_view_def)

lemma only_in_act_on_signal: "owner p pr s \<Longrightarrow> only_in pr s (act_on_signal p pr h sig s)"
  unfolding act_on_signal_def Let_def
  by (auto intro!: only_in_on_task only_in_trans [OF only_in_on_task only_in_for_each])

lemma act_on_pending_induct:
  assumes "find_task s p = Some t" and "owner p (proc t) s" and "I s"
    and step: "\<And>s' sig. only_in (proc t) s s' \<Longrightarrow> I s' \<Longrightarrow> 1 \<le> sig \<Longrightarrow> sig < TASK_NSIG \<Longrightarrow> (sig_pending t AND NOT (sig_blocked t)) AND sigbit sig \<noteq> 0
        \<Longrightarrow> I (act_on_signal p (proc t) (sig_handlers (procs s (proc t)) ! sig) sig s')"
  shows "I (act_on_pending p s)" and "only_in (proc t) s (act_on_pending p s)"
proof -
  define g where "g = (\<lambda>s' sig. if (sig_pending t AND NOT (sig_blocked t)) AND sigbit sig = 0 then s'
    else act_on_signal p (proc t) (sig_handlers (procs s' (proc t)) ! sig) sig s')"
  have "I (foldl g s' ns) \<and> only_in (proc t) s (foldl g s' ns)" if "set ns \<subseteq> {1 ..< TASK_NSIG}" "I s'" "only_in (proc t) s s'" for ns s'
    using that
  proof (induction ns arbitrary: s')
    case (Cons n ns)
    have "procs s' = procs s" using Cons.prems(3) by (simp add: only_in_def)
    then have "I (g s' n)" using Cons.prems step [of s' n] by (auto simp: g_def)
    moreover have "only_in (proc t) s (g s' n)"
      using Cons.prems(3) only_in_trans only_in_act_on_signal [OF owner_only_in [OF assms(2) Cons.prems(3)]] by (auto simp: g_def)
    ultimately show ?case using Cons by simp
  qed simp
  from this [of "[1 ..< TASK_NSIG]" s] have "I (foldl g s [1 ..< TASK_NSIG]) \<and> only_in (proc t) s (foldl g s [1 ..< TASK_NSIG])"
    using assms(3) by simp
  moreover have "act_on_pending p s = foldl g s [1 ..< TASK_NSIG]" using assms(1) by (simp add: act_on_pending_def g_def Let_def)
  ultimately show "I (act_on_pending p s)" "only_in (proc t) s (act_on_pending p s)" by simp_all
qed

lemma all_tasks_ops:
  assumes "\<And>u. Q u \<Longrightarrow> Q (f u)" and "list_all Q (tasks s)"
  shows "list_all Q (tasks (on_task p f s))" and "list_all Q (tasks (for_each_thread pr f s))"
  using assms by (auto simp: on_task_def for_each_thread_def list_all_iff)

lemma all_tasks_act_on_signal:
  assumes "\<And>u. Q u \<Longrightarrow> Q (drop_pending sig u)" and "\<And>u. Q u \<Longrightarrow> Q (sched_interrupt_sleep u)" and "\<And>u. Q u \<Longrightarrow> Q (sched_request_kill sig u)"
    and "\<And>u. default_is_stop sig \<Longrightarrow> Q u \<Longrightarrow> Q (sched_request_stop sig u)" and "list_all Q (tasks s)"
  shows "list_all Q (tasks (act_on_signal p pr h sig s))"
  using assms by (auto simp: act_on_signal_def Let_def intro!: all_tasks_ops)


lemma drop_stops_eq: "drop_stops pr s = for_each_thread pr (\<lambda>t. t\<lparr>sig_pending := sig_pending t AND NOT STOP_SIGNALS\<rparr>) s"
proof -
  have stops: "STOP_SIGNALS AND sigbit n \<noteq> 0 \<longleftrightarrow> default_is_stop n" if "n \<in> set [1 ..< 32]" for n
  proof -
    have "\<forall>n\<in>set [1 ..< 32]. STOP_SIGNALS AND sigbit n \<noteq> 0 \<longleftrightarrow> default_is_stop n" by code_simp
    then show ?thesis using that by blast
  qed
  define g where "g = (\<lambda>s stop. if default_is_stop stop then for_each_thread pr (drop_pending stop) s else s)"
  have "drop_stops pr s = foldl g s [1 ..< 32]"
    unfolding drop_stops_def g_def using stops by (intro foldl_cong) auto
  also have "[1 ..< 32] = [1 ..< 19] @ [19, 20, 21, 22] @ [23 ..< 32 :: nat]" by code_simp
  also have "foldl g s ([1 ..< 19] @ [19, 20, 21, 22] @ [23 ..< 32]) = foldl g s [19, 20, 21, 22]"
  proof -
    have "foldl g s' ns = s'" if "\<forall>n\<in>set ns. \<not> default_is_stop n" for s' ns using that by (induction ns) (auto simp: g_def)
    from this [of "[1 ..< 19]"] this [of "[23 ..< 32]"] show ?thesis by (auto simp: default_is_stop_def)
  qed
  also have "\<dots> = for_each_thread pr (drop_pending 22) (for_each_thread pr (drop_pending 21) (for_each_thread pr (drop_pending 20) (for_each_thread pr (drop_pending 19) s)))"
    by (simp add: g_def default_is_stop_def)
  also have "\<dots> = for_each_thread pr (\<lambda>t. t\<lparr>sig_pending := sig_pending t AND NOT STOP_SIGNALS\<rparr>) s"
    by (simp add: for_each_thread_def drop_pending_def STOP_SIGNALS_def and.assoc)
  finally show ?thesis .
qed

definition continued :: "task \<Rightarrow> bool" where
  "continued u \<longleftrightarrow> tstate u \<noteq> TASK_STOPPED \<and> stop_pending u = 0 \<and> sig_pending u AND STOP_SIGNALS = 0"

lemma and_zero_mono: "a AND m = 0 \<Longrightarrow> (a AND b) AND m = (0 :: 'a::len word)"
  by (metis and.assoc and.commute and_zero_eq)

lemma continued_ops:
  "continued u \<Longrightarrow> continued (drop_pending sig u)" "continued u \<Longrightarrow> continued (sched_interrupt_sleep u)" "continued u \<Longrightarrow> continued (sched_request_kill sig u)"
  by (auto simp: continued_def drop_pending_def sched_interrupt_sleep_def sched_request_kill_def wake_task_def Let_def and_zero_mono)

lemma no_cont_ops:
  assumes "sig_pending u AND m = 0"
  shows "sig_pending (drop_pending sig u) AND m = 0" "sig_pending (sched_interrupt_sleep u) AND m = 0"
    "sig_pending (sched_request_kill sig u) AND m = 0" "sig_pending (sched_request_stop sig u) AND m = 0"
  using assms by (auto simp: drop_pending_def sched_interrupt_sleep_def sched_request_kill_def sched_request_stop_def wake_task_def Let_def and_zero_mono)

lemma sigbit_disjoint: "i \<noteq> j \<Longrightarrow> sigbit i AND sigbit j = 0"
  unfolding sigbit_def by (rule bit_word_eqI) (auto simp: bit_simps)

lemma stop_bit:
  assumes "default_is_stop sig" and "w AND STOP_SIGNALS = 0"
  shows "w AND sigbit sig = 0"
proof -
  have "STOP_SIGNALS AND sigbit sig = sigbit sig" using assms(1) by (auto simp: default_is_stop_def STOP_SIGNALS_def sigbit_def)
  then have "w AND sigbit sig = (w AND STOP_SIGNALS) AND sigbit sig" by (simp add: and.assoc)
  then show ?thesis using assms(2) by simp
qed

lemma find_in: "find P xs = Some u \<Longrightarrow> u \<in> set xs \<and> P u"
  by (auto simp: find_Some_iff)

lemma receiver_in_process:
  assumes "receiver s t sig = Some p" and "t \<in> set (tasks s)"
  shows "\<exists>u\<in>set (tasks s). pid u = p \<and> proc u = proc t"
  using assms by (auto simp: receiver_def split: if_splits option.splits dest!: find_in)

lemma distinct_owner: "distinct (map pid (tasks s)) \<Longrightarrow> u \<in> set (tasks s) \<Longrightarrow> owner (pid u) (proc u) s"
  by (auto simp: owner_def list_all_iff distinct_map dest: inj_onD)

lemma distinct_find: "distinct (map pid (tasks s)) \<Longrightarrow> u \<in> set (tasks s) \<Longrightarrow> find_task s (pid u) = Some u"
proof -
  assume "distinct (map pid (tasks s))" "u \<in> set (tasks s)"
  moreover have "distinct (map pid ts) \<Longrightarrow> u \<in> set ts \<Longrightarrow> find (\<lambda>t. pid t = pid u) ts = Some u" for ts
    by (induction ts) (auto dest: image_eqI [of "pid u" pid u])
  ultimately show ?thesis by (simp add: find_task_def)
qed


text \<open>The three ways a signal goes on after stopping and continuing have cancelled each other.\<close>

definition send_rest :: "system \<Rightarrow> nat \<Rightarrow> nat \<Rightarrow> nat \<Rightarrow> system" where
  "send_rest s p pr n =
     (if n = SIGSTOP then for_each_thread pr (sched_request_stop n) s
      else if is_ignored (sig_handlers (procs s pr) ! n) n then s
      else case find_task s p of None \<Rightarrow> s | Some t \<Rightarrow>
        (case receiver s t n of
          None \<Rightarrow> s
        | Some p \<Rightarrow> act_on_pending p (on_task p (\<lambda>t. t\<lparr>sig_pending := sig_pending t OR sigbit n\<rparr>) s)))"

lemma send_rest_cases:
  assumes d: "distinct (map pid (tasks s))" and t: "t \<in> set (tasks s)"
    and I: "list_all Q (tasks s)" and "\<And>u. Q u \<Longrightarrow> proc u = proc t \<Longrightarrow> n \<noteq> SIGSTOP \<Longrightarrow> Q (u\<lparr>sig_pending := sig_pending u OR sigbit n\<rparr>)"
    and "\<And>sig u. Q u \<Longrightarrow> Q (drop_pending sig u)" and "\<And>u. Q u \<Longrightarrow> Q (sched_interrupt_sleep u)" and "\<And>sig u. Q u \<Longrightarrow> Q (sched_request_kill sig u)"
    and "\<And>sig u. stop_ok \<Longrightarrow> Q u \<Longrightarrow> Q (sched_request_stop sig u)" and "n = SIGSTOP \<Longrightarrow> stop_ok"
    and "stop_ok \<or> list_all (\<lambda>u. proc u = proc t \<longrightarrow> sig_pending u AND STOP_SIGNALS = 0) (tasks s) \<and> \<not> default_is_stop n"
  shows "only_in (proc t) s (send_rest s (pid t) (proc t) n) \<and> list_all Q (tasks (send_rest s (pid t) (proc t) n))"
proof -
  consider "n = SIGSTOP" | "n \<noteq> SIGSTOP" "send_rest s (pid t) (proc t) n = s"
    | p where "n \<noteq> SIGSTOP" "receiver s t n = Some p" "send_rest s (pid t) (proc t) n = act_on_pending p (on_task p (\<lambda>t. t\<lparr>sig_pending := sig_pending t OR sigbit n\<rparr>) s)"
    using distinct_find [OF d t]
    by (cases "n = SIGSTOP"; cases "is_ignored (sig_handlers (procs s (proc t)) ! n) n"; cases "receiver s t n") (auto simp: send_rest_def)
  then show ?thesis
  proof cases
    case 1
    then show ?thesis using all_tasks_ops(2) [of Q "sched_request_stop SIGSTOP"] assms(8,9) I by (simp add: send_rest_def only_in_for_each)
  next
    case 2
    then show ?thesis using I by simp
  next
    case (3 p)
    obtain u where u: "u \<in> set (tasks s)" "pid u = p" "proc u = proc t" using receiver_in_process [OF 3(2) t] by blast
    define s1 where "s1 = on_task p (\<lambda>t. t\<lparr>sig_pending := sig_pending t OR sigbit n\<rparr>) s"
    have own: "owner p (proc t) s" using distinct_owner [OF d u(1)] u by simp
    then have in1: "only_in (proc t) s s1" unfolding s1_def by (intro only_in_on_task) simp_all
    have f1: "find_task s1 p = Some (u\<lparr>sig_pending := sig_pending u OR sigbit n\<rparr>)" (is "_ = Some ?u")
      unfolding s1_def using find_on_task [of "\<lambda>t. t\<lparr>sig_pending := sig_pending t OR sigbit n\<rparr>" p s] distinct_find [OF d u(1)] u(2) by simp
    have Q1: "list_all Q (tasks s1)"
      using I own assms(4) 3(1) by (auto simp: s1_def on_task_def list_all_iff owner_def)
    have pr: "proc ?u = proc t" using u by simp
    have "list_all Q (tasks (act_on_signal p (proc ?u) (sig_handlers (procs s1 (proc ?u)) ! sig) sig s'))"
      if "list_all Q (tasks s')" "(sig_pending ?u AND NOT (sig_blocked ?u)) AND sigbit sig \<noteq> 0" for s' sig
    proof (rule all_tasks_act_on_signal [OF assms(5-7) _ that(1)])
      fix v assume st: "default_is_stop sig" "Q v"
      have "stop_ok"
      proof (rule ccontr)
        assume "\<not> stop_ok"
        then have "sig_pending u AND STOP_SIGNALS = 0" "\<not> default_is_stop n" using assms(10) u by (auto simp: list_all_iff)
        then have "sig_pending u AND sigbit sig = 0" "n \<noteq> sig" using stop_bit [OF st(1)] st(1) by blast+
        moreover from this(2) have "sigbit n AND sigbit sig = 0" by (rule sigbit_disjoint)
        ultimately have "(sig_pending u OR sigbit n) AND sigbit sig = 0" by (intro and_or_cover)
        then show False using that(2) and_zero_mono by auto
      qed
      then show "Q (sched_request_stop sig v)" using assms(8) st by blast
    qed auto
    then have "list_all Q (tasks (act_on_pending p s1))" "only_in (proc t) s1 (act_on_pending p s1)"
      using act_on_pending_induct [OF f1, where I = "\<lambda>s. list_all Q (tasks s)"] owner_only_in [OF own in1] Q1 pr by auto
    then show ?thesis using only_in_trans [OF in1] unfolding 3(3) [folded s1_def] by blast
  qed
qed


lemma distinct_only_in: "distinct (map pid (tasks s)) \<Longrightarrow> only_in pr s s' \<Longrightarrow> distinct (map pid (tasks s'))"
proof -
  assume "distinct (map pid (tasks s))" "only_in pr s s'"
  moreover from this(2) have "map pid (tasks s') = map pid (tasks s)"
    by (auto simp: only_in_def list_all2_conv_all_nth task_view_def intro: nth_equalityI)
  ultimately show ?thesis by simp
qed

lemma list_ex_map_mono: "list_ex R xs \<Longrightarrow> (\<And>x. R x \<Longrightarrow> R (g x)) \<Longrightarrow> list_ex R (map g xs)"
  by (auto simp: list_ex_iff)

text \<open>A handled signal is left pending for the thread it was given to.\<close>

lemma send_rest_pending:
  assumes d: "distinct (map pid (tasks s))" and t: "t \<in> set (tasks s)" and "n \<noteq> SIGSTOP" and n: "1 \<le> n" "n < TASK_NSIG"
    and h: "sig_handlers (procs s (proc t)) ! n \<noteq> SIG_DFL" "sig_handlers (procs s (proc t)) ! n \<noteq> SIG_IGN" and r: "receiver s t n = Some p"
  shows "list_ex (\<lambda>u. pid u = p \<and> proc u = proc t \<and> bit (sig_pending u) n) (tasks (send_rest s (pid t) (proc t) n))"
proof -
  obtain u where u: "u \<in> set (tasks s)" "pid u = p" "proc u = proc t" using receiver_in_process [OF r t] by blast
  define s1 where "s1 = on_task p (\<lambda>t. t\<lparr>sig_pending := sig_pending t OR sigbit n\<rparr>) s"
  define I :: "system \<Rightarrow> bool" where "I = (\<lambda>s. list_ex (\<lambda>u. pid u = p \<and> proc u = proc t \<and> bit (sig_pending u) n) (tasks s))"
  have own: "owner p (proc t) s" using distinct_owner [OF d u(1)] u by simp
  then have own1: "owner p (proc t) s1" unfolding s1_def by (intro owner_only_in [OF own] only_in_on_task) simp_all
  have f1: "find_task s1 p = Some (u\<lparr>sig_pending := sig_pending u OR sigbit n\<rparr>)" (is "_ = Some ?u")
    unfolding s1_def using find_on_task [of "\<lambda>t. t\<lparr>sig_pending := sig_pending t OR sigbit n\<rparr>" p s] distinct_find [OF d u(1)] u(2) by simp
  have "?u \<in> set (tasks s1)" using u by (auto simp: s1_def on_task_def image_iff intro!: bexI [of _ u])
  moreover have "bit (sig_pending ?u) n" using n(2) by (simp add: bit_simps sigbit_def)
  ultimately have I1: "I s1" unfolding I_def list_ex_iff using u by (intro bexI [of _ ?u]) auto
  have ops: "I (on_task q f s')" "I (for_each_thread q f s')" if "I s'" "\<And>v. pid (f v) = pid v \<and> proc (f v) = proc v \<and> (bit (sig_pending v) n \<longrightarrow> bit (sig_pending (f v)) n)" for q f s'
    using that(1) unfolding I_def on_task_def for_each_thread_def by (auto intro!: list_ex_map_mono simp: that(2))
  have sleep: "I (on_task p sched_interrupt_sleep s')" if "I s'" for s'
    by (rule ops(1) [OF that]) (simp add: sched_interrupt_sleep_def wake_task_def)
  have every: "I (for_each_thread q (sched_request_stop k) s')" "I (for_each_thread q (sched_request_kill k) s')" if "I s'" for q k s'
    by (rule ops(2) [OF that], simp add: sched_request_stop_def sched_request_kill_def wake_task_def Let_def)+
  have other: "I (on_task p (drop_pending k) s')" if "I s'" "k \<noteq> n" for k s'
    by (rule ops(1) [OF that(1)]) (use that(2) n(2) in \<open>simp add: drop_pending_def bit_simps sigbit_def\<close>)
  have "I (act_on_signal p (proc ?u) (sig_handlers (procs s1 (proc ?u)) ! k) k s')" if "I s'" for s' k
  proof (cases "k = n")
    case True
    then show ?thesis using h u that sleep by (simp add: act_on_signal_def s1_def)
  next
    case False
    then show ?thesis using that sleep every other by (auto simp: act_on_signal_def Let_def)
  qed
  then have "I (act_on_pending p s1)" using act_on_pending_induct(1) [OF f1, where I = I] own1 u I1 by simp
  moreover have "send_rest s (pid t) (proc t) n = act_on_pending p s1"
    using distinct_find [OF d t] r h assms(3) by (simp add: send_rest_def is_ignored_def s1_def)
  ultimately show ?thesis by (simp add: I_def)
qed


lemma receiver_exists: "list_ex (\<lambda>u. proc u = proc t \<and> usable u) (tasks s) \<Longrightarrow> \<exists>p. receiver s t n = Some p"
proof -
  assume "list_ex (\<lambda>u. proc u = proc t \<and> usable u) (tasks s)"
  then have "find (\<lambda>u. proc u = proc t \<and> usable u) (tasks s) \<noteq> None" by (auto simp: list_ex_iff find_None_iff)
  then show ?thesis by (auto simp: receiver_def split: option.splits)
qed

lemma only_in_member: "only_in pr s s' \<Longrightarrow> t \<in> set (tasks s) \<Longrightarrow> \<exists>t'\<in>set (tasks s'). pid t' = pid t \<and> proc t' = proc t"
  unfolding only_in_def list_all2_conv_all_nth task_view_def by (metis in_set_conv_nth prod.inject)

lemma send_rest_continues:
  assumes "distinct (map pid (tasks s1))" and "t \<in> set (tasks s1)" and "s1 = for_each_thread (proc t) sched_continue (drop_stops (proc t) s)"
  shows "list_all (\<lambda>u. proc u = proc t \<longrightarrow> continued u) (tasks (send_rest s1 (pid t) (proc t) SIGCONT))"
proof -
  have start: "list_all (\<lambda>u. proc u = proc t \<longrightarrow> continued u) (tasks s1)"
    unfolding assms(3) drop_stops_eq
    by (auto simp: for_each_thread_def list_all_iff continued_def sched_continue_def wake_task_def Let_def and_not_cover)
  moreover have cont: "sigbit SIGCONT AND STOP_SIGNALS = 0" by (simp add: sigbit_def STOP_SIGNALS_def)
  moreover have "list_all (\<lambda>u. proc u = proc t \<longrightarrow> sig_pending u AND STOP_SIGNALS = 0) (tasks s1)" using start by (simp add: list_all_iff continued_def)
  moreover have "continued (u\<lparr>sig_pending := sig_pending u OR sigbit SIGCONT\<rparr>)" if "continued u" for u
    using that cont by (simp add: continued_def and_or_cover)
  ultimately show ?thesis
    using send_rest_cases [OF assms(1,2), of "\<lambda>u. proc u = proc t \<longrightarrow> continued u" SIGCONT False] task_proc_ops continued_ops
    by (simp add: default_is_stop_def)
qed

lemma send_rest_no_cont:
  assumes "distinct (map pid (tasks s1))" and "t \<in> set (tasks s1)" and "n \<noteq> SIGCONT" and "s1 = for_each_thread (proc t) (drop_pending SIGCONT) s"
  shows "list_all (\<lambda>u. proc u = proc t \<longrightarrow> sig_pending u AND sigbit SIGCONT = 0) (tasks (send_rest s1 (pid t) (proc t) n))"
proof -
  have "list_all (\<lambda>u. proc u = proc t \<longrightarrow> sig_pending u AND sigbit SIGCONT = 0) (tasks s1)"
    unfolding assms(4) by (auto simp: for_each_thread_def list_all_iff drop_pending_def and_not_cover)
  then show ?thesis
    using send_rest_cases [OF assms(1,2), of "\<lambda>u. proc u = proc t \<longrightarrow> sig_pending u AND sigbit SIGCONT = 0" n True] task_proc_ops no_cont_ops
      and_or_cover [OF _ sigbit_disjoint [OF assms(3)]] by simp
qed




section \<open>An example\<close>

definition example_process :: process where
  "example_process = \<lparr>sig_handlers = (replicate 32 0)[10 := 0x400000], sig_restorer = 0x400100, sig_masks = replicate 32 0,
     sig_flags = replicate 32 0, live = 1\<rparr>"

definition example_task :: task where
  "example_task = \<lparr>pid = 1, proc = 1, is_user = True, exiting = False, tstate = TASK_RUNNING, stop_pending = 0, kill_pending = 0,
     sig_pending = 0x400, sig_blocked = 0, restart_syscall = 0\<rparr>"

definition example_system :: system where
  "example_system = \<lparr>tasks = [example_task], procs = (\<lambda>_. example_process)\<rparr>"

definition example_regs :: registers where
  "example_regs = (words_regs (replicate 22 0))\<lparr>rip := 0x400010, cs := USER_CS, ss := USER_DS, rsp := 0x7000, rflags := RFLAGS_ALWAYS\<rparr>"

definition example_frame :: "u8 list" where
  "example_frame = frame_bytes 0x400100 10 0 example_regs (replicate 8 0) (replicate 512 0)"

definition example_memory :: "u64 \<Rightarrow> u8" where
  "example_memory x = example_frame ! unat (x - signal_frame_addr 0x7000)"

lemma example_ok: "signals_ok example_system"
proof -
  have "process_ok example_process" by code_simp
  then show ?thesis by (simp add: signals_ok_def example_system_def example_task_def)
qed

lemma example_find: "find_task example_system 1 = Some example_task"
  by (simp add: find_task_def example_system_def example_task_def)

lemma example_user: "user_mode example_regs"
  by (simp add: user_mode_def example_regs_def)

lemma example_deliver:
  "\<exists>s1 r. signal_deliver (\<lambda>_. True) (replicate 8 0) (replicate 512 0) example_system 1 example_regs
     = (s1, Enter r (signal_frame_addr 0x7000) example_frame) \<and> rdi r = 10"
proof -
  have "find (\<lambda>n. (sig_pending example_task AND NOT (sig_blocked example_task)) AND sigbit n \<noteq> 0) [1 ..< 32] = Some 10" by code_simp
  moreover have "sig_handlers example_process ! 10 = 0x400000" "sig_flags example_process ! 10 = 0" "sig_restorer example_process = 0x400100"
    by (simp_all add: example_process_def)
  moreover have "signal_deliverable example_task" "is_user example_task" "sig_blocked example_task = 0" "restart_syscall example_task = 0"
    by (simp_all add: signal_deliverable_def example_task_def)
  moreover have "signal_frame_addr 0x7000 < 0x7000" by (simp add: signal_frame_addr_def)
  moreover have "rsp example_regs = 0x7000" "cs example_regs = USER_CS" by (simp_all add: example_regs_def)
  ultimately show ?thesis
    using example_find by (simp add: signal_deliver_def Let_def example_system_def example_frame_def handler_regs_def saved_regs_def)
qed

lemma example_read: "read_bytes example_memory (signal_frame_addr 0x7000) 720 = example_frame"
proof (rule nth_equalityI)
  have "length example_frame = 720" unfolding example_frame_def by (rule frame_fields(1)) simp_all
  then show "length (read_bytes example_memory (signal_frame_addr 0x7000) 720) = length example_frame" by simp
qed (simp add: read_bytes_def example_memory_def unat_of_nat)

lemma signals_confined_witness:
  "list_all (\<lambda>t. sig_blocked t AND (sigbit SIGKILL OR sigbit SIGSTOP) = 0) (tasks (foldl sig_apply example_system [Mask 1 2 0xFFFFFFFF, Send 1 10]))"
  using signals_confined [OF example_ok refl] by blast




end
