(* ===== verification/Bcache.thy ===== *)
theory Bcache
  imports Prelude
begin

text \<open>
  The cache of disk sectors, \<^verbatim>\<open>src/src/drivers/block/bcache.c\<close>. A sector is a list of bytes; sector
  numbers are natural numbers (a disk has far fewer than \<open>2 ^ 64\<close> sectors), and so is the count of writes, which a
  64-bit counter does not exhaust. What the disk driver answers is an argument of the operations; the interleavings of
  readers and writers, which hold the cache's lock only between disk requests, are a step relation.
\<close>

section \<open>The code\<close>

abbreviation (input) "BCACHE_SECTORS \<equiv> 1024 :: nat"

type_synonym sector = "u8 list"

record entry =
  valid :: bool
  edev :: nat
  elba :: nat

record bcache_stats =
  hits :: nat
  misses :: nat
  writes :: nat

record bcache =
  entries :: "nat \<Rightarrow> entry"
  cdata :: "(nat \<Rightarrow> sector) option"
  stats :: bcache_stats
  write_count :: nat

definition bcache_boot :: bcache where
  "bcache_boot = \<lparr>entries = (\<lambda>_. \<lparr>valid = False, edev = 0, elba = 0\<rparr>), cdata = None, stats = \<lparr>hits = 0, misses = 0, writes = 0\<rparr>, write_count = 0\<rparr>"

text \<open>\<open>memory\<close>: what the cache's memory holds when it is allocated, if it can be.\<close>

definition ready :: "(nat \<Rightarrow> sector) option \<Rightarrow> bcache \<Rightarrow> bcache \<times> bool" where
  "ready memory c = (if cdata c \<noteq> None then (c, True)
     else case memory of None \<Rightarrow> (c, False) | Some d \<Rightarrow> (c\<lparr>cdata := Some d\<rparr>, True))"

text \<open>The number of the disk is kept in 8 bits.\<close>

definition store :: "nat \<Rightarrow> nat \<Rightarrow> sector \<Rightarrow> bcache \<Rightarrow> bcache" where
  "store dev lba sector c = (let slot = lba mod BCACHE_SECTORS
     in c\<lparr>entries := (entries c)(slot := \<lparr>valid = True, edev = dev mod 256, elba = lba\<rparr>),
          cdata := map_option (\<lambda>d. d(slot := sector)) (cdata c)\<rparr>)"

definition is_hit :: "bcache \<Rightarrow> nat \<Rightarrow> nat \<Rightarrow> bool" where
  "is_hit c dev lba \<longleftrightarrow> (let e = entries c (lba mod BCACHE_SECTORS) in valid e \<and> edev e = dev \<and> elba e = lba)"

text \<open>The first half of reading a sector, and the second, after the disk was asked.\<close>

definition read_lookup :: "bcache \<Rightarrow> nat \<Rightarrow> nat \<Rightarrow> bcache \<times> sector option \<times> nat" where
  "read_lookup c dev lba =
     (if is_hit c dev lba then
        (c\<lparr>stats := (stats c)\<lparr>hits := hits (stats c) + 1\<rparr>\<rparr>, map_option (\<lambda>d. d (lba mod BCACHE_SECTORS)) (cdata c), write_count c)
      else (c\<lparr>stats := (stats c)\<lparr>misses := misses (stats c) + 1\<rparr>\<rparr>, None, write_count c))"

definition read_fill :: "nat \<Rightarrow> nat \<Rightarrow> nat \<Rightarrow> sector \<Rightarrow> bcache \<Rightarrow> bcache" where
  "read_fill dev lba writes_before sector c = (if write_count c = writes_before then store dev lba sector c else c)"

text \<open>\<open>fetch\<close>: what the disk answers for a sector. The result is the sectors read, if no request failed.\<close>

fun read_sectors :: "(nat \<Rightarrow> nat \<Rightarrow> sector option) \<Rightarrow> nat \<Rightarrow> nat \<Rightarrow> nat \<Rightarrow> bcache \<Rightarrow> bcache \<times> sector list option" where
  "read_sectors fetch dev lba 0 c = (c, Some [])"
| "read_sectors fetch dev lba (Suc n) c =
     (case read_lookup c dev lba of
        (c, Some s, _) \<Rightarrow> (case read_sectors fetch dev (lba + 1) n c of (c, r) \<Rightarrow> (c, map_option ((#) s) r))
      | (c, None, wb) \<Rightarrow> (case fetch dev lba of
           None \<Rightarrow> (c, None)
         | Some s \<Rightarrow> (case read_sectors fetch dev (lba + 1) n (read_fill dev lba wb s c) of (c, r) \<Rightarrow> (c, map_option ((#) s) r))))"

definition read_direct :: "(nat \<Rightarrow> nat \<Rightarrow> sector option) \<Rightarrow> nat \<Rightarrow> nat \<Rightarrow> nat \<Rightarrow> sector list option" where
  "read_direct fetch dev lba n = those (map (fetch dev) [lba ..< lba + n])"

definition bcache_read_dev ::
    "(nat \<Rightarrow> sector) option \<Rightarrow> (nat \<Rightarrow> nat \<Rightarrow> sector option) \<Rightarrow> bcache \<Rightarrow> nat \<Rightarrow> nat \<Rightarrow> nat \<Rightarrow> bcache \<times> sector list option" where
  "bcache_read_dev memory fetch c dev lba n =
     (case ready memory c of
        (c, False) \<Rightarrow> (c, read_direct fetch dev lba n)
      | (c, True) \<Rightarrow> read_sectors fetch dev lba n c)"

definition bcache_read ::
    "(nat \<Rightarrow> sector) option \<Rightarrow> (nat \<Rightarrow> nat \<Rightarrow> sector option) \<Rightarrow> bcache \<Rightarrow> nat \<Rightarrow> nat \<Rightarrow> bcache \<times> sector list option" where
  "bcache_read memory fetch c lba n = bcache_read_dev memory fetch c 0 lba n"

text \<open>\<open>ok\<close>: whether the disk took the write.\<close>

fun update_sectors :: "bool \<Rightarrow> nat \<Rightarrow> nat \<Rightarrow> sector list \<Rightarrow> bcache \<Rightarrow> bcache" where
  "update_sectors ok dev lba [] c = c"
| "update_sectors ok dev lba (s # ss) c = update_sectors ok dev (lba + 1) ss
     (if ok then store dev lba s c
      else if is_hit c dev lba then c\<lparr>entries := (entries c)(lba mod BCACHE_SECTORS := (entries c (lba mod BCACHE_SECTORS))\<lparr>valid := False\<rparr>)\<rparr>
      else c)"

definition bcache_write_dev :: "bool \<Rightarrow> bcache \<Rightarrow> nat \<Rightarrow> nat \<Rightarrow> sector list \<Rightarrow> bcache" where
  "bcache_write_dev ok c dev lba ss = (if cdata c = None then c
     else update_sectors ok dev lba ss (c\<lparr>write_count := write_count c + 1, stats := (stats c)\<lparr>writes := writes (stats c) + length ss\<rparr>\<rparr>))"

definition bcache_write :: "bool \<Rightarrow> bcache \<Rightarrow> nat \<Rightarrow> sector list \<Rightarrow> bcache" where
  "bcache_write ok c lba ss = bcache_write_dev ok c 0 lba ss"

definition bcache_invalidate :: "bcache \<Rightarrow> bcache" where
  "bcache_invalidate c = c\<lparr>entries := (\<lambda>_. \<lparr>valid = False, edev = 0, elba = 0\<rparr>), write_count := write_count c + 1\<rparr>"

section \<open>Readers and writers at once\<close>

text \<open>
  A thread is idle, has looked a sector up and goes to the disk, comes back from it with a sector, or is in the middle
  of a disk write. While a sector is being written the disk may hold, and give a reader, anything; the driver
  answers that a write succeeded only when the disk holds what was written. Writers of the same sector are kept
  apart by their callers, as the contract of \<^verbatim>\<open>bcache_write\<close> asks.
\<close>

datatype thread = Idle | Looked nat nat nat | Fetched nat nat nat sector | Writing nat nat "sector list"

record world =
  cache :: bcache
  disk :: "nat \<Rightarrow> nat \<Rightarrow> sector"
  threads :: "nat \<Rightarrow> thread"

definition covered :: "world \<Rightarrow> nat \<Rightarrow> nat \<Rightarrow> bool" where
  "covered w dev lba \<longleftrightarrow> (\<exists>i l ss. threads w i = Writing dev l ss \<and> l \<le> lba \<and> lba < l + length ss)"

inductive bstep :: "world \<Rightarrow> world \<Rightarrow> bool" where
  alloc: "bstep w (w\<lparr>cache := fst (ready memory (cache w))\<rparr>)"
| lookup_hit: "threads w i = Idle \<Longrightarrow> dev < 256 \<Longrightarrow> cdata (cache w) \<noteq> None \<Longrightarrow> read_lookup (cache w) dev lba = (c, Some s, wb) \<Longrightarrow>
    bstep w (w\<lparr>cache := c\<rparr>)"
| lookup_miss: "threads w i = Idle \<Longrightarrow> dev < 256 \<Longrightarrow> cdata (cache w) \<noteq> None \<Longrightarrow> read_lookup (cache w) dev lba = (c, None, wb) \<Longrightarrow>
    bstep w (w\<lparr>cache := c, threads := (threads w)(i := Looked dev lba wb)\<rparr>)"
| fetch: "threads w i = Looked dev lba wb \<Longrightarrow> s = disk w dev lba \<or> covered w dev lba \<Longrightarrow>
    bstep w (w\<lparr>threads := (threads w)(i := Fetched dev lba wb s)\<rparr>)"
| fetch_fails: "threads w i = Looked dev lba wb \<Longrightarrow> bstep w (w\<lparr>threads := (threads w)(i := Idle)\<rparr>)"
| fill: "threads w i = Fetched dev lba wb s \<Longrightarrow> bstep w (w\<lparr>cache := read_fill dev lba wb s (cache w), threads := (threads w)(i := Idle)\<rparr>)"
| write_begins: "threads w i = Idle \<Longrightarrow> dev < 256 \<Longrightarrow> \<forall>lba. lba0 \<le> lba \<and> lba < lba0 + length ss \<longrightarrow> \<not> covered w dev lba \<Longrightarrow>
    bstep w (w\<lparr>threads := (threads w)(i := Writing dev lba0 ss)\<rparr>)"
| write_device: "threads w i = Writing dev lba0 ss \<Longrightarrow> lba0 \<le> lba \<Longrightarrow> lba < lba0 + length ss \<Longrightarrow>
    bstep w (w\<lparr>disk := (disk w)(dev := (disk w dev)(lba := s))\<rparr>)"
| write_ends: "threads w i = Writing dev lba0 ss \<Longrightarrow> ok \<longrightarrow> (\<forall>j < length ss. disk w dev (lba0 + j) = ss ! j) \<Longrightarrow>
    bstep w (w\<lparr>cache := bcache_write_dev ok (cache w) dev lba0 ss, threads := (threads w)(i := Idle)\<rparr>)"
| invalidate: "bstep w (w\<lparr>cache := bcache_invalidate (cache w)\<rparr>)"

inductive breach :: "world \<Rightarrow> bool" where
  start: "breach \<lparr>cache = bcache_boot, disk = d, threads = (\<lambda>_. Idle)\<rparr>"
| step: "breach w \<Longrightarrow> bstep w w' \<Longrightarrow> breach w'"


section \<open>What a cached sector is worth\<close>

text \<open>A sector is fresh when the disk holds the same, or its writer has yet to finish.\<close>

definition fresh :: "world \<Rightarrow> nat \<Rightarrow> nat \<Rightarrow> sector \<Rightarrow> bool" where
  "fresh w dev lba s \<longleftrightarrow> s = disk w dev lba \<or> covered w dev lba"

definition slot_ok :: "world \<Rightarrow> bcache \<Rightarrow> nat \<Rightarrow> bool" where
  "slot_ok w c slot \<longleftrightarrow> (let e = entries c slot in valid e \<longrightarrow> elba e mod BCACHE_SECTORS = slot
     \<and> (\<exists>d. cdata c = Some d \<and> fresh w (edev e) (elba e) (d slot)))"

definition thread_ok :: "world \<Rightarrow> thread \<Rightarrow> bool" where
  "thread_ok w t = (case t of
       Idle \<Rightarrow> True
     | Looked dev lba wb \<Rightarrow> dev < 256 \<and> wb \<le> write_count (cache w) \<and> cdata (cache w) \<noteq> None
     | Fetched dev lba wb s \<Rightarrow> dev < 256 \<and> wb \<le> write_count (cache w) \<and> cdata (cache w) \<noteq> None \<and> (wb = write_count (cache w) \<longrightarrow> fresh w dev lba s)
     | Writing dev lba ss \<Rightarrow> dev < 256)"

definition apart :: "thread \<Rightarrow> thread \<Rightarrow> bool" where
  "apart t u \<longleftrightarrow> (\<forall>dev l ss l' ss' lba. t = Writing dev l ss \<and> u = Writing dev l' ss' \<longrightarrow> \<not> (l \<le> lba \<and> lba < l + length ss \<and> l' \<le> lba \<and> lba < l' + length ss'))"

definition world_ok :: "world \<Rightarrow> bool" where
  "world_ok w \<longleftrightarrow> (\<forall>slot. slot_ok w (cache w) slot) \<and> (\<forall>i. thread_ok w (threads w i)) \<and> (\<forall>i j. i \<noteq> j \<longrightarrow> apart (threads w i) (threads w j))"

lemma apart_simps [simp]: "apart Idle t" "apart t Idle" "apart (Looked a b c) t" "apart t (Looked a b c)" "apart (Fetched a b c s) t" "apart t (Fetched a b c s)"
  by (simp_all add: apart_def)

lemma thread_ok_Idle [simp]: "thread_ok w Idle"
  by (simp add: thread_ok_def)

text \<open>What a change of cache and disk must keep for the other threads.\<close>

lemma thread_ok_mono:
  assumes "thread_ok w t" and "write_count (cache w) \<le> write_count (cache w')" and "cdata (cache w) \<noteq> None \<Longrightarrow> cdata (cache w') \<noteq> None"
    and "\<And>dev lba s. write_count (cache w') = write_count (cache w) \<Longrightarrow> fresh w dev lba s \<Longrightarrow> fresh w' dev lba s"
  shows "thread_ok w' t"
  using assms by (cases t) (auto simp: thread_ok_def)

lemma slot_ok_mono:
  "slot_ok w c slot \<Longrightarrow> (\<And>dev lba s. fresh w dev lba s \<Longrightarrow> fresh w' dev lba s) \<Longrightarrow> slot_ok w' c slot"
  by (auto simp: slot_ok_def Let_def)

lemma slot_ok_stats [simp]: "slot_ok w (c\<lparr>stats := st\<rparr>) slot = slot_ok w c slot" "slot_ok w (c\<lparr>write_count := n\<rparr>) slot = slot_ok w c slot"
  by (simp_all add: slot_ok_def)

lemma slot_ok_store: "slot_ok w c slot \<Longrightarrow> cdata c \<noteq> None \<Longrightarrow> dev < 256 \<Longrightarrow> fresh w dev lba s \<Longrightarrow> slot_ok w (store dev lba s c) slot"
  by (auto simp: slot_ok_def store_def Let_def)

lemma update_sectors_frame [simp]: "write_count (update_sectors ok dev lba ss c) = write_count c" "cdata (update_sectors ok dev lba ss c) = None \<longleftrightarrow> cdata c = None"
  by (induction ok dev lba ss c rule: update_sectors.induct) (auto simp: store_def Let_def)

text \<open>After a write, a slot is as it was, for a sector that was not written, or has a written sector.\<close>

lemma update_sectors_ok:
  assumes "cdata c = Some d" and "dev < 256"
    and "c' = update_sectors True dev lba ss c" and "valid (entries c' slot)"
  shows "\<exists>d'. cdata c' = Some d' \<and> ((\<exists>j<length ss. entries c' slot = \<lparr>valid = True, edev = dev, elba = lba + j\<rparr> \<and> (lba + j) mod BCACHE_SECTORS = slot \<and> d' slot = ss ! j)
    \<or> (entries c' slot = entries c slot \<and> d' slot = d slot \<and> (\<forall>j<length ss. (lba + j) mod BCACHE_SECTORS \<noteq> slot)))"
  using assms
proof (induction ss arbitrary: lba c d)
  case (Cons s ss)
  define c1 where "c1 = store dev lba s c"
  define d1 where "d1 = d(lba mod BCACHE_SECTORS := s)"
  have c1: "cdata c1 = Some d1" "entries c1 = (entries c)(lba mod BCACHE_SECTORS := \<lparr>valid = True, edev = dev, elba = lba\<rparr>)"
    using Cons.prems(1,2) by (simp_all add: c1_def d1_def store_def Let_def)
  have c': "c' = update_sectors True dev (lba + 1) ss c1" using Cons.prems(3) by (simp add: c1_def)
  obtain d' where d': "cdata c' = Some d'" and
    alt: "(\<exists>j<length ss. entries c' slot = \<lparr>valid = True, edev = dev, elba = lba + 1 + j\<rparr> \<and> (lba + 1 + j) mod BCACHE_SECTORS = slot \<and> d' slot = ss ! j)
      \<or> (entries c' slot = entries c1 slot \<and> d' slot = d1 slot \<and> (\<forall>j<length ss. (lba + 1 + j) mod BCACHE_SECTORS \<noteq> slot))"
    using Cons.IH [OF c1(1) Cons.prems(2) c' Cons.prems(4)] by blast
  from alt show ?case
  proof
    assume "\<exists>j<length ss. entries c' slot = \<lparr>valid = True, edev = dev, elba = lba + 1 + j\<rparr> \<and> (lba + 1 + j) mod BCACHE_SECTORS = slot \<and> d' slot = ss ! j"
    then obtain j where "j < length ss" "entries c' slot = \<lparr>valid = True, edev = dev, elba = lba + 1 + j\<rparr>" "(lba + 1 + j) mod BCACHE_SECTORS = slot" "d' slot = ss ! j" by blast
    then show ?thesis using d' by (intro exI [of _ d'] conjI disjI1 exI [of _ "Suc j"]) simp_all
  next
    assume old: "entries c' slot = entries c1 slot \<and> d' slot = d1 slot \<and> (\<forall>j<length ss. (lba + 1 + j) mod BCACHE_SECTORS \<noteq> slot)"
    show ?thesis
    proof (cases "lba mod BCACHE_SECTORS = slot")
      case True
      then show ?thesis using old c1 d' by (intro exI [of _ d'] conjI disjI1 exI [of _ 0]) (simp_all add: d1_def)
    next
      case False
      have "(lba + j) mod BCACHE_SECTORS \<noteq> slot" if "j < length (s # ss)" for j
      proof (cases j)
        case (Suc k)
        then have "(lba + 1 + k) mod BCACHE_SECTORS \<noteq> slot" using that old by simp
        moreover have "lba + 1 + k = lba + j" using Suc by simp
        ultimately show ?thesis by metis
      qed (simp add: False)
      then show ?thesis using old c1 d' False by (intro exI [of _ d'] conjI disjI2) (simp_all add: d1_def)
    qed
  qed
qed auto

lemma update_sectors_failed:
  assumes "c' = update_sectors False dev lba ss c" and "valid (entries c' slot)" and "elba (entries c slot) mod BCACHE_SECTORS = slot \<or> \<not> valid (entries c slot)"
  shows "cdata c' = cdata c \<and> entries c' slot = entries c slot \<and> \<not> (edev (entries c slot) = dev \<and> lba \<le> elba (entries c slot) \<and> elba (entries c slot) < lba + length ss)"
  using assms
proof (induction ss arbitrary: lba c)
  case (Cons s ss)
  define e where "e = entries c (lba mod BCACHE_SECTORS)"
  define c1 where "c1 = (if is_hit c dev lba then c\<lparr>entries := (entries c)(lba mod BCACHE_SECTORS := e\<lparr>valid := False\<rparr>)\<rparr> else c)"
  have c': "c' = update_sectors False dev (lba + 1) ss c1" using Cons.prems(1) by (simp add: c1_def e_def)
  have keep: "elba (entries c1 slot) mod BCACHE_SECTORS = slot \<or> \<not> valid (entries c1 slot)" using Cons.prems(3) by (auto simp: c1_def)
  note ih = Cons.IH [OF c' Cons.prems(2) keep]
  then have v: "valid (entries c1 slot)" using Cons.prems(2) by simp
  then have same: "entries c1 slot = entries c slot" "cdata c1 = cdata c" by (auto simp: c1_def split: if_splits)
  have "\<not> (edev (entries c slot) = dev \<and> elba (entries c slot) = lba)"
  proof
    assume a: "edev (entries c slot) = dev \<and> elba (entries c slot) = lba"
    then have "slot = lba mod BCACHE_SECTORS" using v same Cons.prems(3) by auto
    then have "is_hit c dev lba" using a v same by (simp add: is_hit_def Let_def)
    then show False using v \<open>slot = _\<close> by (simp add: c1_def)
  qed
  then show ?case using ih same by (auto simp: le_less)
qed auto


section \<open>Every step keeps it\<close>

lemma fresh_cong [simp]: "fresh (w\<lparr>cache := c\<rparr>) = fresh w"
  by (simp add: fresh_def covered_def fun_eq_iff)

lemma covered_thread:
  "(\<And>dev l ss. threads w i \<noteq> Writing dev l ss) \<Longrightarrow> covered w dev lba \<Longrightarrow> covered (w\<lparr>threads := (threads w)(i := t)\<rparr>) dev lba"
  unfolding covered_def by (metis fun_upd_apply world.select_convs(3) world.surjective world.update_convs(3))

lemma fresh_thread: "(\<And>dev l ss. threads w i \<noteq> Writing dev l ss) \<Longrightarrow> fresh w dev lba s \<Longrightarrow> fresh (w\<lparr>threads := (threads w)(i := t)\<rparr>) dev lba s"
  using covered_thread by (auto simp: fresh_def)

lemma world_ok_thread:
  assumes "world_ok w" and "\<And>dev l ss. threads w i \<noteq> Writing dev l ss" and "thread_ok (w\<lparr>threads := (threads w)(i := t)\<rparr>) t"
    and "\<And>j. apart t (threads w j) \<and> apart (threads w j) t"
  shows "world_ok (w\<lparr>threads := (threads w)(i := t)\<rparr>)"
proof -
  note fr = fresh_thread [OF assms(2)]
  have "slot_ok (w\<lparr>threads := (threads w)(i := t)\<rparr>) (cache w) slot" for slot
    by (rule slot_ok_mono [of w]) (use assms(1) in \<open>simp_all add: world_ok_def fr\<close>)
  moreover have "thread_ok (w\<lparr>threads := (threads w)(i := t)\<rparr>) (threads w j)" for j
    by (rule thread_ok_mono [of w]) (use assms(1) in \<open>simp_all add: world_ok_def fr\<close>)
  ultimately show ?thesis using assms(1,3,4) by (auto simp: world_ok_def)
qed

lemma world_ok_cache:
  assumes "world_ok w" and "\<And>slot. slot_ok w c slot" and "write_count (cache w) \<le> write_count c" and "cdata (cache w) \<noteq> None \<Longrightarrow> cdata c \<noteq> None"
  shows "world_ok (w\<lparr>cache := c\<rparr>)"
proof -
  have "slot_ok (w\<lparr>cache := c\<rparr>) c slot" for slot by (rule slot_ok_mono [OF assms(2)]) simp
  moreover have "thread_ok (w\<lparr>cache := c\<rparr>) (threads w i)" for i
    by (rule thread_ok_mono [of w]) (use assms in \<open>simp_all add: world_ok_def\<close>)
  ultimately show ?thesis using assms(1) by (simp add: world_ok_def)
qed

lemma read_lookup_frame:
  "read_lookup c dev lba = (c', r, wb) \<Longrightarrow> wb = write_count c \<and> write_count c' = write_count c \<and> cdata c' = cdata c \<and> entries c' = entries c"
  by (auto simp: read_lookup_def split: if_splits)

lemma slot_ok_cong: "entries c' = entries c \<Longrightarrow> cdata c' = cdata c \<Longrightarrow> slot_ok w c' slot = slot_ok w c slot"
  by (simp add: slot_ok_def)

lemma write_ends_ok:
  assumes ok: "world_ok w" and t: "threads w i = Writing dev lba ss" and d: "flag \<longrightarrow> (\<forall>j < length ss. disk w dev (lba + j) = ss ! j)"
  shows "world_ok (w\<lparr>cache := bcache_write_dev flag (cache w) dev lba ss, threads := (threads w)(i := Idle)\<rparr>)" (is "world_ok ?w")
proof -
  have dev: "dev < 256" using ok t by (force simp: world_ok_def thread_ok_def dest: spec [of _ i])
  have out: "covered ?w dv x" if cov: "covered w dv x" and off: "\<not> (dv = dev \<and> lba \<le> x \<and> x < lba + length ss)" for dv x
  proof -
    obtain j l zs where j: "threads w j = Writing dv l zs" "l \<le> x" "x < l + length zs" using cov unfolding covered_def by blast
    then have "j \<noteq> i" using t off by auto
    then show ?thesis unfolding covered_def using j by (intro exI [of _ j] exI [of _ l] exI [of _ zs]) simp
  qed
  have fr: "fresh ?w dv x s" if "fresh w dv x s" "\<not> (dv = dev \<and> lba \<le> x \<and> x < lba + length ss)" for dv x s
    using that out by (auto simp: fresh_def)
  define c where "c = (cache w)\<lparr>write_count := write_count (cache w) + 1, stats := (stats (cache w))\<lparr>writes := writes (stats (cache w)) + length ss\<rparr>\<rparr>"
  have slots: "slot_ok w c slot" for slot using ok by (simp add: world_ok_def c_def slot_ok_def)
  show ?thesis
  proof (cases "cdata (cache w)")
    case None
    then have inval: "\<not> valid (entries (cache w) slot)" for slot using ok by (force simp: world_ok_def slot_ok_def Let_def)
    have same: "bcache_write_dev flag (cache w) dev lba ss = cache w" using None by (simp add: bcache_write_dev_def)
    have "thread_ok ?w (threads w j)" for j
      using ok None by (auto simp: world_ok_def thread_ok_def split: thread.splits dest: spec [of _ j])
    then show ?thesis using ok inval by (auto simp: world_ok_def same slot_ok_def Let_def)
  next
    case (Some m)
    define c' where "c' = update_sectors flag dev lba ss c"
    have c': "bcache_write_dev flag (cache w) dev lba ss = c'" using Some by (simp add: bcache_write_dev_def c'_def c_def)
    have cm: "cdata c = Some m" "write_count c = write_count (cache w) + 1" using Some by (simp_all add: c_def)
    have "slot_ok ?w c' slot" for slot
    proof (cases "valid (entries c' slot)")
      case True
      have mod: "elba (entries c slot) mod BCACHE_SECTORS = slot \<or> \<not> valid (entries c slot)" using slots [of slot] by (auto simp: slot_ok_def Let_def)
      show ?thesis
      proof (cases flag)
        case True
        obtain m' where m': "cdata c' = Some m'" and
          alt: "(\<exists>j<length ss. entries c' slot = \<lparr>valid = True, edev = dev, elba = lba + j\<rparr> \<and> (lba + j) mod BCACHE_SECTORS = slot \<and> m' slot = ss ! j)
            \<or> (entries c' slot = entries c slot \<and> m' slot = m slot \<and> (\<forall>j<length ss. (lba + j) mod BCACHE_SECTORS \<noteq> slot))"
          using update_sectors_ok [OF cm(1) dev c'_def [unfolded eqTrueI [OF True]] \<open>valid (entries c' slot)\<close>] by blast
        from alt show ?thesis
        proof
          assume "\<exists>j<length ss. entries c' slot = \<lparr>valid = True, edev = dev, elba = lba + j\<rparr> \<and> (lba + j) mod BCACHE_SECTORS = slot \<and> m' slot = ss ! j"
          then show ?thesis using d True m' by (auto simp: slot_ok_def Let_def fresh_def)
        next
          assume old: "entries c' slot = entries c slot \<and> m' slot = m slot \<and> (\<forall>j<length ss. (lba + j) mod BCACHE_SECTORS \<noteq> slot)"
          have "\<not> (lba \<le> elba (entries c slot) \<and> elba (entries c slot) < lba + length ss)"
          proof
            assume "lba \<le> elba (entries c slot) \<and> elba (entries c slot) < lba + length ss"
            then have "elba (entries c slot) - lba < length ss" "lba + (elba (entries c slot) - lba) = elba (entries c slot)" by auto
            then show False using old mod \<open>valid (entries c' slot)\<close> by metis
          qed
          then show ?thesis using slots [of slot] old m' cm(1) fr by (auto simp: slot_ok_def Let_def)
        qed
      next
        case False
        note upd = update_sectors_failed [OF _ \<open>valid (entries c' slot)\<close> mod, of dev lba ss]
        then show ?thesis using slots [of slot] fr cm(1) False unfolding c'_def by (auto simp: slot_ok_def Let_def)
      qed
    qed (simp add: slot_ok_def)
    moreover have "thread_ok ?w (threads w j)" for j
    proof -
      have "thread_ok w (threads w j)" using ok by (simp add: world_ok_def)
      then show ?thesis by (rule thread_ok_mono) (use Some cm in \<open>auto simp: c' c'_def\<close>)
    qed
    ultimately show ?thesis using ok by (auto simp: world_ok_def c')
  qed
qed


lemma fill_ok:
  assumes ok: "world_ok w" and t: "threads w i = Fetched dev lba wb s"
  shows "world_ok (w\<lparr>cache := read_fill dev lba wb s (cache w), threads := (threads w)(i := Idle)\<rparr>)"
proof -
  have th: "thread_ok w (Fetched dev lba wb s)" using ok t by (metis world_ok_def)
  then have c: "cdata (cache w) \<noteq> None" "dev < 256" "wb = write_count (cache w) \<longrightarrow> fresh w dev lba s" by (auto simp: thread_ok_def)
  have slots: "slot_ok w (cache w) slot" for slot using ok by (simp add: world_ok_def)
  have "slot_ok w (read_fill dev lba wb s (cache w)) slot" for slot
    using slots [of slot] slot_ok_store [OF slots c(1,2)] c(3) by (auto simp: read_fill_def)
  moreover have "write_count (cache w) \<le> write_count (read_fill dev lba wb s (cache w))" "cdata (read_fill dev lba wb s (cache w)) \<noteq> None"
    using c(1) by (auto simp: read_fill_def store_def Let_def)
  ultimately have "world_ok (w\<lparr>cache := read_fill dev lba wb s (cache w)\<rparr>)" using world_ok_cache [OF ok] by blast
  then have "world_ok (w\<lparr>cache := read_fill dev lba wb s (cache w), threads := (threads (w\<lparr>cache := read_fill dev lba wb s (cache w)\<rparr>))(i := Idle)\<rparr>)"
    by (rule world_ok_thread) (simp_all add: t)
  then show ?thesis by simp
qed

lemma write_begins_ok:
  assumes "world_ok w" and "threads w i = Idle" and "dev < 256" and "\<forall>lba. lba0 \<le> lba \<and> lba < lba0 + length ss \<longrightarrow> \<not> covered w dev lba"
  shows "world_ok (w\<lparr>threads := (threads w)(i := Writing dev lba0 ss)\<rparr>)"
proof (rule world_ok_thread [OF assms(1)])
  fix j
  show "apart (Writing dev lba0 ss) (threads w j) \<and> apart (threads w j) (Writing dev lba0 ss)"
    using assms(4) unfolding apart_def covered_def by blast
qed (use assms(2,3) in \<open>simp_all add: thread_ok_def\<close>)

lemma write_device_ok:
  assumes "world_ok w" and "threads w i = Writing dev lba0 ss" and "lba0 \<le> lba" and "lba < lba0 + length ss"
  shows "world_ok (w\<lparr>disk := (disk w)(dev := (disk w dev)(lba := s))\<rparr>)" (is "world_ok ?w")
proof -
  have cov: "covered ?w = covered w" by (simp add: covered_def fun_eq_iff)
  have "covered w dev lba" unfolding covered_def using assms(2-4) by blast
  then have fr: "fresh ?w dv x s'" if "fresh w dv x s'" for dv x s' using that by (auto simp: fresh_def cov)
  have "slot_ok ?w (cache w) slot" for slot
    by (rule slot_ok_mono [of w]) (use assms(1) in \<open>simp_all add: world_ok_def fr\<close>)
  moreover have "thread_ok ?w (threads w j)" for j
    by (rule thread_ok_mono [of w]) (use assms(1) in \<open>simp_all add: world_ok_def fr\<close>)
  ultimately show ?thesis using assms(1) by (simp add: world_ok_def)
qed

lemma bstep_ok: "bstep w w' \<Longrightarrow> world_ok w \<Longrightarrow> world_ok w'"
proof (induction rule: bstep.induct)
  case (alloc w memory)
  have "slot_ok w (fst (ready memory (cache w))) slot" for slot
    using alloc by (auto simp: world_ok_def ready_def slot_ok_def Let_def split: option.splits)
  then show ?case by (intro world_ok_cache [OF alloc]) (auto simp: ready_def split: option.splits)
next
  case (lookup_hit w i dev lba c s wb)
  note fr = read_lookup_frame [OF lookup_hit(4)]
  then have "slot_ok w c slot" for slot using lookup_hit(5) slot_ok_cong [of c "cache w"] by (simp add: world_ok_def)
  then show ?case using fr by (intro world_ok_cache [OF lookup_hit(5)]) simp_all
next
  case (lookup_miss w i dev lba c wb)
  note fr = read_lookup_frame [OF lookup_miss(4)]
  then have "slot_ok w c slot" for slot using lookup_miss(5) slot_ok_cong [of c "cache w"] by (simp add: world_ok_def)
  then have "world_ok (w\<lparr>cache := c\<rparr>)" using fr by (intro world_ok_cache [OF lookup_miss(5)]) simp_all
  from world_ok_thread [OF this, of i "Looked dev lba wb"] show ?case using lookup_miss(1-3) fr by (simp add: thread_ok_def)
next
  case (fetch w i dev lba wb s)
  have "thread_ok w (Looked dev lba wb)" using fetch(1,3) by (metis world_ok_def)
  moreover have "fresh (w\<lparr>threads := (threads w)(i := Fetched dev lba wb s)\<rparr>) dev lba s"
    by (rule fresh_thread) (use fetch in \<open>auto simp: fresh_def\<close>)
  ultimately show ?case using fetch(1) by (intro world_ok_thread [OF fetch(3)]) (auto simp: thread_ok_def)
next
  case (fetch_fails w i dev lba wb)
  then show ?case by (intro world_ok_thread) simp_all
next
  case (fill w i dev lba wb s)
  then show ?case by (intro fill_ok)
next
  case (write_begins w i dev lba0 ss)
  then show ?case by (intro write_begins_ok)
next
  case (write_device w i dev lba0 ss lba s)
  then show ?case by (intro write_device_ok)
next
  case (write_ends w i dev lba0 ss ok)
  then show ?case by (intro write_ends_ok)
next
  case (invalidate w)
  then show ?case by (intro world_ok_cache) (simp_all add: bcache_invalidate_def slot_ok_def)
qed

lemma breach_ok: "breach w \<Longrightarrow> world_ok w"
proof (induction rule: breach.induct)
  case (start d)
  then show ?case by (simp add: world_ok_def slot_ok_def bcache_boot_def)
qed (rule bstep_ok)

text \<open>C6. The cache never lies. However readers, writers, failing disk requests and invalidations interleave, as long
  as two writers of one sector are kept apart, a sector found in the cache is what the disk holds, unless a
  write of that sector is still in progress.\<close>

theorem bcache_coherent:
  assumes "breach w" and "read_lookup (cache w) dev lba = (c, Some s, wb)"
  shows "s = disk w dev lba \<or> covered w dev lba"
proof -
  have hit: "is_hit (cache w) dev lba" and d: "\<exists>d. cdata (cache w) = Some d \<and> s = d (lba mod BCACHE_SECTORS)"
    using assms(2) by (auto simp: read_lookup_def split: if_splits)
  moreover have "slot_ok w (cache w) (lba mod BCACHE_SECTORS)" using breach_ok [OF assms(1)] by (simp add: world_ok_def)
  ultimately show ?thesis by (auto simp: slot_ok_def is_hit_def Let_def fresh_def)
qed

section \<open>A reader alone\<close>

definition agrees :: "bcache \<Rightarrow> (nat \<Rightarrow> nat \<Rightarrow> sector) \<Rightarrow> bool" where
  "agrees c d \<longleftrightarrow> (\<forall>slot. valid (entries c slot) \<longrightarrow> (\<exists>m. cdata c = Some m \<and> m slot = d (edev (entries c slot)) (elba (entries c slot))))"

lemma agrees_store: "agrees c d \<Longrightarrow> dev < 256 \<Longrightarrow> cdata c \<noteq> None \<Longrightarrow> agrees (store dev lba (d dev lba) c) d"
  by (auto simp: agrees_def store_def Let_def)

lemma read_sectors_correct:
  "agrees c d \<Longrightarrow> dev < 256 \<Longrightarrow> cdata c \<noteq> None \<Longrightarrow> read_sectors (\<lambda>dv l. Some (d dv l)) dev lba n c = (c', r)
    \<Longrightarrow> r = Some (map (d dev) [lba ..< lba + n]) \<and> agrees c' d"
proof (induction n arbitrary: c lba r c')
  case (Suc n)
  obtain c1 s wb where look: "read_lookup c dev lba = (c1, s, wb)" using prod_cases3 by blast
  note fr = read_lookup_frame [OF look]
  have c1: "agrees c1 d" "cdata c1 \<noteq> None" using fr Suc.prems(1,3) by (auto simp: agrees_def)
  define c2 where "c2 = (if s = None then read_fill dev lba wb (d dev lba) c1 else c1)"
  have c2: "agrees c2 d" "cdata c2 \<noteq> None" using c1 agrees_store [OF c1(1) Suc.prems(2) c1(2)] by (auto simp: c2_def read_fill_def store_def Let_def)
  have s: "s = None \<or> s = Some (d dev lba)"
    using look Suc.prems(1,3) by (auto simp: read_lookup_def is_hit_def Let_def agrees_def split: if_splits)
  obtain c3 r3 where rest: "read_sectors (\<lambda>dv l. Some (d dv l)) dev (lba + 1) n c2 = (c3, r3)" by fastforce
  have "r = map_option ((#) (d dev lba)) r3" "c' = c3" using Suc.prems(4) look rest s by (auto simp: c2_def split: if_splits)
  then show ?case using Suc.IH [OF c2(1) Suc.prems(2) c2(2) rest] by (simp add: upt_rec)
qed simp

lemma bcache_read_dev_correct:
  assumes "agrees c d" and "dev < 256" and "bcache_read_dev memory (\<lambda>dv l. Some (d dv l)) c dev lba n = (c', r)"
  shows "r = Some (map (d dev) [lba ..< lba + n])"
proof -
  have those: "those (map (\<lambda>l. Some (f l)) ls) = Some (map f ls)" for f and ls :: "nat list" by (induction ls) auto
  obtain c1 b where rd: "ready memory c = (c1, b)" by fastforce
  then have "agrees c1 d" "b \<longrightarrow> cdata c1 \<noteq> None" using assms(1) by (auto simp: ready_def agrees_def split: if_splits option.splits)
  then show ?thesis
    using assms(2,3) rd read_sectors_correct [of c1 d dev lba n c' r] by (cases b) (auto simp: bcache_read_dev_def read_direct_def those)
qed

section \<open>An example\<close>

definition example_disk :: "nat \<Rightarrow> nat \<Rightarrow> sector" where
  "example_disk dev lba = [of_nat dev, of_nat lba]"

text \<open>A reader that missed has stored its sector.\<close>

definition example_cache :: bcache where
  "example_cache = read_fill 2 5 0 (example_disk 2 5) (fst (read_lookup (fst (ready (Some (\<lambda>_. [])) bcache_boot)) 2 5))"

lemma example_reached: "breach \<lparr>cache = example_cache, disk = example_disk, threads = (\<lambda>_. Idle)\<rparr>"
proof -
  define w0 where "w0 = \<lparr>cache = bcache_boot, disk = example_disk, threads = (\<lambda>_. Idle)\<rparr>"
  define c1 where "c1 = fst (ready (Some (\<lambda>_. [])) bcache_boot)"
  define c2 where "c2 = fst (read_lookup c1 2 5)"
  have id: "(\<lambda>_ :: nat. Idle)(0 := Idle) = (\<lambda>_. Idle)" by (rule ext) simp
  have look: "read_lookup c1 2 5 = (c2, None, 0)" by (simp add: c2_def c1_def read_lookup_def is_hit_def ready_def bcache_boot_def)
  have "breach w0" unfolding w0_def by (rule breach.start)
  then have "breach (w0\<lparr>cache := c1\<rparr>)" using breach.step bstep.alloc [of w0 "Some (\<lambda>_. [])"] by (simp add: w0_def c1_def)
  then have "breach (w0\<lparr>cache := c2, threads := (\<lambda>_. Idle)(0 := Looked 2 5 0)\<rparr>)"
    using breach.step bstep.lookup_miss [of "w0\<lparr>cache := c1\<rparr>" 0 2 5 c2 0] look by (simp add: w0_def c1_def ready_def bcache_boot_def)
  then have "breach (w0\<lparr>cache := c2, threads := (\<lambda>_. Idle)(0 := Fetched 2 5 0 (example_disk 2 5))\<rparr>)"
    using breach.step bstep.fetch [of "w0\<lparr>cache := c2, threads := (\<lambda>_. Idle)(0 := Looked 2 5 0)\<rparr>" 0 2 5 0 "example_disk 2 5"] by (simp add: w0_def)
  then show ?thesis
    using breach.step bstep.fill [of "w0\<lparr>cache := c2, threads := (\<lambda>_. Idle)(0 := Fetched 2 5 0 (example_disk 2 5))\<rparr>" 0 2 5 0 "example_disk 2 5"]
    by (simp add: w0_def example_cache_def c2_def c1_def id)
qed

lemma bcache_coherent_witness:
  "\<exists>c s wb. read_lookup example_cache 2 5 = (c, Some s, wb) \<and> s = example_disk 2 5"
proof -
  obtain c s wb where look: "read_lookup example_cache 2 5 = (c, Some s, wb)"
    by (simp add: example_cache_def read_fill_def read_lookup_def is_hit_def store_def Let_def ready_def bcache_boot_def)
  have "\<not> covered \<lparr>cache = example_cache, disk = example_disk, threads = (\<lambda>_. Idle)\<rparr> 2 5" by (simp add: covered_def)
  then show ?thesis using bcache_coherent [OF example_reached, of 2 5 c s wb] look by simp
qed

end
