(* ===== verification/Heap.thy ===== *)
theory Heap
  imports Bytes
begin

text \<open>
  The kernel heap, \<^verbatim>\<open>src/src/mm/heap.c\<close>: blocks with boundary tags, free lists by size class with their links in
  the free blocks, and poisoned free memory. Addresses and sizes are natural numbers (the heap lies far below the end of
  the address space and no size comes near \<open>2 ^ 64\<close>). The headers and the links of free blocks are maps from
  addresses of their own, and the bytes of the heap another; a pointer that may be \<^verbatim>\<open>NULL\<close> is an option. Whether a page
  can be had to grow the heap, and what such a page holds, are arguments. A call is one holding of the lock. The walks
  along a free list may not end in a corrupt heap: they are partial functions, with \<^const>\<open>None\<close> for a walk
  that does not end.
\<close>

unbundle bit_operations_syntax

section \<open>The code\<close>

abbreviation (input) "KHEAP_START_VIRT \<equiv> 0xFFFF900000000000 :: nat"
abbreviation (input) "KHEAP_INITIAL_SIZE \<equiv> 1048576 :: nat"
abbreviation (input) "KHEAP_MAX_ALLOC \<equiv> 1073741824 :: nat"
abbreviation (input) "KHEAP_TRIM_THRESHOLD \<equiv> 262144 :: nat"
abbreviation (input) "KHEAP_TRIM_KEEP \<equiv> 65536 :: nat"
abbreviation (input) "HEADER \<equiv> 16 :: nat"
abbreviation (input) "MIN_BLOCK \<equiv> 32 :: nat"
abbreviation (input) "CLASSES \<equiv> 48 :: nat"
abbreviation (input) "GROW_MIN \<equiv> 65536 :: nat"
abbreviation (input) "POISON \<equiv> 0x6b :: u8"

record block =
  bsize :: nat
  prev_size :: nat

record heap =
  blocks :: "nat \<Rightarrow> block"
  lnext :: "nat \<Rightarrow> nat option"
  lprev :: "nat \<Rightarrow> nat option"
  first_block :: "nat option"
  last_block :: "nat option"
  free_lists :: "nat \<Rightarrow> nat option"
  heap_end :: nat
  total_allocated :: nat
  failed_allocations :: nat
  poison_damage :: nat
  damage_fatal :: bool
  mem :: "nat \<Rightarrow> u8"

definition ALIGN :: "nat \<Rightarrow> nat" where
  "ALIGN n = (n + 15) div 16 * 16"

subsection \<open>Blocks\<close>

text \<open>The lowest bit of a size says whether the block is free.\<close>

definition size_of :: "heap \<Rightarrow> nat \<Rightarrow> nat" where
  "size_of h b = bsize (blocks h b) div 2 * 2"

definition is_free :: "heap \<Rightarrow> nat \<Rightarrow> bool" where
  "is_free h b \<longleftrightarrow> odd (bsize (blocks h b))"

definition next_block :: "heap \<Rightarrow> nat \<Rightarrow> nat option" where
  "next_block h b = (if Some b = last_block h then None else Some (b + size_of h b))"

definition prev_block :: "heap \<Rightarrow> nat \<Rightarrow> nat option" where
  "prev_block h b = (let n = prev_size (blocks h b) in if n \<noteq> 0 then Some (b - n) else None)"

definition set_size :: "nat \<Rightarrow> nat \<Rightarrow> heap \<Rightarrow> heap" where
  "set_size b n h = h\<lparr>blocks := (blocks h)(b := (blocks h b)\<lparr>bsize := n\<rparr>)\<rparr>"

definition set_prev_size :: "nat \<Rightarrow> nat \<Rightarrow> heap \<Rightarrow> heap" where
  "set_prev_size b n h = h\<lparr>blocks := (blocks h)(b := (blocks h b)\<lparr>prev_size := n\<rparr>)\<rparr>"

text \<open>Poison over a header leaves a size whose lowest bit is set.\<close>

definition poison :: "nat \<Rightarrow> nat \<Rightarrow> heap \<Rightarrow> heap" where
  "poison a n h = h\<lparr>mem := (\<lambda>x. if a \<le> x \<and> x < a + n then POISON else mem h x),
     blocks := (\<lambda>x. if a \<le> x \<and> x + HEADER \<le> a + n then \<lparr>bsize = 0x6b6b6b6b6b6b6b6b, prev_size = 0x6b6b6b6b6b6b6b6b\<rparr> else blocks h x)\<rparr>"

text \<open>The search for a byte that is not poison: up to a word boundary, then by words, then in the word where it stopped.\<close>

definition word_at :: "(nat \<Rightarrow> u8) \<Rightarrow> nat \<Rightarrow> u64" where
  "word_at m p = of_le (map m [p ..< p + 8])"

function skip_bytes :: "(nat \<Rightarrow> u8) \<Rightarrow> nat \<Rightarrow> nat \<Rightarrow> nat + nat" where
  "skip_bytes m p e = (if p < e \<and> p mod 8 \<noteq> 0 then if m p \<noteq> POISON then Inl p else skip_bytes m (p + 1) e else Inr p)"
  by pat_completeness auto
termination by (relation "measure (\<lambda>(_, p, e). e - p)") auto

function skip_words :: "(nat \<Rightarrow> u8) \<Rightarrow> nat \<Rightarrow> nat \<Rightarrow> nat" where
  "skip_words m p e = (if p + 8 \<le> e \<and> word_at m p = 0x6b6b6b6b6b6b6b6b then skip_words m (p + 8) e else p)"
  by pat_completeness auto
termination by (relation "measure (\<lambda>(_, p, e). e - p)") auto

function find_byte :: "(nat \<Rightarrow> u8) \<Rightarrow> nat \<Rightarrow> nat \<Rightarrow> nat option" where
  "find_byte m p e = (if p < e then if m p \<noteq> POISON then Some p else find_byte m (p + 1) e else None)"
  by pat_completeness auto
termination by (relation "measure (\<lambda>(_, p, e). e - p)") auto

declare skip_bytes.simps [simp del] skip_words.simps [simp del] find_byte.simps [simp del]

definition first_unpoisoned :: "heap \<Rightarrow> nat \<Rightarrow> nat \<Rightarrow> nat option" where
  "first_unpoisoned h from n = (case skip_bytes (mem h) from (from + n) of
       Inl p \<Rightarrow> Some p
     | Inr p \<Rightarrow> find_byte (mem h) (skip_words (mem h) p (from + n)) (from + n))"

subsection \<open>Free lists\<close>

fun highest_bit :: "nat \<Rightarrow> nat" where
  "highest_bit n = (if n < 2 then 0 else Suc (highest_bit (n div 2)))"

declare highest_bit.simps [simp del]

definition class_of :: "nat \<Rightarrow> nat" where
  "class_of n = (let k = highest_bit n in if k < CLASSES then k else CLASSES - 1)"

definition insert_free :: "nat \<Rightarrow> heap \<Rightarrow> heap" where
  "insert_free b h =
     (let h = set_size b (bsize (blocks h b) div 2 * 2 + 1) h;
          k = class_of (size_of h b);
          h = h\<lparr>lprev := (lprev h)(b := None), lnext := (lnext h)(b := free_lists h k)\<rparr>;
          h = (case free_lists h k of None \<Rightarrow> h | Some f \<Rightarrow> h\<lparr>lprev := (lprev h)(f := Some b)\<rparr>)
      in h\<lparr>free_lists := (free_lists h)(k := Some b)\<rparr>)"

definition unlink_free :: "nat \<Rightarrow> heap \<Rightarrow> heap" where
  "unlink_free b h =
     (let k = class_of (size_of h b);
          h = (case lprev h b of
                 Some p \<Rightarrow> h\<lparr>lnext := (lnext h)(p := lnext h b)\<rparr>
               | None \<Rightarrow> h\<lparr>free_lists := (free_lists h)(k := lnext h b)\<rparr>)
      in case lnext h b of Some n \<Rightarrow> h\<lparr>lprev := (lprev h)(n := lprev h b)\<rparr> | None \<Rightarrow> h)"

definition update_next_prev_size :: "nat \<Rightarrow> heap \<Rightarrow> heap" where
  "update_next_prev_size b h = (case next_block h b of None \<Rightarrow> h | Some n \<Rightarrow> set_prev_size n (size_of h b) h)"

definition split_block :: "nat \<Rightarrow> nat \<Rightarrow> heap \<Rightarrow> heap" where
  "split_block b need h =
     (let n = size_of h b
      in if n < need + MIN_BLOCK then h
         else let rest = b + need;
                  h = set_prev_size rest need (set_size rest (n - need) h);
                  h = set_size b need h;
                  h = (if last_block h = Some b then h\<lparr>last_block := Some rest\<rparr> else update_next_prev_size rest h)
           in insert_free rest h)"

subsection \<open>Pages\<close>

function shrink_heap :: "nat \<Rightarrow> heap \<Rightarrow> heap" where
  "shrink_heap new_end h = (if heap_end h > new_end then shrink_heap new_end (h\<lparr>heap_end := heap_end h - PAGE_SIZE\<rparr>) else h)"
  by pat_completeness auto
termination by (relation "measure (\<lambda>(_, h). heap_end h)") auto

declare shrink_heap.simps [simp del]

text \<open>\<open>got i\<close>: whether page number \<open>i\<close> can be had and mapped; \<open>junk\<close>: what its memory holds.\<close>

fun expand_pages :: "(nat \<Rightarrow> bool) \<Rightarrow> (nat \<Rightarrow> u8) \<Rightarrow> nat \<Rightarrow> nat \<Rightarrow> nat \<Rightarrow> heap \<Rightarrow> heap \<times> bool" where
  "expand_pages got junk old_end i 0 h = (h, True)"
| "expand_pages got junk old_end i (Suc n) h =
     (if \<not> got i then (shrink_heap old_end h, False)
      else expand_pages got junk old_end (i + 1) n
        (h\<lparr>heap_end := heap_end h + PAGE_SIZE,
           mem := (\<lambda>x. if heap_end h \<le> x \<and> x < heap_end h + PAGE_SIZE then junk x else mem h x)\<rparr>))"

definition expand_heap :: "(nat \<Rightarrow> bool) \<Rightarrow> (nat \<Rightarrow> u8) \<Rightarrow> nat \<Rightarrow> heap \<Rightarrow> heap \<times> bool" where
  "expand_heap got junk n h = expand_pages got junk (heap_end h) 0 ((n + PAGE_SIZE - 1) div PAGE_SIZE) h"

text \<open>The pages from \<open>old_end\<close> on, added to the last block \<open>l\<close> or as a block of their own.\<close>

definition add_pages :: "nat \<Rightarrow> nat \<Rightarrow> heap \<Rightarrow> heap" where
  "add_pages l old_end h =
     (let added = heap_end h - old_end;
          h = poison old_end added h
      in if is_free h l then
           let h = unlink_free l h; h = set_size l (size_of h l + added) h in insert_free l h
         else
           let h = set_prev_size old_end (size_of h l) (set_size old_end added h);
               h = h\<lparr>last_block := Some old_end\<rparr>
           in insert_free old_end h)"

text \<open>Called only when no free block has \<open>need\<close> bytes, so the difference of the sizes is never negative.\<close>

definition grow_for :: "(nat \<Rightarrow> bool) \<Rightarrow> (nat \<Rightarrow> u8) \<Rightarrow> nat \<Rightarrow> heap \<Rightarrow> heap \<times> bool" where
  "grow_for got junk need h = (case last_block h of
       None \<Rightarrow> (h, False)
     | Some l \<Rightarrow>
         let held = (if is_free h l then size_of h l else 0);
             wanted = (if need - held < GROW_MIN then GROW_MIN else need - held)
         in case expand_heap got junk wanted h of
              (h', False) \<Rightarrow> (h', False)
            | (h', True) \<Rightarrow> (add_pages l (heap_end h) h', True))"

subsection \<open>Allocating and freeing\<close>

definition heap_boot :: "(nat \<Rightarrow> u8) \<Rightarrow> heap" where
  "heap_boot m = \<lparr>blocks = (\<lambda>_. \<lparr>bsize = 0, prev_size = 0\<rparr>), lnext = (\<lambda>_. None), lprev = (\<lambda>_. None), first_block = None, last_block = None,
     free_lists = (\<lambda>_. None), heap_end = KHEAP_START_VIRT, total_allocated = 0, failed_allocations = 0, poison_damage = 0, damage_fatal = True, mem = m\<rparr>"

definition kheap_init :: "(nat \<Rightarrow> bool) \<Rightarrow> (nat \<Rightarrow> u8) \<Rightarrow> heap \<Rightarrow> heap" where
  "kheap_init got junk h = (case expand_heap got junk KHEAP_INITIAL_SIZE h of
       (h, False) \<Rightarrow> h
     | (h, True) \<Rightarrow>
         let b = KHEAP_START_VIRT;
             h = h\<lparr>first_block := Some b, last_block := Some b\<rparr>;
             h = set_prev_size b 0 (set_size b (heap_end h - KHEAP_START_VIRT) h);
             h = insert_free b h
         in poison (b + MIN_BLOCK) (size_of h b - MIN_BLOCK) h)"

partial_function (option) find_fit :: "heap \<Rightarrow> nat \<Rightarrow> nat option \<Rightarrow> nat option option" where
  "find_fit h need p = (case p of
       None \<Rightarrow> Some None
     | Some b \<Rightarrow> if size_of h b \<ge> need then Some (Some b) else find_fit h need (lnext h b))"

definition take_free :: "nat \<Rightarrow> heap \<Rightarrow> (heap \<times> nat option) option" where
  "take_free need h = (let k = class_of need in case find_fit h need (free_lists h k) of
       None \<Rightarrow> None
     | Some (Some b) \<Rightarrow> Some (unlink_free b h, Some b)
     | Some None \<Rightarrow> (case find (\<lambda>j. free_lists h j \<noteq> None) [k + 1 ..< CLASSES] of
           None \<Rightarrow> Some (h, None)
         | Some j \<Rightarrow> let b = the (free_lists h j) in Some (unlink_free b h, Some b)))"

datatype allocation = NULL | Pointer nat | Panic

definition hand_out :: "nat \<Rightarrow> nat \<Rightarrow> heap \<Rightarrow> heap \<times> allocation" where
  "hand_out need b h =
     (let h = set_size b (size_of h b) h;
          h = split_block b need h;
          damage = first_unpoisoned h (b + MIN_BLOCK) (size_of h b - MIN_BLOCK);
          h = (if damage \<noteq> None then h\<lparr>poison_damage := poison_damage h + 1\<rparr> else h)
      in if damage \<noteq> None \<and> damage_fatal h then (h, Panic)
         else (h\<lparr>total_allocated := total_allocated h + (size_of h b - HEADER)\<rparr>, Pointer (b + HEADER)))"

definition block_need :: "nat \<Rightarrow> nat" where
  "block_need n = (let need = ALIGN n + HEADER in if need < MIN_BLOCK then MIN_BLOCK else need)"

definition kmalloc :: "(nat \<Rightarrow> bool) \<Rightarrow> (nat \<Rightarrow> u8) \<Rightarrow> nat \<Rightarrow> heap \<Rightarrow> (heap \<times> allocation) option" where
  "kmalloc got junk n h =
     (if n = 0 \<or> first_block h = None \<or> n > KHEAP_MAX_ALLOC then Some (h, NULL)
      else let need = block_need n in case take_free need h of
        None \<Rightarrow> None
      | Some (h, Some b) \<Rightarrow> Some (hand_out need b h)
      | Some (h, None) \<Rightarrow> (case grow_for got junk need h of
            (h, False) \<Rightarrow> Some (h\<lparr>failed_allocations := failed_allocations h + 1\<rparr>, NULL)
          | (h, True) \<Rightarrow> (case take_free need h of
              None \<Rightarrow> None
            | Some (h, Some b) \<Rightarrow> Some (hand_out need b h)
            | Some (h, None) \<Rightarrow> Some (h\<lparr>failed_allocations := failed_allocations h + 1\<rparr>, NULL))))"

definition merge_next :: "nat \<Rightarrow> heap \<Rightarrow> heap" where
  "merge_next b h = (case next_block h b of
       None \<Rightarrow> h
     | Some n \<Rightarrow> if \<not> is_free h n then h
         else let h = unlink_free n h;
                  h = (if last_block h = Some n then h\<lparr>last_block := Some b\<rparr> else h);
                  h = set_size b (size_of h b + size_of h n) h
           in poison n MIN_BLOCK h)"

definition merge_prev :: "nat \<Rightarrow> heap \<Rightarrow> heap \<times> nat" where
  "merge_prev b h = (case prev_block h b of
       None \<Rightarrow> (h, b)
     | Some p \<Rightarrow> if \<not> is_free h p then (h, b)
         else let h = unlink_free p h;
                  h = (if last_block h = Some b then h\<lparr>last_block := Some p\<rparr> else h);
                  h = set_size p (size_of h p + size_of h b) h
           in (poison b MIN_BLOCK h, p))"

definition page_align_up :: "nat \<Rightarrow> nat" where
  "page_align_up n = (n + PAGE_SIZE - 1) div PAGE_SIZE * PAGE_SIZE"

definition trim :: "nat \<Rightarrow> heap \<Rightarrow> heap" where
  "trim b h =
     (if last_block h = Some b \<and> size_of h b \<ge> KHEAP_TRIM_THRESHOLD then
        let new_end = max (page_align_up (b + HEADER + KHEAP_TRIM_KEEP)) (KHEAP_START_VIRT + KHEAP_INITIAL_SIZE)
        in if new_end < heap_end h then let h = shrink_heap new_end h in set_size b (heap_end h - b) h else h
      else h)"

text \<open>The second component: whether the block was already free, which is reported and ignored.\<close>

definition kfree :: "nat option \<Rightarrow> heap \<Rightarrow> heap \<times> bool" where
  "kfree ptr h = (case ptr of
       None \<Rightarrow> (h, False)
     | Some p \<Rightarrow> let b = p - HEADER
         in if is_free h b then (h, True)
            else let h = h\<lparr>total_allocated := total_allocated h - (size_of h b - HEADER)\<rparr>;
                     h = poison (b + MIN_BLOCK) (size_of h b - MIN_BLOCK) h;
                     (h, b) = merge_prev b (merge_next b h);
                     h = set_size b (size_of h b) h;
                     h = update_next_prev_size b h
              in (insert_free b (trim b h), False))"

subsection \<open>The check of the whole heap\<close>

record scan =
  s_ok :: bool
  s_free :: nat
  s_bytes :: nat
  s_prev_size :: nat
  s_prev_free :: bool

definition check_block :: "heap \<Rightarrow> nat \<Rightarrow> scan \<Rightarrow> scan" where
  "check_block h b c =
     (let n = size_of h b; f = is_free h b;
          ok = (n \<ge> MIN_BLOCK \<and> n mod 16 = 0 \<and> prev_size (blocks h b) = s_prev_size c \<and> b + n \<le> heap_end h \<and> \<not> (s_prev_free c \<and> f));
          ok = (if f then ok \<and> first_unpoisoned h (b + MIN_BLOCK) (n - MIN_BLOCK) = None else ok)
      in \<lparr>s_ok = (if last_block h = Some b then ok \<and> b + n = heap_end h else ok),
          s_free = (if f then s_free c + 1 else s_free c), s_bytes = (if f then s_bytes c else s_bytes c + (n - HEADER)),
          s_prev_size = n, s_prev_free = f\<rparr>)"

partial_function (option) check_blocks :: "heap \<Rightarrow> nat option \<Rightarrow> scan \<Rightarrow> scan option" where
  "check_blocks h p c = (case p of
       None \<Rightarrow> Some c
     | Some b \<Rightarrow> if s_ok c then check_blocks h (next_block h b) (check_block h b c) else Some c)"

text \<open>One list: whether it is in order, and how many blocks have been seen on the lists.\<close>

partial_function (option) check_list :: "heap \<Rightarrow> nat \<Rightarrow> nat \<Rightarrow> nat option \<Rightarrow> nat option \<Rightarrow> nat \<Rightarrow> (bool \<times> nat) option" where
  "check_list h k free_blocks prev p listed = (case p of
       None \<Rightarrow> Some (True, listed)
     | Some b \<Rightarrow>
         if is_free h b \<and> class_of (size_of h b) = k \<and> lprev h b = prev \<and> listed + 1 \<le> free_blocks
         then check_list h k free_blocks (Some b) (lnext h b) (listed + 1)
         else Some (False, listed + 1))"

fun check_lists :: "heap \<Rightarrow> nat \<Rightarrow> nat list \<Rightarrow> nat \<Rightarrow> (bool \<times> nat) option" where
  "check_lists h free_blocks [] listed = Some (True, listed)"
| "check_lists h free_blocks (k # ks) listed = (case check_list h k free_blocks None (free_lists h k) listed of
       None \<Rightarrow> None
     | Some (False, listed) \<Rightarrow> Some (False, listed)
     | Some (True, listed) \<Rightarrow> check_lists h free_blocks ks listed)"

definition kheap_check :: "heap \<Rightarrow> bool option" where
  "kheap_check h = (case check_blocks h (first_block h) \<lparr>s_ok = first_block h \<noteq> None, s_free = 0, s_bytes = 0, s_prev_size = 0, s_prev_free = False\<rparr> of
       None \<Rightarrow> None
     | Some c \<Rightarrow> if \<not> s_ok c then Some False
         else case check_lists h (s_free c) [0 ..< CLASSES] 0 of
           None \<Rightarrow> None
         | Some (ok, listed) \<Rightarrow> Some (ok \<and> listed = s_free c \<and> s_bytes c = total_allocated h))"


section \<open>Poison\<close>

definition poisoned :: "(nat \<Rightarrow> u8) \<Rightarrow> nat \<Rightarrow> nat \<Rightarrow> bool" where
  "poisoned m a e \<longleftrightarrow> (\<forall>x. a \<le> x \<longrightarrow> x < e \<longrightarrow> m x = POISON)"

lemma poisoned_join: "poisoned m a b \<Longrightarrow> poisoned m b c \<Longrightarrow> poisoned m a c"
  unfolding poisoned_def by (meson not_le)

lemma poisoned_part: "poisoned m a c \<Longrightarrow> a \<le> b \<Longrightarrow> d \<le> c \<Longrightarrow> poisoned m b d"
  unfolding poisoned_def by auto

lemma find_byte_None: "find_byte m p e = None \<longleftrightarrow> poisoned m p e"
proof (induction m p e rule: find_byte.induct)
  case (1 m p e)
  have "poisoned m p e \<longleftrightarrow> m p = POISON \<and> poisoned m (p + 1) e" if "p < e"
    using that unfolding poisoned_def by (metis Suc_eq_plus1 Suc_le_eq le_neq_implies_less le_refl less_imp_le_nat)
  then show ?case using 1 by (subst find_byte.simps) (auto simp: poisoned_def)
qed

lemma skip_bytes_poisoned:
  "(case skip_bytes m p e of Inl q \<Rightarrow> \<not> poisoned m p e | Inr q \<Rightarrow> p \<le> q \<and> (p \<le> e \<longrightarrow> q \<le> e) \<and> poisoned m p q)"
proof (induction m p e rule: skip_bytes.induct)
  case (1 m p e)
  show ?case
  proof (cases "p < e \<and> p mod 8 \<noteq> 0 \<and> m p = POISON")
    case True
    then have rec: "skip_bytes m p e = skip_bytes m (p + 1) e" by (subst skip_bytes.simps) simp
    have ext: "poisoned m p q \<longleftrightarrow> poisoned m (p + 1) q" for q
      using True unfolding poisoned_def by (metis Suc_eq_plus1 Suc_le_eq le_neq_implies_less less_imp_le_nat)
    show ?thesis using 1 True unfolding rec ext by (auto split: sum.splits)
  next
    case False
    then show ?thesis by (subst skip_bytes.simps) (auto simp: poisoned_def)
  qed
qed

lemma word_at_poison: "word_at m p = 0x6b6b6b6b6b6b6b6b \<longleftrightarrow> poisoned m p (p + 8)"
proof -
  have "(0x6b6b6b6b6b6b6b6b :: u64) = of_le (replicate 8 POISON)" by code_simp
  then have "word_at m p = 0x6b6b6b6b6b6b6b6b \<longleftrightarrow> map m [p ..< p + 8] = replicate 8 POISON"
    unfolding word_at_def using of_le_inject [of "map m [p ..< p + 8]" "replicate 8 POISON", where 'a = 64] by auto
  also have "\<dots> \<longleftrightarrow> (\<forall>x\<in>set [p ..< p + 8]. m x = POISON)"
    using map_replicate_const [of POISON "[p ..< p + 8]"] map_eq_conv [of m "[p ..< p + 8]" "\<lambda>_. POISON"] by simp
  finally show ?thesis by (auto simp: poisoned_def)
qed

lemma skip_words_poisoned: "p \<le> skip_words m p e \<and> (p \<le> e \<longrightarrow> skip_words m p e \<le> e) \<and> poisoned m p (skip_words m p e)"
proof (induction m p e rule: skip_words.induct)
  case (1 m p e)
  show ?case
  proof (cases "p + 8 \<le> e \<and> word_at m p = 0x6b6b6b6b6b6b6b6b")
    case True
    then have rec: "skip_words m p e = skip_words m (p + 8) e" by (subst skip_words.simps) simp
    have "poisoned m p (p + 8)" using True word_at_poison by blast
    then show ?thesis using 1 [OF True] True poisoned_join [of m p "p + 8"] unfolding rec by auto
  next
    case False
    then have "skip_words m p e = p" by (subst skip_words.simps) auto
    then show ?thesis by (simp add: poisoned_def)
  qed
qed

text \<open>The word-at-a-time search finds a byte exactly when the byte-at-a-time search would.\<close>

lemma first_unpoisoned_None: "first_unpoisoned h a n = None \<longleftrightarrow> poisoned (mem h) a (a + n)"
proof -
  note sb = skip_bytes_poisoned [of "mem h" a "a + n"]
  show ?thesis
  proof (cases "skip_bytes (mem h) a (a + n)")
    case (Inl q)
    then show ?thesis using sb by (simp add: first_unpoisoned_def)
  next
    case (Inr q)
    define r where "r = skip_words (mem h) q (a + n)"
    have "poisoned (mem h) a q" "a \<le> q" "q \<le> a + n" using sb Inr by auto
    moreover have "poisoned (mem h) q r" "q \<le> r" "r \<le> a + n" using skip_words_poisoned [of q "mem h" "a + n"] calculation(3) by (simp_all add: r_def)
    ultimately have "poisoned (mem h) a (a + n) \<longleftrightarrow> poisoned (mem h) r (a + n)"
      using poisoned_join [of "mem h" a q r] poisoned_join [of "mem h" a r "a + n"] poisoned_part [of "mem h" a "a + n" r "a + n"] by auto
    then show ?thesis using Inr by (simp add: first_unpoisoned_def find_byte_None r_def)
  qed
qed

section \<open>Size classes\<close>

lemma highest_bit_bounds: "0 < n \<Longrightarrow> 2 ^ highest_bit n \<le> n \<and> n < 2 ^ Suc (highest_bit n)"
proof (induction n rule: highest_bit.induct)
  case (1 n)
  show ?case
  proof (cases "n < 2")
    case True
    then show ?thesis using 1(2) by (subst (1 2) highest_bit.simps) simp
  next
    case False
    then have "2 ^ highest_bit (n div 2) \<le> n div 2 \<and> n div 2 < 2 ^ Suc (highest_bit (n div 2))" using 1 by simp
    then show ?thesis using False by (subst (1 2) highest_bit.simps) auto
  qed
qed

lemma class_of_less: "class_of n < CLASSES"
  by (simp add: class_of_def Let_def)

text \<open>Every block of a higher class is big enough.\<close>

lemma higher_class_fits:
  assumes "0 < need" and "need < 2 ^ 47" and "class_of need < class_of n" and "0 < n"
  shows "need \<le> n"
proof -
  have b: "need < 2 ^ Suc (highest_bit need)" "2 ^ highest_bit n \<le> n" using highest_bit_bounds assms(1,4) by blast+
  have "class_of n \<le> highest_bit n" by (simp add: class_of_def Let_def)
  moreover have "highest_bit need < 47"
  proof (rule ccontr)
    assume "\<not> highest_bit need < 47"
    then have "(2 :: nat) ^ 47 \<le> 2 ^ highest_bit need" by (intro power_increasing) auto
    then show False using highest_bit_bounds [OF assms(1)] assms(2) by linarith
  qed
  then have "class_of need = highest_bit need" by (simp add: class_of_def)
  ultimately have "(2 :: nat) ^ Suc (highest_bit need) \<le> 2 ^ highest_bit n" using assms(3) by (intro power_increasing) auto
  then show ?thesis using b by linarith
qed

lemma class_of_mono: "0 < a \<Longrightarrow> a \<le> b \<Longrightarrow> class_of a \<le> class_of b"
proof -
  assume ab: "0 < a" "a \<le> b"
  have "highest_bit a \<le> highest_bit b"
  proof (rule ccontr)
    assume "\<not> highest_bit a \<le> highest_bit b"
    then have "(2 :: nat) ^ Suc (highest_bit b) \<le> 2 ^ highest_bit a" by (intro power_increasing) auto
    then show False using highest_bit_bounds [of a] highest_bit_bounds [of b] ab by linarith
  qed
  then show ?thesis by (simp add: class_of_def Let_def)
qed


section \<open>Doubly linked lists\<close>

fun chain :: "(nat \<Rightarrow> nat option) \<Rightarrow> (nat \<Rightarrow> nat option) \<Rightarrow> nat option \<Rightarrow> nat option \<Rightarrow> nat list \<Rightarrow> bool" where
  "chain nx pv before p [] \<longleftrightarrow> p = None"
| "chain nx pv before p (x # xs) \<longleftrightarrow> p = Some x \<and> pv x = before \<and> chain nx pv (Some x) (nx x) xs"

lemma chain_cong:
  "\<forall>x\<in>set xs. nx' x = nx x \<and> pv' x = pv x \<Longrightarrow> chain nx' pv' before p xs = chain nx pv before p xs"
  by (induction xs arbitrary: before p) auto

lemma chain_push:
  assumes "chain nx pv None p xs" and "b \<notin> set xs" and "distinct xs"
  shows "chain (nx(b := p)) (case p of None \<Rightarrow> pv(b := None) | Some f \<Rightarrow> pv(b := None, f := Some b)) None (Some b) (b # xs)"
proof (cases xs)
  case (Cons y ys)
  then have p: "p = Some y" "chain nx pv (Some y) (nx y) ys" "y \<noteq> b" "y \<notin> set ys" "b \<notin> set ys" using assms by auto
  have "chain (nx(b := p)) (pv(b := None, y := Some b)) (Some y) (nx y) ys"
    using p(2,4,5) by (subst chain_cong [of _ _ nx _ pv]) auto
  then show ?thesis using p Cons by simp
qed (use assms in auto)

text \<open>What taking \<open>b\<close> out of a list does to the links around it.\<close>

lemma chain_remove:
  assumes "chain nx pv before p (xs @ b # ys)" and "distinct (xs @ b # ys)"
  shows "pv b = (if xs = [] then before else Some (last xs))"
    and "chain (if xs = [] then nx else nx(last xs := nx b)) (case nx b of None \<Rightarrow> pv | Some n \<Rightarrow> pv(n := pv b)) before (if xs = [] then nx b else p) (xs @ ys)"
proof -
  have "pv b = (if xs = [] then before else Some (last xs))
    \<and> chain (if xs = [] then nx else nx(last xs := nx b)) (case nx b of None \<Rightarrow> pv | Some n \<Rightarrow> pv(n := pv b)) before (if xs = [] then nx b else p) (xs @ ys)"
    using assms
  proof (induction xs arbitrary: before p)
    case Nil
    show ?case
    proof (cases ys)
      case (Cons y zs)
      then have y: "nx b = Some y" "pv b = before" "chain nx pv (Some y) (nx y) zs" "y \<notin> set zs" using Nil by auto
      have "chain nx (pv(y := before)) (Some y) (nx y) zs" using y(3,4) by (subst chain_cong [of _ _ nx _ pv]) auto
      then show ?thesis using y Cons by (simp add: fun_upd_def)
    qed (use Nil in auto)
  next
    case (Cons x xs)
    then have x: "p = Some x" "pv x = before" "chain nx pv (Some x) (nx x) (xs @ b # ys)" "distinct (xs @ b # ys)" "x \<notin> set (xs @ b # ys)" by auto
    define pv' where "pv' = (case nx b of None \<Rightarrow> pv | Some n \<Rightarrow> pv(n := pv b))"
    note ih = Cons.IH [OF x(3,4), folded pv'_def]
    have ysb: "nx b = None \<or> (\<exists>y. nx b = Some y \<and> y \<in> set ys)"
    proof -
      have "chain nx pv (if xs = [] then Some x else Some (last xs)) (if xs = [] then nx x else nx (last xs)) (b # ys)"
        using x(3)
      proof (induction xs arbitrary: x)
        case (Cons z zs)
        then show ?case by (cases "zs = []") auto
      qed simp
      then show ?thesis by (cases ys) auto
    qed
    then have pvx: "pv' x = before" using x(2,5) by (auto simp: pv'_def)
    show ?case
    proof (cases "xs = []")
      case True
      then have "chain nx pv' (Some x) (nx b) ys" "pv b = Some x" using ih by auto
      moreover have "chain (nx(x := nx b)) pv' (Some x) (nx b) ys = chain nx pv' (Some x) (nx b) ys"
        using x(5) True by (intro chain_cong) auto
      ultimately show ?thesis using True x(1) pvx by (simp add: pv'_def fun_upd_def)
    next
      case False
      have "x \<noteq> last xs" using x(5) False last_in_set by fastforce
      then show ?thesis using ih False x(1) pvx by (simp add: pv'_def)
    qed
  qed
  then show "pv b = (if xs = [] then before else Some (last xs))"
    and "chain (if xs = [] then nx else nx(last xs := nx b)) (case nx b of None \<Rightarrow> pv | Some n \<Rightarrow> pv(n := pv b)) before (if xs = [] then nx b else p) (xs @ ys)"
    by blast+
qed

lemma chain_next_in: "chain nx pv before p xs \<Longrightarrow> x \<in> set xs \<Longrightarrow> nx x = Some y \<Longrightarrow> y \<in> set xs"
proof (induction xs arbitrary: before p)
  case (Cons z zs)
  show ?case
  proof (cases "x = z")
    case True
    then show ?thesis using Cons.prems by (cases zs) auto
  next
    case False
    then show ?thesis using Cons by auto
  qed
qed simp

section \<open>The free lists\<close>

text \<open>The lists hold the free blocks \<open>F\<close>, given by address and size, each on the list of its class.\<close>

definition members :: "(nat \<times> nat) set \<Rightarrow> nat \<Rightarrow> nat set" where
  "members F k = {a. \<exists>n. (a, n) \<in> F \<and> class_of n = k}"

definition lists_ok :: "heap \<Rightarrow> (nat \<times> nat) set \<Rightarrow> bool" where
  "lists_ok h F \<longleftrightarrow> inj_on fst F \<and> (\<forall>k<CLASSES. \<exists>xs. distinct xs \<and> set xs = members F k \<and> chain (lnext h) (lprev h) None (free_lists h k) xs)"

lemma lists_ok_cong: "lnext h' = lnext h \<Longrightarrow> lprev h' = lprev h \<Longrightarrow> free_lists h' = free_lists h \<Longrightarrow> lists_ok h' F = lists_ok h F"
  by (simp add: lists_ok_def)

lemma inj_size: "inj_on fst F \<Longrightarrow> (a, m) \<in> F \<Longrightarrow> (a, n) \<in> F \<Longrightarrow> m = n"
  using inj_onD [of fst F "(a, m)" "(a, n)"] by simp

lemma members_other: "inj_on fst F \<Longrightarrow> a \<in> members F j \<Longrightarrow> a \<in> members F k \<Longrightarrow> j = k"
  unfolding members_def by (elim CollectE exE conjE) (drule (2) inj_size, simp)

lemma members_remove: "inj_on fst F \<Longrightarrow> (b, n) \<in> F \<Longrightarrow> members (F - {(b, n)}) k = (if class_of n = k then members F k - {b} else members F k)"
  by (auto simp: members_def dest: inj_size)

lemma unlink_free_lists:
  assumes ok: "lists_ok h F" and b: "(b, n) \<in> F" "size_of h b = n"
  shows "lists_ok (unlink_free b h) (F - {(b, n)})"
proof -
  define k where "k = class_of n"
  have inj: "inj_on fst F" using ok by (simp add: lists_ok_def)
  have kc: "k < CLASSES" by (simp add: k_def class_of_less)
  obtain xs where xs: "distinct xs" "set xs = members F k" "chain (lnext h) (lprev h) None (free_lists h k) xs"
    using ok kc by (auto simp: lists_ok_def)
  have "b \<in> set xs" using b(1) xs(2) by (auto simp: members_def k_def)
  then obtain us vs where split: "xs = us @ b # vs" by (meson split_list)
  note rem = chain_remove [OF xs(3) [unfolded split] xs(1) [unfolded split]]
  define nx' where "nx' = (if us = [] then lnext h else (lnext h)(last us := lnext h b))"
  define pv' where "pv' = (case lnext h b of None \<Rightarrow> lprev h | Some m \<Rightarrow> (lprev h)(m := lprev h b))"
  define fl' where "fl' = (if us = [] then (free_lists h)(k := lnext h b) else free_lists h)"
  have ne: "us \<noteq> [] \<Longrightarrow> last us \<noteq> b" using xs(1) split last_in_set by fastforce
  have h': "lnext (unlink_free b h) = nx'" "lprev (unlink_free b h) = pv'" "free_lists (unlink_free b h) = fl'"
    using rem(1) ne b(2) by (auto simp: unlink_free_def Let_def nx'_def pv'_def fl'_def k_def split: option.splits)
  have near: "x \<in> members F k" if "nx' x \<noteq> lnext h x \<or> pv' x \<noteq> lprev h x" for x
  proof (cases "nx' x \<noteq> lnext h x")
    case True
    then have "us \<noteq> []" "x = last us" by (auto simp: nx'_def split: if_splits)
    then have "x \<in> set xs" unfolding split by simp
    then show ?thesis using xs(2) by simp
  next
    case False
    then have "lnext h b = Some x" using that by (auto simp: pv'_def split: option.splits if_splits)
    then show ?thesis using chain_next_in [OF xs(3) \<open>b \<in> set xs\<close>] xs(2) by blast
  qed
  have "\<exists>ys. distinct ys \<and> set ys = members (F - {(b, n)}) j \<and> chain nx' pv' None (fl' j) ys" if j: "j < CLASSES" for j
  proof (cases "j = k")
    case True
    have "chain nx' pv' None (fl' k) (us @ vs)" using rem(2) by (cases "us = []") (simp_all add: nx'_def pv'_def fl'_def)
    moreover have "distinct (us @ vs)" "set (us @ vs) = members F k - {b}" using xs(1,2) split by auto
    ultimately show ?thesis using members_remove [OF inj b(1), of k] True k_def by auto
  next
    case False
    obtain ys where ys: "distinct ys" "set ys = members F j" "chain (lnext h) (lprev h) None (free_lists h j) ys"
      using ok j by (auto simp: lists_ok_def)
    have "\<forall>x\<in>set ys. nx' x = lnext h x \<and> pv' x = lprev h x" using near members_other [OF inj] ys(2) False by blast
    then have "chain nx' pv' None (fl' j) ys" using ys(3) False chain_cong [of ys nx' "lnext h" pv' "lprev h"] by (simp add: fl'_def)
    then show ?thesis using ys(1,2) members_remove [OF inj b(1), of j] False k_def by auto
  qed
  moreover have "inj_on fst (F - {(b, n)})" using inj by (rule inj_on_diff)
  ultimately show ?thesis by (simp add: lists_ok_def h')
qed


lemma insert_free_lists:
  assumes ok: "lists_ok h F" and b: "b \<notin> fst ` F" "size_of h b = n"
  shows "lists_ok (insert_free b h) (insert (b, n) F)"
proof -
  define k where "k = class_of n"
  have inj: "inj_on fst F" using ok by (simp add: lists_ok_def)
  have kc: "k < CLASSES" by (simp add: k_def class_of_less)
  define nx' where "nx' = (lnext h)(b := free_lists h k)"
  define pv' where "pv' = (case free_lists h k of None \<Rightarrow> (lprev h)(b := None) | Some f \<Rightarrow> (lprev h)(b := None, f := Some b))"
  define fl' where "fl' = (free_lists h)(k := Some b)"
  have h': "lnext (insert_free b h) = nx'" "lprev (insert_free b h) = pv'" "free_lists (insert_free b h) = fl'"
    using b(2) by (auto simp: insert_free_def Let_def nx'_def pv'_def fl'_def k_def set_size_def size_of_def split: option.splits)
  have notin: "b \<notin> members F j" for j using b(1) by (force simp: members_def)
  have ins: "members (insert (b, n) F) j = (if j = k then insert b (members F k) else members F j)" for j
    by (auto simp: members_def k_def)
  obtain xs where xs: "distinct xs" "set xs = members F k" "chain (lnext h) (lprev h) None (free_lists h k) xs"
    using ok kc by (auto simp: lists_ok_def)
  have "\<exists>ys. distinct ys \<and> set ys = members (insert (b, n) F) j \<and> chain nx' pv' None (fl' j) ys" if j: "j < CLASSES" for j
  proof (cases "j = k")
    case True
    have "chain nx' pv' None (fl' k) (b # xs)"
      using chain_push [OF xs(3) _ xs(1), of b] notin xs(2) unfolding nx'_def pv'_def fl'_def by simp
    then show ?thesis using xs(1,2) notin True ins by (intro exI [of _ "b # xs"]) simp
  next
    case False
    obtain ys where ys: "distinct ys" "set ys = members F j" "chain (lnext h) (lprev h) None (free_lists h j) ys"
      using ok j by (auto simp: lists_ok_def)
    have "f \<in> members F k" if "free_lists h k = Some f" for f using xs(2,3) that by (cases xs) auto
    then have "\<forall>x\<in>set ys. nx' x = lnext h x \<and> pv' x = lprev h x"
      using ys(2) notin members_other [OF inj] False by (auto simp: nx'_def pv'_def split: option.splits)
    then have "chain nx' pv' None (fl' j) ys" using ys(3) False chain_cong [of ys nx' "lnext h" pv' "lprev h"] by (simp add: fl'_def)
    then show ?thesis using ys(1,2) ins False by auto
  qed
  moreover have "inj_on fst (insert (b, n) F)" using inj b(1) by (auto simp: inj_on_def)
  ultimately show ?thesis by (simp add: lists_ok_def h')
qed

text \<open>What a search of the lists finds.\<close>

lemma find_fit_chain:
  assumes "chain nx pv before p xs" and "lnext h = nx"
  shows "\<exists>r. find_fit h need p = Some r \<and> (case r of None \<Rightarrow> \<forall>x\<in>set xs. size_of h x < need | Some b \<Rightarrow> b \<in> set xs \<and> need \<le> size_of h b)"
  using assms
proof (induction xs arbitrary: before p)
  case Nil
  then show ?case by (simp add: find_fit.simps)
next
  case (Cons x xs)
  show ?case
  proof (cases "need \<le> size_of h x")
    case True
    then show ?thesis using Cons.prems by (simp add: find_fit.simps [of h need "Some x"])
  next
    case False
    obtain r where r: "find_fit h need (lnext h x) = Some r"
      "case r of None \<Rightarrow> \<forall>x\<in>set xs. size_of h x < need | Some b \<Rightarrow> b \<in> set xs \<and> need \<le> size_of h b"
      using Cons.IH [of "Some x" "lnext h x"] Cons.prems by auto
    have "find_fit h need p = Some r" using r(1) False Cons.prems by (simp add: find_fit.simps [of h need "Some x"])
    then show ?thesis using r(2) False by (auto split: option.splits)
  qed
qed

lemma take_free_lists:
  assumes ok: "lists_ok h F" and sizes: "\<forall>(b, n)\<in>F. size_of h b = n \<and> 0 < n" and need: "0 < need" "need < 2 ^ 47"
  shows "(take_free need h = Some (h, None) \<and> (\<forall>(b, n)\<in>F. n < need))
    \<or> (\<exists>b n. (b, n) \<in> F \<and> need \<le> n \<and> take_free need h = Some (unlink_free b h, Some b))"
proof -
  define k where "k = class_of need"
  have lists: "\<exists>xs. distinct xs \<and> set xs = members F j \<and> chain (lnext h) (lprev h) None (free_lists h j) xs" if "j < CLASSES" for j
    using ok that by (auto simp: lists_ok_def)
  obtain xs where xs: "set xs = members F k" "chain (lnext h) (lprev h) None (free_lists h k) xs"
    using lists class_of_less k_def by blast
  obtain r where r: "find_fit h need (free_lists h k) = Some r"
    "case r of None \<Rightarrow> \<forall>x\<in>set xs. size_of h x < need | Some b \<Rightarrow> b \<in> set xs \<and> need \<le> size_of h b"
    using find_fit_chain [OF xs(2) refl] by blast
  show ?thesis
  proof (cases r)
    case (Some b)
    then obtain n where "(b, n) \<in> F" "need \<le> n" using r(2) xs(1) sizes by (auto simp: members_def)
    then show ?thesis using r(1) Some by (auto simp: take_free_def Let_def k_def)
  next
    case None
    show ?thesis
    proof (cases "find (\<lambda>j. free_lists h j \<noteq> None) [k + 1 ..< CLASSES]")
      case (Some j)
      then have j: "k < j" "j < CLASSES" "free_lists h j \<noteq> None" by (auto simp: find_Some_iff nth_upt)
      obtain ys where ys: "set ys = members F j" "chain (lnext h) (lprev h) None (free_lists h j) ys" using lists j(2) by blast
      then obtain b where b: "free_lists h j = Some b" "b \<in> members F j" using j(3) by (cases ys) auto
      then obtain n where n: "(b, n) \<in> F" "class_of n = j" by (auto simp: members_def)
      have "0 < n" using n(1) sizes by auto
      then have "need \<le> n" using higher_class_fits [OF need, of n] n(2) j(1) by (simp add: k_def)
      then show ?thesis using r(1) None Some b n by (auto simp: take_free_def Let_def k_def)
    next
      case none: None
      have "n < need" if f: "(b, n) \<in> F" for b n
      proof (rule ccontr)
        assume "\<not> n < need"
        then have c: "k \<le> class_of n" using class_of_mono [OF need(1)] by (simp add: k_def)
        have mem: "b \<in> members F (class_of n)" using f by (auto simp: members_def)
        show False
        proof (cases "class_of n = k")
          case True
          then have "size_of h b < need" using r(2) None mem xs(1) by auto
          then show False using sizes f \<open>\<not> n < need\<close> by auto
        next
          case False
          then have "class_of n \<in> set [k + 1 ..< CLASSES]" using c class_of_less [of n] by auto
          then have "free_lists h (class_of n) = None" using none by (auto simp: find_None_iff)
          moreover obtain ys where "set ys = members F (class_of n)" "chain (lnext h) (lprev h) None (free_lists h (class_of n)) ys" using lists class_of_less by blast
          ultimately show False using mem by (cases ys) auto
        qed
      qed
      then show ?thesis using r(1) None none by (auto simp: take_free_def Let_def k_def)
    qed
  qed
qed


section \<open>Blocks one after another\<close>

text \<open>
  The blocks \<open>bs\<close>, each with its address, size and whether it is free, lie from \<open>a\<close> to \<open>e\<close> without gaps, and their
  headers say so; \<open>q\<close> is the size of the block before.
\<close>

type_synonym layout = "(nat \<times> nat \<times> bool) list"

fun laid :: "heap \<Rightarrow> nat \<Rightarrow> nat \<Rightarrow> layout \<Rightarrow> nat \<Rightarrow> bool" where
  "laid h a q [] e \<longleftrightarrow> a = e"
| "laid h a q ((b, n, f) # bs) e \<longleftrightarrow> b = a \<and> bsize (blocks h b) = n + of_bool f \<and> prev_size (blocks h b) = q \<and> MIN_BLOCK \<le> n \<and> 16 dvd n \<and> laid h (a + n) n bs e"

definition last_size :: "nat \<Rightarrow> layout \<Rightarrow> nat" where
  "last_size q bs = (if bs = [] then q else fst (snd (last bs)))"

lemma last_size_simps [simp]: "last_size q [] = q" "last_size q (x # xs) = last_size (fst (snd x)) xs" "last_size q (xs @ [x]) = fst (snd x)"
  by (auto simp: last_size_def)

lemma laid_append: "laid h a q (xs @ ys) e \<longleftrightarrow> (\<exists>m. laid h a q xs m \<and> laid h m (last_size q xs) ys e)"
  by (induction xs arbitrary: a q) auto

lemma laid_end: "laid h a q bs e \<Longrightarrow> a \<le> e"
  by (induction bs arbitrary: a q) fastforce+

lemma laid_within: "laid h a q bs e \<Longrightarrow> (b, n, f) \<in> set bs \<Longrightarrow> a \<le> b \<and> b + n \<le> e"
proof (induction bs arbitrary: a q)
  case (Cons x bs)
  obtain c m g where x: "x = (c, m, g)" by (cases x)
  show ?case
  proof (cases "(b, n, f) = x")
    case True
    then show ?thesis using Cons.prems(1) x laid_end by auto
  next
    case False
    then show ?thesis using Cons.IH [of "a + m" m] Cons.prems x by fastforce
  qed
qed simp

lemma laid_header:
  "laid h a q bs e \<Longrightarrow> (b, n, f) \<in> set bs \<Longrightarrow> size_of h b = n \<and> is_free h b = f \<and> MIN_BLOCK \<le> n \<and> 16 dvd n"
proof (induction bs arbitrary: a q)
  case (Cons x bs)
  obtain c m g where x: "x = (c, m, g)" by (cases x)
  show ?case
  proof (cases "(b, n, f) = x")
    case True
    then have *: "bsize (blocks h b) = n + of_bool f" "MIN_BLOCK \<le> n" "16 dvd n" using Cons.prems(1) x by auto
    then have "even n" using dvd_trans [of 2 16 n] by simp
    then show ?thesis using * by (cases f) (auto simp: size_of_def is_free_def)
  next
    case False
    then show ?thesis using Cons.IH [of "a + m" m] Cons.prems x by auto
  qed
qed simp

lemma laid_cong: "(\<And>b. a \<le> b \<Longrightarrow> b < e \<Longrightarrow> blocks h' b = blocks h b) \<Longrightarrow> laid h a q bs e \<Longrightarrow> laid h' a q bs e"
proof (induction bs arbitrary: a q)
  case (Cons x bs)
  obtain c m g where x: "x = (c, m, g)" by (cases x)
  have le: "a + m \<le> e" using Cons.prems(2) x laid_end by auto
  have "laid h' (a + m) m bs e" using Cons.IH [of "a + m" m] Cons.prems x by auto
  moreover have "blocks h' a = blocks h a" using Cons.prems x le by auto
  ultimately show ?case using Cons.prems(2) x by auto
qed simp

text \<open>Blocks do not overlap.\<close>

lemma laid_disjoint: "laid h a q bs e \<Longrightarrow> (b, n, f) \<in> set bs \<Longrightarrow> (c, m, g) \<in> set bs \<Longrightarrow> (b, n, f) = (c, m, g) \<or> b + n \<le> c \<or> c + m \<le> b"
proof (induction bs arbitrary: a q)
  case (Cons x bs)
  obtain d k j where x: "x = (d, k, j)" by (cases x)
  have rest: "laid h (a + k) k bs e" "d = a" using Cons.prems(1) x by auto
  consider "(b, n, f) = x" "(c, m, g) = x" | "(b, n, f) = x" "(c, m, g) \<in> set bs" | "(b, n, f) \<in> set bs" "(c, m, g) = x" | "(b, n, f) \<in> set bs" "(c, m, g) \<in> set bs"
    using Cons.prems(2,3) by auto
  then show ?case
  proof cases
    case 2
    then show ?thesis using laid_within [OF rest(1) 2(2)] x rest by auto
  next
    case 3
    then show ?thesis using laid_within [OF rest(1) 3(1)] x rest by auto
  next
    case 4
    then show ?thesis using Cons.IH [OF rest(1)] by blast
  qed auto
qed simp

lemma laid_unique: "laid h a q bs e \<Longrightarrow> (b, n, f) \<in> set bs \<Longrightarrow> (b, m, g) \<in> set bs \<Longrightarrow> n = m \<and> f = g"
  using laid_disjoint [of h a q bs e b n f b m g] laid_header [of h a q bs e b n f] laid_header [of h a q bs e b m g] by auto

definition free_of :: "layout \<Rightarrow> (nat \<times> nat) set" where
  "free_of bs = {(b, n). (b, n, True) \<in> set bs}"

definition in_use :: "layout \<Rightarrow> (nat \<times> nat) set" where
  "in_use bs = {(b, n). (b, n, False) \<in> set bs}"

lemma free_of_simps [simp]: "free_of [] = {}" "free_of ((b, n, True) # bs) = insert (b, n) (free_of bs)" "free_of ((b, n, False) # bs) = free_of bs"
  "free_of (xs @ ys) = free_of xs \<union> free_of ys"
  by (auto simp: free_of_def)

lemma in_use_simps [simp]: "in_use [] = {}" "in_use ((b, n, True) # bs) = in_use bs" "in_use ((b, n, False) # bs) = insert (b, n) (in_use bs)"
  "in_use (xs @ ys) = in_use xs \<union> in_use ys"
  by (auto simp: in_use_def)

fun used_bytes :: "layout \<Rightarrow> nat" where
  "used_bytes [] = 0"
| "used_bytes ((b, n, f) # bs) = (if f then 0 else n - HEADER) + used_bytes bs"

lemma used_bytes_append [simp]: "used_bytes (xs @ ys) = used_bytes xs + used_bytes ys"
  by (induction xs) auto

text \<open>No two free blocks touch.\<close>

definition coalesced :: "layout \<Rightarrow> bool" where
  "coalesced bs \<longleftrightarrow> successively (\<lambda>x y. \<not> (snd (snd x) \<and> snd (snd y))) bs"

definition free_poisoned :: "heap \<Rightarrow> layout \<Rightarrow> bool" where
  "free_poisoned h bs \<longleftrightarrow> (\<forall>(b, n)\<in>free_of bs. poisoned (mem h) (b + MIN_BLOCK) (b + n))"

definition heap_inv :: "heap \<Rightarrow> layout \<Rightarrow> bool" where
  "heap_inv h bs \<longleftrightarrow> bs \<noteq> [] \<and> laid h KHEAP_START_VIRT 0 bs (heap_end h) \<and> first_block h = Some KHEAP_START_VIRT
     \<and> last_block h = Some (fst (last bs)) \<and> coalesced bs \<and> lists_ok h (free_of bs) \<and> free_poisoned h bs
     \<and> total_allocated h = used_bytes bs \<and> KHEAP_START_VIRT + KHEAP_INITIAL_SIZE \<le> heap_end h \<and> PAGE_SIZE dvd heap_end h"

lemma unlink_free_frame [simp]:
  "blocks (unlink_free b h) = blocks h" "mem (unlink_free b h) = mem h" "heap_end (unlink_free b h) = heap_end h" "last_block (unlink_free b h) = last_block h"
  "first_block (unlink_free b h) = first_block h" "total_allocated (unlink_free b h) = total_allocated h" "poison_damage (unlink_free b h) = poison_damage h"
  "damage_fatal (unlink_free b h) = damage_fatal h"
  by (auto simp: unlink_free_def Let_def split: option.splits)

lemma insert_free_frame [simp]:
  "blocks (insert_free b h) = (blocks h)(b := (blocks h b)\<lparr>bsize := size_of h b + 1\<rparr>)" "mem (insert_free b h) = mem h" "heap_end (insert_free b h) = heap_end h"
  "last_block (insert_free b h) = last_block h" "first_block (insert_free b h) = first_block h" "total_allocated (insert_free b h) = total_allocated h"
  "poison_damage (insert_free b h) = poison_damage h" "damage_fatal (insert_free b h) = damage_fatal h"
  by (auto simp: insert_free_def Let_def set_size_def size_of_def split: option.splits)

lemma set_size_frame [simp]:
  "blocks (set_size b n h) = (blocks h)(b := (blocks h b)\<lparr>bsize := n\<rparr>)" "mem (set_size b n h) = mem h" "heap_end (set_size b n h) = heap_end h"
  "last_block (set_size b n h) = last_block h" "first_block (set_size b n h) = first_block h" "total_allocated (set_size b n h) = total_allocated h"
  "poison_damage (set_size b n h) = poison_damage h" "damage_fatal (set_size b n h) = damage_fatal h"
  "lnext (set_size b n h) = lnext h" "lprev (set_size b n h) = lprev h" "free_lists (set_size b n h) = free_lists h"
  by (simp_all add: set_size_def)

lemma set_prev_size_frame [simp]:
  "blocks (set_prev_size b n h) = (blocks h)(b := (blocks h b)\<lparr>prev_size := n\<rparr>)" "mem (set_prev_size b n h) = mem h" "heap_end (set_prev_size b n h) = heap_end h"
  "last_block (set_prev_size b n h) = last_block h" "first_block (set_prev_size b n h) = first_block h" "total_allocated (set_prev_size b n h) = total_allocated h"
  "poison_damage (set_prev_size b n h) = poison_damage h" "damage_fatal (set_prev_size b n h) = damage_fatal h"
  "lnext (set_prev_size b n h) = lnext h" "lprev (set_prev_size b n h) = lprev h" "free_lists (set_prev_size b n h) = free_lists h"
  by (simp_all add: set_prev_size_def)

lemma poison_frame [simp]:
  "blocks (poison a n h) = (\<lambda>x. if a \<le> x \<and> x + HEADER \<le> a + n then \<lparr>bsize = 0x6b6b6b6b6b6b6b6b, prev_size = 0x6b6b6b6b6b6b6b6b\<rparr> else blocks h x)"
  "heap_end (poison a n h) = heap_end h" "last_block (poison a n h) = last_block h" "first_block (poison a n h) = first_block h"
  "total_allocated (poison a n h) = total_allocated h" "poison_damage (poison a n h) = poison_damage h" "damage_fatal (poison a n h) = damage_fatal h"
  "lnext (poison a n h) = lnext h" "lprev (poison a n h) = lprev h" "free_lists (poison a n h) = free_lists h"
  "mem (poison a n h) = (\<lambda>x. if a \<le> x \<and> x < a + n then POISON else mem h x)"
  by (simp_all add: poison_def)


section \<open>Changing one block\<close>

lemma laid_middle:
  "laid h a q (pre @ (b, n, f) # post) e \<longleftrightarrow> laid h a q pre b \<and> bsize (blocks h b) = n + of_bool f \<and> prev_size (blocks h b) = last_size q pre
     \<and> MIN_BLOCK \<le> n \<and> 16 dvd n \<and> laid h (b + n) n post e"
  by (auto simp: laid_append)

lemma laid_frame:
  assumes "laid h a q bs e" and "\<And>x. a \<le> x \<Longrightarrow> x < e \<Longrightarrow> blocks h' x = blocks h x"
  shows "laid h' a q bs e"
  using laid_cong [of a e h' h q bs] assms by blast

lemma laid_mark:
  assumes "laid h a q (pre @ (b, n, f) # post) e" and "blocks h' = (blocks h)(b := (blocks h b)\<lparr>bsize := n + of_bool g\<rparr>)"
  shows "laid h' a q (pre @ (b, n, g) # post) e"
proof -
  note m = assms(1) [unfolded laid_middle]
  have "laid h' a q pre b" by (rule laid_frame [of h]) (use m assms(2) in auto)
  moreover have "laid h' (b + n) n post e" by (rule laid_frame [of h]) (use m assms(2) in auto)
  ultimately show ?thesis using m assms(2) by (simp add: laid_middle)
qed

lemma laid_first_prev:
  assumes "laid h a q bs e"
  shows "laid (if bs = [] then h else set_prev_size a q' h) a q' bs e"
proof (cases bs)
  case (Cons x xs)
  obtain b n f where x: "x = (b, n, f)" by (cases x)
  then have m: "b = a" "bsize (blocks h a) = n + of_bool f" "MIN_BLOCK \<le> n" "16 dvd n" "laid h (a + n) n xs e" using assms Cons by auto
  have "laid (set_prev_size a q' h) (a + n) n xs e" by (rule laid_frame [OF m(5)]) (use m in auto)
  then show ?thesis using m Cons x by simp
qed (use assms in simp)

lemma laid_last: "laid h a q bs e \<Longrightarrow> bs \<noteq> [] \<Longrightarrow> fst (last bs) + last_size q bs = e \<and> MIN_BLOCK \<le> last_size q bs"
proof (induction bs arbitrary: a q)
  case (Cons x bs)
  obtain b n f where x: "x = (b, n, f)" by (cases x)
  show ?case
  proof (cases "bs = []")
    case True
    then show ?thesis using Cons.prems x by auto
  next
    case False
    then show ?thesis using Cons.IH [of "a + n" n] Cons.prems(1) x by (auto simp: last_size_def)
  qed
qed simp

lemma next_block_laid:
  assumes "laid h a q (pre @ (b, n, f) # post) e" and "last_block h = Some (fst (last (pre @ (b, n, f) # post)))"
  shows "next_block h b = (if post = [] then None else Some (b + n))" and "last_block h = Some b \<longleftrightarrow> post = []"
proof -
  note m = assms(1) [unfolded laid_middle]
  have sz: "size_of h b = n" using laid_header [OF assms(1), of b n f] by simp
  have "fst (last post) \<noteq> b" if "post \<noteq> []"
  proof -
    obtain c k g where c: "last post = (c, k, g)" by (cases "last post")
    then have "(c, k, g) \<in> set post" using last_in_set [OF that] by simp
    then have "b + n \<le> c" using laid_within [of h "b + n" n post e c k g] m by auto
    then show ?thesis using c m by auto
  qed
  then show "last_block h = Some b \<longleftrightarrow> post = []" using assms(2) by auto
  then show "next_block h b = (if post = [] then None else Some (b + n))" using sz by (auto simp: next_block_def)
qed

lemma prev_block_laid:
  assumes "laid h a 0 (pre @ (b, n, f) # post) e"
  shows "prev_block h b = (if pre = [] then None else Some (fst (last pre)))"
proof -
  have p: "prev_size (blocks h b) = last_size 0 pre" "laid h a 0 pre b" using assms by (simp_all add: laid_middle)
  show ?thesis
  proof (cases "pre = []")
    case False
    then have "fst (last pre) + last_size 0 pre = b" "MIN_BLOCK \<le> last_size 0 pre" using laid_last [OF p(2)] by auto
    then show ?thesis using p(1) False by (auto simp: prev_block_def Let_def)
  qed (use p in \<open>simp add: prev_block_def Let_def\<close>)
qed

lemma insert_free_laid: "laid h a q (pre @ (b, n, False) # post) e \<Longrightarrow> laid (insert_free b h) a q (pre @ (b, n, True) # post) e"
proof -
  assume l: "laid h a q (pre @ (b, n, False) # post) e"
  then have "size_of h b = n" using laid_header [of h a q _ e b n False] by simp
  then show ?thesis by (intro laid_mark [OF l]) simp
qed

text \<open>Cutting a block in two.\<close>

lemma split_block_laid:
  assumes l: "laid h a q (pre @ (b, n, False) # post) e" and last: "last_block h = Some (fst (last (pre @ (b, n, False) # post)))"
    and need: "MIN_BLOCK \<le> need" "16 dvd need" "need + MIN_BLOCK \<le> n" and F: "lists_ok h F" "b + need \<notin> fst ` F"
  defines "h' \<equiv> split_block b need h" and "bs \<equiv> pre @ (b, need, False) # (b + need, n - need, True) # post"
  shows "laid h' a q bs e" and "last_block h' = Some (fst (last bs))" and "lists_ok h' (insert (b + need, n - need) F)"
    and "mem h' = mem h" and "heap_end h' = heap_end h" and "first_block h' = first_block h" and "total_allocated h' = total_allocated h"
    and "poison_damage h' = poison_damage h" and "damage_fatal h' = damage_fatal h"
proof -
  note m = l [unfolded laid_middle]
  have sz: "size_of h b = n" using laid_header [OF l, of b n False] by simp
  define rest where "rest = b + need"
  define h1 where "h1 = set_size b need (set_prev_size rest need (set_size rest (n - need) h))"
  define h2 where "h2 = (if post = [] then h1\<lparr>last_block := Some rest\<rparr> else set_prev_size (b + n) (n - need) h1)"
  have nd: "MIN_BLOCK \<le> n - need" "16 dvd n - need" "even (n - need)" "b \<noteq> rest" "rest < b + n"
    using need m by (auto simp: rest_def dvd_diff_nat intro: dvd_trans [of 2 16])
  have b1: "blocks h1 = (blocks h)(rest := \<lparr>bsize = n - need, prev_size = need\<rparr>, b := (blocks h b)\<lparr>bsize := need\<rparr>)"
    using nd(4) by (auto simp: h1_def)
  have s1: "size_of h1 rest = n - need" using b1 nd by (auto simp: size_of_def)
  have last1: "last_block h1 = last_block h" by (simp add: h1_def)
  have lp: "post \<noteq> [] \<Longrightarrow> last_block h \<noteq> Some rest"
  proof
    assume "post \<noteq> []" "last_block h = Some rest"
    then have "fst (last post) = rest" using last by simp
    moreover obtain c k g where c: "last post = (c, k, g)" by (cases "last post")
    moreover have "(c, k, g) \<in> set post" using last_in_set [OF \<open>post \<noteq> []\<close>] c by simp
    then have "b + n \<le> c" using laid_within [of h "b + n" n post e c k g] m by auto
    ultimately show False using nd(5) by simp
  qed
  have "h' = insert_free rest (if last_block h1 = Some b then h1\<lparr>last_block := Some rest\<rparr> else update_next_prev_size rest h1)"
    using sz need(3) by (simp add: h'_def split_block_def Let_def rest_def h1_def)
  also have "(if last_block h1 = Some b then h1\<lparr>last_block := Some rest\<rparr> else update_next_prev_size rest h1) = h2"
  proof (cases "post = []")
    case True
    then show ?thesis using next_block_laid(2) [OF l last] last1 by (simp add: h2_def)
  next
    case False
    then have "next_block h1 rest = Some (b + n)" using lp last1 s1 need(3) by (auto simp: next_block_def rest_def)
    then show ?thesis using False next_block_laid(2) [OF l last] last1 s1 by (simp add: h2_def update_next_prev_size_def)
  qed
  finally have h': "h' = insert_free rest h2" .
  have lists2: "lists_ok h2 F" using F(1) by (subst lists_ok_cong [of h2 h]) (auto simp: h2_def h1_def)
  have out: "blocks h2 x = blocks h x" if "x < b \<or> b + n < x" for x using that b1 nd(5) by (auto simp: h2_def rest_def)
  have "laid h2 a q pre b" by (rule laid_frame [of h]) (use m out in auto)
  moreover have "laid h2 (b + n) (n - need) post e"
  proof -
    have "laid (if post = [] then h else set_prev_size (b + n) (n - need) h) (b + n) (n - need) post e"
      by (rule laid_first_prev) (use m in blast)
    then show ?thesis by (rule laid_frame) (use b1 nd(5) in \<open>auto simp: h2_def rest_def\<close>)
  qed
  moreover have "blocks h2 b = (blocks h b)\<lparr>bsize := need\<rparr>" "blocks h2 rest = \<lparr>bsize = n - need, prev_size = need\<rparr>"
    using b1 nd(4,5) need(3) by (auto simp: h2_def)
  ultimately have "laid h2 a q (pre @ (b, need, False) # (rest, n - need, False) # post) e"
    using m need nd by (simp add: laid_middle) (simp add: rest_def)
  then have "laid h2 a q ((pre @ [(b, need, False)]) @ (rest, n - need, False) # post) e" by simp
  from insert_free_laid [OF this] show "laid h' a q bs e" by (simp add: h' bs_def rest_def)
  show "last_block h' = Some (fst (last bs))" using last by (auto simp: h' h2_def bs_def rest_def h1_def)
  have "size_of h2 rest = n - need" using \<open>blocks h2 rest = _\<close> nd(3) by (auto simp: size_of_def)
  then show "lists_ok h' (insert (b + need, n - need) F)" using insert_free_lists [OF lists2] F(2) by (simp add: h' rest_def)
  show "mem h' = mem h" "heap_end h' = heap_end h" "first_block h' = first_block h" "total_allocated h' = total_allocated h"
    "poison_damage h' = poison_damage h" "damage_fatal h' = damage_fatal h"
    by (simp_all add: h' h2_def h1_def)
qed


section \<open>Handing out a block\<close>

lemma laid_pre_post:
  assumes "laid h a q (pre @ (b, n, f) # post) e"
  shows "(c, m, g) \<in> set pre \<Longrightarrow> c + m \<le> b \<and> MIN_BLOCK \<le> m" and "(c, m, g) \<in> set post \<Longrightarrow> b + n \<le> c"
proof -
  note l = assms [unfolded laid_middle]
  show "c + m \<le> b \<and> MIN_BLOCK \<le> m" if "(c, m, g) \<in> set pre" using laid_within [of h a q pre b] laid_header [of h a q pre b] l that by blast
  show "b + n \<le> c" if "(c, m, g) \<in> set post" using laid_within [of h "b + n" n post e] l that by blast
qed

lemma others_free:
  assumes "laid h a q (pre @ (b, n, True) # post) e"
  shows "free_of (pre @ (b, n, True) # post) - {(b, n)} = free_of pre \<union> free_of post"
proof -
  have "MIN_BLOCK \<le> n" using assms by (simp add: laid_middle)
  then have "(b, n) \<notin> free_of pre" "(b, n) \<notin> free_of post" using laid_pre_post [OF assms, of b n True] by (auto simp: free_of_def)
  then show ?thesis by auto
qed

lemmas coalesced_simps = coalesced_def successively_append_iff successively_Cons

lemma free_poisoned_subset: "free_poisoned h bs \<Longrightarrow> free_of cs \<subseteq> free_of bs \<Longrightarrow> mem h' = mem h \<Longrightarrow> free_poisoned h' cs"
  by (auto simp: free_poisoned_def)

lemma hand_out_correct:
  assumes inv: "heap_inv h bs" and b: "(b, n) \<in> free_of bs" and need: "MIN_BLOCK \<le> need" "16 dvd need" "need \<le> n"
  shows "\<exists>h' bs' k. hand_out need b (unlink_free b h) = (h', Pointer (b + HEADER)) \<and> heap_inv h' bs' \<and> in_use bs' = insert (b, k) (in_use bs)
    \<and> need \<le> k \<and> k \<le> n \<and> mem h' = mem h \<and> poison_damage h' = poison_damage h \<and> heap_end h' = heap_end h"
proof -
  obtain pre post where bs: "bs = pre @ (b, n, True) # post" using b by (auto simp: free_of_def dest: split_list)
  have l: "laid h KHEAP_START_VIRT 0 bs (heap_end h)" and ends: "first_block h = Some KHEAP_START_VIRT" "last_block h = Some (fst (last bs))"
    and co: "coalesced bs" and li: "lists_ok h (free_of bs)" and po: "free_poisoned h bs" and tot: "total_allocated h = used_bytes bs"
    and hi: "KHEAP_START_VIRT + KHEAP_INITIAL_SIZE \<le> heap_end h" "PAGE_SIZE dvd heap_end h"
    using inv unfolding heap_inv_def by blast+
  note l' = l [unfolded bs]
  have sz: "size_of h b = n" using laid_header [OF l', of b n True] by simp
  define F where "F = free_of pre \<union> free_of post"
  have FF: "free_of bs - {(b, n)} = F" using others_free [OF l'] by (simp add: bs F_def)
  define h1 where "h1 = set_size b n (unlink_free b h)"
  have lists1: "lists_ok h1 F" using unlink_free_lists [OF li b sz] FF by (subst lists_ok_cong [of h1 "unlink_free b h"]) (auto simp: h1_def)
  have l1: "laid h1 KHEAP_START_VIRT 0 (pre @ (b, n, False) # post) (heap_end h)" by (rule laid_mark [OF l']) (simp add: h1_def)
  have last1: "last_block h1 = Some (fst (last (pre @ (b, n, False) # post)))" using ends(2) by (simp add: h1_def bs)
  have pb: "poisoned (mem h) (b + MIN_BLOCK) (b + n)" using po b by (auto simp: free_poisoned_def)
  define h2 where "h2 = split_block b need h1"
  define bs' where "bs' = (if n < need + MIN_BLOCK then pre @ (b, n, False) # post else pre @ (b, need, False) # (b + need, n - need, True) # post)"
  define k where "k = (if n < need + MIN_BLOCK then n else need)"
  have h2: "laid h2 KHEAP_START_VIRT 0 bs' (heap_end h) \<and> last_block h2 = Some (fst (last bs')) \<and> lists_ok h2 (free_of bs')
    \<and> mem h2 = mem h \<and> heap_end h2 = heap_end h \<and> first_block h2 = first_block h \<and> total_allocated h2 = total_allocated h
    \<and> poison_damage h2 = poison_damage h"
  proof (cases "n < need + MIN_BLOCK")
    case True
    then have "h2 = h1" using sz laid_header [OF l1, of b n False] by (simp add: h2_def split_block_def)
    then show ?thesis using True l1 last1 lists1 by (simp add: bs'_def F_def) (simp add: h1_def)
  next
    case False
    have "b + need \<notin> fst ` F"
    proof
      assume "b + need \<in> fst ` F"
      then obtain m where "(b + need, m, True) \<in> set pre \<or> (b + need, m, True) \<in> set post" by (fastforce simp: F_def free_of_def)
      then show False using laid_pre_post [OF l', of "b + need" m True] False by auto
    qed
    note sp = split_block_laid [OF l1 last1 need(1,2) _ lists1 this]
    have "free_of bs' = insert (b + need, n - need) F" using False by (auto simp: bs'_def F_def)
    then show ?thesis using sp False unfolding h2_def bs'_def by (simp add: h1_def)
  qed
  have "(b, k, False) \<in> set bs'" by (simp add: bs'_def k_def)
  then have sz2: "size_of h2 b = k" using laid_header h2 by blast
  have k: "MIN_BLOCK \<le> k" "need \<le> k" "k \<le> n" using need by (auto simp: k_def)
  have "poisoned (mem h2) (b + MIN_BLOCK) (b + MIN_BLOCK + (k - MIN_BLOCK))"
    using pb h2 k by (auto intro: poisoned_part [of _ "b + MIN_BLOCK" "b + n"])
  then have und: "first_unpoisoned h2 (b + MIN_BLOCK) (size_of h2 b - MIN_BLOCK) = None" unfolding sz2 by (simp only: first_unpoisoned_None)
  define h3 where "h3 = h2\<lparr>total_allocated := total_allocated h2 + (k - HEADER)\<rparr>"
  have out: "hand_out need b (unlink_free b h) = (h3, Pointer (b + HEADER))"
    using und sz sz2 by (simp add: hand_out_def Let_def h3_def h2_def h1_def size_of_def)
  have "free_poisoned h3 bs'"
  proof (cases "n < need + MIN_BLOCK")
    case True
    then show ?thesis using po h2 by (auto simp: free_poisoned_def bs'_def bs h3_def)
  next
    case False
    then have "poisoned (mem h) (b + need + MIN_BLOCK) (b + need + (n - need))" by (intro poisoned_part [OF pb]) auto
    then show ?thesis using po h2 False by (auto simp: free_poisoned_def bs'_def bs h3_def)
  qed
  moreover have "coalesced bs'" using co by (auto simp: bs bs'_def coalesced_simps hd_append split: if_splits)
  moreover have "laid h3 KHEAP_START_VIRT 0 bs' (heap_end h)" by (rule laid_frame [of h2]) (use h2 in \<open>auto simp: h3_def\<close>)
  moreover have "lists_ok h3 (free_of bs')" using h2 by (subst lists_ok_cong [of h3 h2]) (auto simp: h3_def)
  moreover have "total_allocated h3 = used_bytes bs'" using tot h2 by (auto simp: h3_def bs bs'_def k_def)
  ultimately have "heap_inv h3 bs'" using h2 ends hi by (auto simp: heap_inv_def h3_def bs'_def)
  moreover have "in_use bs' = insert (b, k) (in_use bs)" by (auto simp: bs bs'_def k_def)
  ultimately show ?thesis using out k h2 by (intro exI [of _ h3] exI [of _ bs'] exI [of _ k]) (simp add: h3_def)
qed


section \<open>A heap with one block taken out\<close>

text \<open>
  The state between two steps of a call: the block at \<open>b\<close>, of \<open>n\<close> bytes, is on no list and counted nowhere, and the block
  after it may not know its size yet.
\<close>

definition hole :: "heap \<Rightarrow> layout \<Rightarrow> nat \<Rightarrow> nat \<Rightarrow> layout \<Rightarrow> bool" where
  "hole h pre b n post \<longleftrightarrow> laid h KHEAP_START_VIRT 0 pre b \<and> size_of h b = n \<and> prev_size (blocks h b) = last_size 0 pre \<and> MIN_BLOCK \<le> n \<and> 16 dvd n
     \<and> (\<exists>q. laid h (b + n) q post (heap_end h)) \<and> first_block h = Some KHEAP_START_VIRT \<and> last_block h = Some (if post = [] then b else fst (last post))
     \<and> coalesced pre \<and> coalesced post \<and> lists_ok h (free_of pre \<union> free_of post) \<and> free_poisoned h pre \<and> free_poisoned h post
     \<and> poisoned (mem h) (b + MIN_BLOCK) (b + n) \<and> total_allocated h = used_bytes pre + used_bytes post
     \<and> KHEAP_START_VIRT + KHEAP_INITIAL_SIZE \<le> heap_end h \<and> PAGE_SIZE dvd heap_end h"

lemma hole_parts:
  assumes "hole h pre b n post"
  shows "laid h KHEAP_START_VIRT 0 pre b" "size_of h b = n" "prev_size (blocks h b) = last_size 0 pre" "MIN_BLOCK \<le> n" "16 dvd n"
    "\<exists>q. laid h (b + n) q post (heap_end h)" "first_block h = Some KHEAP_START_VIRT" "last_block h = Some (if post = [] then b else fst (last post))"
    "coalesced pre" "coalesced post" "lists_ok h (free_of pre \<union> free_of post)" "free_poisoned h pre" "free_poisoned h post"
    "poisoned (mem h) (b + MIN_BLOCK) (b + n)" "total_allocated h = used_bytes pre + used_bytes post"
    "KHEAP_START_VIRT + KHEAP_INITIAL_SIZE \<le> heap_end h" "PAGE_SIZE dvd heap_end h"
  using assms unfolding hole_def by blast+

lemma hole_outside:
  assumes "hole h pre b n post"
  shows "(c, m, g) \<in> set pre \<Longrightarrow> c + m \<le> b \<and> MIN_BLOCK \<le> m" and "(c, m, g) \<in> set post \<Longrightarrow> b + n \<le> c"
  using hole_parts(1,6) [OF assms] laid_within laid_header by blast+

lemma hole_not_listed: "hole h pre b n post \<Longrightarrow> b \<notin> fst ` (free_of pre \<union> free_of post)"
  using hole_outside [of h pre b n post b _ True] hole_parts(4) [of h pre b n post] by (fastforce simp: free_of_def)

lemma free_poisoned_simps [simp]:
  "free_poisoned h []" "free_poisoned h ((b, n, True) # bs) \<longleftrightarrow> poisoned (mem h) (b + MIN_BLOCK) (b + n) \<and> free_poisoned h bs"
  "free_poisoned h ((b, n, False) # bs) \<longleftrightarrow> free_poisoned h bs" "free_poisoned h (xs @ ys) \<longleftrightarrow> free_poisoned h xs \<and> free_poisoned h ys"
  by (auto simp: free_poisoned_def)

lemma free_poisoned_frame:
  assumes "free_poisoned h bs" and "laid g a q bs e" and "\<And>x. a \<le> x \<Longrightarrow> x < e \<Longrightarrow> mem h' x = mem h x"
  shows "free_poisoned h' bs"
  unfolding free_poisoned_def
proof (clarify)
  fix b n
  assume bn: "(b, n) \<in> free_of bs"
  then have "poisoned (mem h) (b + MIN_BLOCK) (b + n)" using assms(1) by (auto simp: free_poisoned_def)
  moreover have "a \<le> b \<and> b + n \<le> e" using laid_within [OF assms(2), of b n True] bn by (simp add: free_of_def)
  ultimately show "poisoned (mem h') (b + MIN_BLOCK) (b + n)" using assms(3) by (auto simp: poisoned_def)
qed

lemma hole_close:
  assumes hl: "hole h pre b n post" and nx: "laid h (b + n) n post (heap_end h)"
    and nb: "pre = [] \<or> \<not> snd (snd (last pre))" "post = [] \<or> \<not> snd (snd (hd post))"
  shows "heap_inv (insert_free b h) (pre @ (b, n, True) # post)"
proof -
  note p = hole_parts [OF hl]
  let ?h = "insert_free b h"
  have b: "bsize (blocks ?h b) = n + of_bool True" "prev_size (blocks ?h b) = last_size 0 pre" using p(2,3) by simp_all
  have "laid ?h KHEAP_START_VIRT 0 pre b" by (rule laid_frame [OF p(1)]) simp
  moreover have "laid ?h (b + n) n post (heap_end h)" by (rule laid_frame [OF nx]) (use p(4) in simp)
  ultimately have "laid ?h KHEAP_START_VIRT 0 (pre @ (b, n, True) # post) (heap_end h)" unfolding laid_middle using b p(4,5) by blast
  moreover have "lists_ok ?h (free_of (pre @ (b, n, True) # post))" using insert_free_lists [OF p(11) hole_not_listed [OF hl] p(2)] by simp
  moreover have "coalesced (pre @ (b, n, True) # post)" using p(9,10) nb by (auto simp: coalesced_simps)
  moreover have "free_poisoned ?h (pre @ (b, n, True) # post)" using p(12-14) free_poisoned_subset [of h _ _ ?h] by simp
  ultimately show ?thesis using p(7,8,15-17) by (auto simp: heap_inv_def)
qed

text \<open>Taking a block out: a free one off its list, or one in use.\<close>

lemma hole_open:
  assumes inv: "heap_inv h (pre @ (b, n, f) # post)"
    and h': "heap_end h' = heap_end h" "first_block h' = first_block h" "last_block h' = last_block h"
      "lists_ok h' (free_of pre \<union> free_of post)" "total_allocated h' = used_bytes pre + used_bytes post"
    and blocks: "\<And>x. x \<le> b \<or> b + n \<le> x \<Longrightarrow> blocks h' x = blocks h x" and mem: "\<And>x. x < b \<or> b + n \<le> x \<Longrightarrow> mem h' x = mem h x"
    and po: "poisoned (mem h') (b + MIN_BLOCK) (b + n)"
  shows "hole h' pre b n post"
proof -
  have l: "laid h KHEAP_START_VIRT 0 (pre @ (b, n, f) # post) (heap_end h)" using inv by (simp add: heap_inv_def)
  note m = l [unfolded laid_middle] laid_header [OF l, of b n f]
  have lpre: "laid h' KHEAP_START_VIRT 0 pre b" by (rule laid_frame [of h]) (use m blocks in auto)
  have lpost: "laid h' (b + n) n post (heap_end h)" by (rule laid_frame [of h]) (use m blocks in auto)
  have co: "coalesced pre" "coalesced post" using inv by (auto simp: heap_inv_def coalesced_simps)
  have fp: "free_poisoned h pre" "free_poisoned h post" using inv by (cases f; simp add: heap_inv_def)+
  have "free_poisoned h' pre" by (rule free_poisoned_frame [OF fp(1) lpre]) (use mem in auto)
  moreover have "free_poisoned h' post" by (rule free_poisoned_frame [OF fp(2) lpost]) (use mem in auto)
  ultimately show ?thesis unfolding hole_def using m inv h' po lpre lpost co blocks [of b] by (auto simp: heap_inv_def size_of_def)
qed

lemma unlink_opens:
  assumes inv: "heap_inv h (pre @ (b, n, True) # post)"
  shows "hole (unlink_free b h) pre b n post"
proof -
  have l: "laid h KHEAP_START_VIRT 0 (pre @ (b, n, True) # post) (heap_end h)" and li: "lists_ok h (free_of (pre @ (b, n, True) # post))"
    and po: "free_poisoned h (pre @ (b, n, True) # post)" and tot: "total_allocated h = used_bytes (pre @ (b, n, True) # post)"
    using inv by (simp_all add: heap_inv_def)
  have "size_of h b = n" using laid_header [OF l, of b n True] by simp
  then have "lists_ok (unlink_free b h) (free_of pre \<union> free_of post)" using unlink_free_lists [OF li, of b n] unfolding others_free [OF l] by simp
  then show ?thesis by (rule hole_open [OF inv, rotated 3]) (use po tot in simp_all)
qed


lemma hole_last:
  assumes "hole h pre b n post"
  shows "last_block h = Some b \<longleftrightarrow> post = []" and "next_block h b = (if post = [] then None else Some (b + n))"
proof -
  note p = hole_parts [OF assms]
  have "fst (last post) \<noteq> b" if "post \<noteq> []"
  proof -
    obtain c m g where "last post = (c, m, g)" by (cases "last post")
    then show ?thesis using hole_outside(2) [OF assms, of c m g] last_in_set [OF that] p(4) by auto
  qed
  then show "last_block h = Some b \<longleftrightarrow> post = []" using p(8) by auto
  then show "next_block h b = (if post = [] then None else Some (b + n))" using p(2) by (auto simp: next_block_def)
qed

lemma poisoned_set: "poisoned m a b \<Longrightarrow> (\<And>x. a \<le> x \<Longrightarrow> x < b \<Longrightarrow> m' x = m x \<or> m' x = POISON) \<Longrightarrow> poisoned m' a b"
  unfolding poisoned_def by metis

lemma merge_next_hole:
  assumes hl: "hole h pre b n post"
  shows "\<exists>n' post'. hole (merge_next b h) pre b n' post' \<and> (post' = [] \<or> \<not> snd (snd (hd post'))) \<and> in_use post' = in_use post \<and> n \<le> n'
    \<and> (\<forall>x. x < b \<or> b + n' \<le> x \<longrightarrow> mem (merge_next b h) x = mem h x) \<and> poison_damage (merge_next b h) = poison_damage h"
proof (cases "\<exists>c m post'. post = (c, m, True) # post'")
  case False
  note p = hole_parts [OF hl]
  have f: "post = [] \<or> \<not> snd (snd (hd post))" using False by (cases post) auto
  have "merge_next b h = h"
  proof (cases post)
    case (Cons x xs)
    then obtain c m where x: "post = (c, m, False) # xs" using False by (cases x) auto
    obtain q where q: "laid h (b + n) q post (heap_end h)" using p(6) by blast
    then have "c = b + n" using x by simp
    moreover have "\<not> is_free h c" using laid_header [OF q, of c m False] x by simp
    ultimately show ?thesis using hole_last(2) [OF hl] x by (simp add: merge_next_def)
  qed (use hole_last(2) [OF hl] in \<open>simp add: merge_next_def\<close>)
  then show ?thesis using hl f by auto
next
  case True
  note p = hole_parts [OF hl]
  obtain c m post' where post: "post = (c, m, True) # post'" using True by blast
  obtain q where q: "laid h (b + n) q post (heap_end h)" using p(6) by blast
  have c: "c = b + n" "size_of h c = m" "is_free h c" "MIN_BLOCK \<le> m" "16 dvd m" "laid h (b + (n + m)) m post' (heap_end h)"
    using q laid_header [OF q, of c m True] post by (auto simp: add.assoc)
  define h1 where "h1 = unlink_free c h"
  define h' where "h' = poison c MIN_BLOCK (set_size b (n + m) (if post' = [] then h1\<lparr>last_block := Some b\<rparr> else h1))"
  have lst: "last_block h = Some c \<longleftrightarrow> post' = []"
  proof (cases "post' = []")
    case False
    obtain d k g where d: "last post' = (d, k, g)" by (cases "last post'")
    then have "b + (n + m) \<le> d" using laid_within [OF c(6), of d k g] last_in_set [OF False] by auto
    then show ?thesis using p(8) False d c(1,4) by (simp add: post)
  qed (use p(8) in \<open>simp add: post\<close>)
  have h': "merge_next b h = h'"
    using hole_last(2) [OF hl] c(1,2,3) p(2) post lst by (simp add: merge_next_def Let_def h'_def h1_def size_of_def)
  have out: "(c, m) \<notin> free_of pre \<union> free_of post'"
    using hole_outside(1) [OF hl, of c m True] laid_within [OF c(6), of c m True] c(1,4) p(4) by (auto simp: free_of_def)
  have "(free_of pre \<union> free_of post) - {(c, m)} = free_of pre \<union> free_of post'" using out by (auto simp: post)
  then have li: "lists_ok h1 (free_of pre \<union> free_of post')" using unlink_free_lists [OF p(11), of c m] c(2) by (simp add: h1_def post)
  have bl: "blocks h' b = (blocks h b)\<lparr>bsize := n + m\<rparr>" and blo: "x < b \<or> b + (n + m) \<le> x \<Longrightarrow> blocks h' x = blocks h x" for x
    using c(1,4) p(4) by (auto simp: h'_def h1_def)
  have me: "mem h' = (\<lambda>x. if c \<le> x \<and> x < c + MIN_BLOCK then POISON else mem h x)" by (auto simp: h'_def h1_def)
  have "even n" "even m" using p(5) c(5) dvd_trans [of 2 16] by auto
  then have sz: "size_of h' b = n + m" using bl by (simp add: size_of_def)
  have lpre: "laid h' KHEAP_START_VIRT 0 pre b" by (rule laid_frame [OF p(1)]) (use blo in auto)
  have lpost: "laid h' (b + (n + m)) m post' (heap_end h)" by (rule laid_frame [OF c(6)]) (use blo in auto)
  have fp: "free_poisoned h post'" "poisoned (mem h) (c + MIN_BLOCK) (c + m)" using p(13) by (simp_all add: post)
  have "free_poisoned h' pre" by (rule free_poisoned_frame [OF p(12) lpre]) (use me c(1) in auto)
  moreover have "free_poisoned h' post'" by (rule free_poisoned_frame [OF fp(1) lpost]) (use me c(1,4) in auto)
  moreover have "poisoned (mem h') (b + MIN_BLOCK) (b + (n + m))"
  proof -
    have "poisoned (mem h') (b + MIN_BLOCK) c" by (rule poisoned_set [OF p(14) [folded c(1)]]) (simp add: me)
    moreover have "poisoned (mem h') c (c + MIN_BLOCK)" by (simp add: me poisoned_def)
    moreover have "poisoned (mem h') (c + MIN_BLOCK) (c + m)" by (rule poisoned_set [OF fp(2)]) (simp add: me)
    ultimately have "poisoned (mem h') (b + MIN_BLOCK) (c + m)" by (blast intro: poisoned_join)
    then show ?thesis by (simp add: c(1) add.assoc)
  qed
  moreover have "lists_ok h' (free_of pre \<union> free_of post')" using li by (subst lists_ok_cong [of h' h1]) (auto simp: h'_def)
  moreover have "coalesced post'" "post' = [] \<or> \<not> snd (snd (hd post'))" using p(10) by (auto simp: post coalesced_simps)
  ultimately have "hole h' pre b (n + m) post'"
    unfolding hole_def using p c(4,5) lpre lpost sz bl by (auto simp: h'_def h1_def post)
  then show ?thesis unfolding h' using \<open>post' = [] \<or> _\<close> c(1,4)
    by (intro exI [of _ "n + m"] exI [of _ post']) (auto simp: me post h'_def h1_def)
qed


lemma merge_prev_hole:
  assumes hl: "hole h pre b n post"
  shows "\<exists>h' b' pre' n'. merge_prev b h = (h', b') \<and> hole h' pre' b' n' post \<and> (pre' = [] \<or> \<not> snd (snd (last pre'))) \<and> in_use pre' = in_use pre
    \<and> b' \<le> b \<and> b' + n' = b + n \<and> (\<forall>x. x < b' \<or> b' + n' \<le> x \<longrightarrow> mem h' x = mem h x) \<and> poison_damage h' = poison_damage h
    \<and> (b' = b \<or> b' < b \<and> odd (bsize (blocks h' b)))"
proof (cases "\<exists>c m pre'. pre = pre' @ [(c, m, True)]")
  case False
  note p = hole_parts [OF hl]
  have f: "pre = [] \<or> \<not> snd (snd (last pre))" using False by (cases pre rule: rev_cases) auto
  have "merge_prev b h = (h, b)"
  proof (cases pre rule: rev_cases)
    case (snoc xs x)
    then obtain c m where x: "pre = xs @ [(c, m, False)]" using False by (cases x) auto
    have "c + m = b" "MIN_BLOCK \<le> m" using laid_last [OF p(1)] x by auto
    moreover have "\<not> is_free h c" using laid_header [OF p(1), of c m False] x by simp
    moreover have "prev_block h b = Some (b - m)" using p(3) x \<open>MIN_BLOCK \<le> m\<close> by (simp add: prev_block_def)
    ultimately show ?thesis by (auto simp: merge_prev_def)
  qed (use p(3) in \<open>simp add: merge_prev_def prev_block_def\<close>)
  then show ?thesis using hl f by auto
next
  case True
  note p = hole_parts [OF hl]
  obtain c m pre' where pre: "pre = pre' @ [(c, m, True)]" using True by blast
  have c: "c + m = b" "size_of h c = m" "is_free h c" "MIN_BLOCK \<le> m" "16 dvd m" "laid h KHEAP_START_VIRT 0 pre' c" "prev_size (blocks h c) = last_size 0 pre'"
    using p(1) laid_header [OF p(1), of c m True] by (simp_all add: pre laid_middle)
  define h1 where "h1 = unlink_free c h"
  define h' where "h' = poison b MIN_BLOCK (set_size c (m + n) (if post = [] then h1\<lparr>last_block := Some c\<rparr> else h1))"
  have "prev_block h b = Some c" using p(3) c(1,4) by (auto simp: prev_block_def pre)
  then have h': "merge_prev b h = (h', c)"
    using c(2,3) p(2) hole_last(1) [OF hl] by (simp add: merge_prev_def Let_def h'_def h1_def size_of_def)
  have "(c, m) \<notin> free_of pre' \<union> free_of post"
    using hole_outside(2) [OF hl, of c m True] laid_within [OF c(6), of c m True] c(1,4) p(4) by (auto simp: free_of_def)
  then have "(free_of pre \<union> free_of post) - {(c, m)} = free_of pre' \<union> free_of post" by (auto simp: pre)
  then have li: "lists_ok h1 (free_of pre' \<union> free_of post)" using unlink_free_lists [OF p(11), of c m] c(2) by (simp add: h1_def pre)
  have bl: "blocks h' c = (blocks h c)\<lparr>bsize := m + n\<rparr>" and blo: "x < c \<or> b + n \<le> x \<Longrightarrow> blocks h' x = blocks h x" for x
    using c(1,4) p(4) by (auto simp: h'_def h1_def)
  have odd: "odd (bsize (blocks h' b))" by (simp add: h'_def)
  have me: "mem h' = (\<lambda>x. if b \<le> x \<and> x < b + MIN_BLOCK then POISON else mem h x)" by (auto simp: h'_def h1_def)
  have "even n" "even m" using p(5) c(5) dvd_trans [of 2 16] by auto
  then have sz: "size_of h' c = m + n" using bl by (simp add: size_of_def)
  obtain q where q: "laid h (b + n) q post (heap_end h)" using p(6) by blast
  have lpre: "laid h' KHEAP_START_VIRT 0 pre' c" by (rule laid_frame [OF c(6)]) (use blo in auto)
  have lpost: "laid h' (c + (m + n)) q post (heap_end h)" using laid_frame [OF q, of h'] blo c(1) by (simp add: add.assoc [symmetric])
  have fp: "free_poisoned h pre'" "poisoned (mem h) (c + MIN_BLOCK) b" using p(12) by (simp_all add: pre c(1))
  have "free_poisoned h' pre'" by (rule free_poisoned_frame [OF fp(1) lpre]) (use me c(1) in auto)
  moreover have "free_poisoned h' post" by (rule free_poisoned_frame [OF p(13) lpost]) (use me c(1) p(4) in auto)
  moreover have "poisoned (mem h') (c + MIN_BLOCK) (c + (m + n))"
  proof -
    have "poisoned (mem h') (c + MIN_BLOCK) b" by (rule poisoned_set [OF fp(2)]) (simp add: me)
    moreover have "poisoned (mem h') b (b + MIN_BLOCK)" by (simp add: me poisoned_def)
    moreover have "poisoned (mem h') (b + MIN_BLOCK) (b + n)" by (rule poisoned_set [OF p(14)]) (simp add: me)
    ultimately have "poisoned (mem h') (c + MIN_BLOCK) (b + n)" by (blast intro: poisoned_join)
    then show ?thesis using c(1) by (simp add: add.assoc [symmetric])
  qed
  moreover have "lists_ok h' (free_of pre' \<union> free_of post)" using li by (subst lists_ok_cong [of h' h1]) (auto simp: h'_def)
  moreover have "coalesced pre'" "pre' = [] \<or> \<not> snd (snd (last pre'))" using p(9) by (auto simp: pre coalesced_simps)
  ultimately have "hole h' pre' c (m + n) post"
    unfolding hole_def using p c(4,5,7) lpre lpost sz bl by (auto simp: h'_def h1_def pre)
  moreover have "poison_damage h' = poison_damage h" by (simp add: h'_def h1_def)
  ultimately show ?thesis unfolding h' using \<open>pre' = [] \<or> _\<close> c(1,4) p(4) odd
    by (rule_tac exI [of _ h'], rule_tac exI [of _ c], rule_tac exI [of _ pre'], rule_tac exI [of _ "m + n"]) (auto simp: me pre)
qed


lemma settle_hole:
  assumes hl: "hole h pre b n post"
  defines "h' \<equiv> update_next_prev_size b (set_size b (size_of h b) h)"
  shows "hole h' pre b n post" and "laid h' (b + n) n post (heap_end h')" and "mem h' = mem h" and "poison_damage h' = poison_damage h"
    and "b < x \<Longrightarrow> x < b + n \<Longrightarrow> blocks h' x = blocks h x"
proof -
  note p = hole_parts [OF hl]
  define h1 where "h1 = set_size b n h"
  have ev: "even n" using p(5) dvd_trans [of 2 16] by auto
  have h': "h' = (if post = [] then h1 else set_prev_size (b + n) n h1)"
    using hole_last(2) [OF hl] p(2) ev by (auto simp: h'_def h1_def update_next_prev_size_def next_block_def size_of_def split: if_splits)
  obtain q where q: "laid h (b + n) q post (heap_end h)" using p(6) by blast
  have end': "heap_end h' = heap_end h" by (simp add: h' h1_def)
  have b: "blocks h' b = (blocks h b)\<lparr>bsize := n\<rparr>" using p(4) by (simp add: h' h1_def)
  have lpre: "laid h' KHEAP_START_VIRT 0 pre b" by (rule laid_frame [OF p(1)]) (simp add: h' h1_def)
  have "laid h1 (b + n) q post (heap_end h)" by (rule laid_frame [OF q]) (use p(4) in \<open>simp add: h1_def\<close>)
  then show lpost: "laid h' (b + n) n post (heap_end h')" unfolding end' unfolding h' by (rule laid_first_prev)
  show mem: "mem h' = mem h" "poison_damage h' = poison_damage h" by (simp_all add: h' h1_def)
  have "free_poisoned h' pre" "free_poisoned h' post" using free_poisoned_subset [OF p(12)] free_poisoned_subset [OF p(13)] mem(1) by auto
  moreover have "lists_ok h' (free_of pre \<union> free_of post)" using p(11) by (subst lists_ok_cong [of h' h]) (auto simp: h' h1_def)
  moreover have "size_of h' b = n" using b ev by (simp add: size_of_def)
  ultimately show "hole h' pre b n post"
    unfolding hole_def using p(3-5,7-10,14-17) lpre lpost b mem(1) end' by (auto simp: h' h1_def)
  show "blocks h' x = blocks h x" if "b < x" "x < b + n" using that by (simp add: h' h1_def)
qed

lemma shrink_heap_to:
  "PAGE_SIZE dvd heap_end h \<Longrightarrow> PAGE_SIZE dvd e \<Longrightarrow> shrink_heap e h = h\<lparr>heap_end := min (heap_end h) e\<rparr>"
proof (induction e h rule: shrink_heap.induct)
  case (1 e h)
  show ?case
  proof (cases "e < heap_end h")
    case True
    then have "PAGE_SIZE \<le> heap_end h - e" using 1(2,3) by (intro dvd_imp_le) (auto simp: dvd_diff_nat)
    moreover have "shrink_heap e (h\<lparr>heap_end := heap_end h - PAGE_SIZE\<rparr>) = h\<lparr>heap_end := min (heap_end h - PAGE_SIZE) e\<rparr>"
      using 1(1) [OF True] 1(2,3) by (simp add: dvd_diff_nat)
    ultimately show ?thesis using True by (subst shrink_heap.simps) (simp add: min_def)
  qed (subst shrink_heap.simps, simp add: min_def)
qed

lemma page_align_up_bounds: "n \<le> page_align_up n" "PAGE_SIZE dvd page_align_up n"
  by (simp_all add: page_align_up_def)

lemma trim_hole:
  assumes hl: "hole h pre b n post" and nx: "laid h (b + n) n post (heap_end h)"
  shows "\<exists>n'. hole (trim b h) pre b n' post \<and> laid (trim b h) (b + n') n' post (heap_end (trim b h)) \<and> n' \<le> n
    \<and> mem (trim b h) = mem h \<and> poison_damage (trim b h) = poison_damage h \<and> (\<forall>x. b < x \<longrightarrow> blocks (trim b h) x = blocks h x)"
proof -
  note p = hole_parts [OF hl]
  define e where "e = max (page_align_up (b + HEADER + KHEAP_TRIM_KEEP)) (KHEAP_START_VIRT + KHEAP_INITIAL_SIZE)"
  show ?thesis
  proof (cases "post = [] \<and> n \<ge> KHEAP_TRIM_THRESHOLD \<and> e < heap_end h")
    case False
    then have "trim b h = h" using hole_last(1) [OF hl] p(2) by (auto simp: trim_def Let_def e_def)
    then show ?thesis using hl nx by auto
  next
    case True
    have pe: "PAGE_SIZE dvd e" "b + MIN_BLOCK \<le> e" "KHEAP_START_VIRT + KHEAP_INITIAL_SIZE \<le> e"
      using page_align_up_bounds [of "b + HEADER + KHEAP_TRIM_KEEP"] by (auto simp: e_def max_def)
    have e: "b + n = heap_end h" using nx True by simp
    have "shrink_heap e h = h\<lparr>heap_end := e\<rparr>" using shrink_heap_to [OF p(17) pe(1)] True by (simp add: min_def)
    then have t: "trim b h = set_size b (e - b) (h\<lparr>heap_end := e\<rparr>)"
      using True hole_last(1) [OF hl] p(2) by (simp add: trim_def Let_def e_def)
    have "16 dvd heap_end h" "16 dvd e" using p(17) pe(1) dvd_trans [of 16 PAGE_SIZE] by simp_all
    then have "16 dvd b" using e p(5) by (metis dvd_add_left_iff)
    then have d: "16 dvd e - b" using \<open>16 dvd e\<close> by (simp add: dvd_diff_nat)
    then have ev: "even (e - b)" by (rule dvd_trans [of 2 16, rotated]) simp
    have lpre: "laid (trim b h) KHEAP_START_VIRT 0 pre b" by (rule laid_frame [OF p(1)]) (simp add: t)
    have "lists_ok (trim b h) (free_of pre \<union> free_of post)" using p(11) by (subst lists_ok_cong [of _ h]) (auto simp: t)
    moreover have "free_poisoned (trim b h) pre" using free_poisoned_subset [OF p(12)] by (simp add: t)
    moreover have "poisoned (mem h) (b + MIN_BLOCK) e" by (rule poisoned_part [OF p(14)]) (use True e in auto)
    moreover have "size_of (trim b h) b = e - b" using ev by (simp add: t size_of_def)
    ultimately have "hole (trim b h) pre b (e - b) post"
      unfolding hole_def using p pe lpre d True by (auto simp: t)
    then show ?thesis using True e pe(2) by (intro exI [of _ "e - b"]) (auto simp: t)
  qed
qed


text \<open>
  Freeing a block in use: the others stay as they are, and its header says free (or is poison), so that freeing it once
  more is noticed as long as the page of the header is still there.
\<close>

lemma kfree_correct:
  assumes inv: "heap_inv h bs" and bn: "(b, n) \<in> in_use bs"
  shows "\<exists>h' bs'. kfree (Some (b + HEADER)) h = (h', False) \<and> heap_inv h' bs' \<and> in_use bs' = in_use bs - {(b, n)}
    \<and> (\<forall>(c, m)\<in>in_use bs'. \<forall>x. c \<le> x \<longrightarrow> x < c + m \<longrightarrow> mem h' x = mem h x) \<and> poison_damage h' = poison_damage h \<and> odd (bsize (blocks h' b))"
proof -
  obtain pre post where bs: "bs = pre @ (b, n, False) # post" using bn by (auto simp: in_use_def dest: split_list)
  note inv' = inv [unfolded bs]
  have l: "laid h KHEAP_START_VIRT 0 (pre @ (b, n, False) # post) (heap_end h)" using inv' by (simp add: heap_inv_def)
  have hd: "size_of h b = n" "\<not> is_free h b" "MIN_BLOCK \<le> n" using laid_header [OF l, of b n False] by simp_all
  define h1 where "h1 = poison (b + MIN_BLOCK) (n - MIN_BLOCK) (h\<lparr>total_allocated := total_allocated h - (n - HEADER)\<rparr>)"
  have "lists_ok h1 (free_of pre \<union> free_of post)" using inv' by (subst lists_ok_cong [of h1 h]) (auto simp: h1_def heap_inv_def)
  then have hole1: "hole h1 pre b n post"
    by (rule hole_open [OF inv', rotated 3]) (use inv' hd(3) in \<open>auto simp: h1_def heap_inv_def poisoned_def\<close>)
  have mem1: "x < b \<or> b + n \<le> x \<Longrightarrow> mem h1 x = mem h x" for x using hd(3) by (auto simp: h1_def)
  define h2 where "h2 = merge_next b h1"
  obtain n2 post2 where 2: "hole h2 pre b n2 post2" "post2 = [] \<or> \<not> snd (snd (hd post2))" "in_use post2 = in_use post" "n \<le> n2"
    "\<And>x. x < b \<or> b + n2 \<le> x \<Longrightarrow> mem h2 x = mem h1 x" "poison_damage h2 = poison_damage h1"
    using merge_next_hole [OF hole1] unfolding h2_def by blast
  obtain h3 b3 pre3 n3 where 3: "merge_prev b h2 = (h3, b3)" "hole h3 pre3 b3 n3 post2" "pre3 = [] \<or> \<not> snd (snd (last pre3))" "in_use pre3 = in_use pre"
    "b3 \<le> b" "b3 + n3 = b + n2" "\<And>x. x < b3 \<or> b3 + n3 \<le> x \<Longrightarrow> mem h3 x = mem h2 x" "poison_damage h3 = poison_damage h2" "b3 = b \<or> b3 < b \<and> odd (bsize (blocks h3 b))"
    using merge_prev_hole [OF 2(1)] by blast
  define h4 where "h4 = update_next_prev_size b3 (set_size b3 (size_of h3 b3) h3)"
  note 4 = settle_hole [OF 3(2), folded h4_def]
  obtain n5 where 5: "hole (trim b3 h4) pre3 b3 n5 post2" "laid (trim b3 h4) (b3 + n5) n5 post2 (heap_end (trim b3 h4))" "n5 \<le> n3"
    "mem (trim b3 h4) = mem h4" "poison_damage (trim b3 h4) = poison_damage h4" "\<And>x. b3 < x \<Longrightarrow> blocks (trim b3 h4) x = blocks h4 x"
    using trim_hole [OF 4(1,2)] by blast
  define h' where "h' = insert_free b3 (trim b3 h4)"
  define bs' where "bs' = pre3 @ (b3, n5, True) # post2"
  have inv5: "heap_inv h' bs'" using hole_close [OF 5(1,2) 3(3) 2(2)] by (simp add: h'_def bs'_def)
  have sz0: "size_of (h\<lparr>total_allocated := t\<rparr>) b = n" for t using hd(1) by (simp add: size_of_def)
  have run: "kfree (Some (b + HEADER)) h = (h', False)"
    using hd(2) 3(1) sz0 by (simp add: hd(1) kfree_def Let_def h1_def [symmetric] h2_def [symmetric] h4_def [symmetric] h'_def)
  have "(b, n) \<notin> in_use pre" "(b, n) \<notin> in_use post" using laid_pre_post [OF l, of b n False] hd(3) by (auto simp: in_use_def)
  then have use: "in_use bs' = in_use bs - {(b, n)}" using 2(3) 3(4) by (auto simp: bs bs'_def)
  have same: "mem h' x = mem h x" if "x < b3 \<or> b3 + n3 \<le> x" for x
  proof -
    have "mem h' x = mem h3 x" using 4(3) 5(4) by (simp add: h'_def)
    also have "\<dots> = mem h2 x" by (rule 3(7)) (rule that)
    also have "\<dots> = mem h1 x" by (rule 2(5)) (use that 3(5,6) in linarith)
    also have "\<dots> = mem h x" by (rule mem1) (use that 3(5,6) 2(4) in linarith)
    finally show ?thesis .
  qed
  have "mem h' x = mem h x" if u: "(c, m) \<in> in_use bs'" and x: "c \<le> x" "x < c + m" for c m x
  proof (rule same)
    have "(c, m, False) \<in> set pre3 \<or> (c, m, False) \<in> set post2" using u by (auto simp: bs'_def in_use_def)
    then show "x < b3 \<or> b3 + n3 \<le> x"
      using hole_outside(1) [OF 3(2), of c m False] hole_outside(2) [OF 3(2), of c m False] x by linarith
  qed
  moreover have "odd (bsize (blocks h' b))"
  proof (cases "b3 = b")
    case False
    then have "b3 < b" "odd (bsize (blocks h3 b))" "b < b3 + n3" using 3(6,9) 2(4) hd(3) by auto
    then show ?thesis using 4(5) [of b] 5(6) [of b] by (simp add: h'_def)
  qed (simp add: h'_def size_of_def)
  moreover have "poison_damage h' = poison_damage h" using 2(6) 3(8) 4(4) 5(5) by (simp add: h'_def h1_def)
  ultimately show ?thesis using run inv5 use by blast
qed

lemma kfree_twice:
  assumes "heap_inv h bs" and "(b, n) \<in> in_use bs" and "kfree (Some (b + HEADER)) h = (h', r)"
  shows "kfree (Some (b + HEADER)) h' = (h', True)"
  using kfree_correct [OF assms(1,2)] assms(3) by (auto simp: kfree_def is_free_def)


section \<open>Growing the heap\<close>

lemma expand_pages_result:
  assumes "PAGE_SIZE dvd heap_end h" and "PAGE_SIZE dvd old_end" and "old_end \<le> heap_end h"
  shows "\<exists>m. expand_pages got junk old_end i n h =
      (h\<lparr>heap_end := (if \<forall>j<n. got (i + j) then heap_end h + n * PAGE_SIZE else old_end), mem := m\<rparr>, \<forall>j<n. got (i + j))
    \<and> (\<forall>x<heap_end h. m x = mem h x)"
  using assms
proof (induction n arbitrary: i h)
  case (Suc n)
  show ?case
  proof (cases "got i")
    case True
    let ?h = "h\<lparr>heap_end := heap_end h + PAGE_SIZE, mem := (\<lambda>x. if heap_end h \<le> x \<and> x < heap_end h + PAGE_SIZE then junk x else mem h x)\<rparr>"
    define ok where "ok \<longleftrightarrow> (\<forall>j<n. got (i + 1 + j))"
    have all: "(\<forall>j<Suc n. got (i + j)) \<longleftrightarrow> ok" using True by (auto simp: less_Suc_eq_0_disj ok_def)
    have "PAGE_SIZE dvd heap_end ?h" "old_end \<le> heap_end ?h" using Suc.prems by simp_all
    from Suc.IH [OF this(1) Suc.prems(2) this(2), of "i + 1", folded ok_def]
    obtain m where "expand_pages got junk old_end (i + 1) n ?h = (?h\<lparr>heap_end := (if ok then heap_end ?h + n * PAGE_SIZE else old_end), mem := m\<rparr>, ok)"
      "\<forall>x<heap_end ?h. m x = mem ?h x" by blast
    then show ?thesis unfolding all using True by (intro exI [of _ m], cases ok) (simp_all add: add.assoc)
  next
    case False
    then have no: "(\<forall>j<Suc n. got (i + j)) = False" by force
    have "shrink_heap old_end h = h\<lparr>heap_end := old_end, mem := mem h\<rparr>"
      using shrink_heap_to [OF Suc.prems(1,2)] Suc.prems(3) by (simp add: min_def)
    then show ?thesis unfolding no using False by (intro exI [of _ "mem h"]) simp
  qed
next
  case 0
  then show ?case by (intro exI [of _ "mem h"]) simp
qed

lemma heap_inv_frame:
  assumes "heap_inv h bs" and "blocks h' = blocks h" "lnext h' = lnext h" "lprev h' = lprev h" "free_lists h' = free_lists h" "first_block h' = first_block h"
    "last_block h' = last_block h" "heap_end h' = heap_end h" "total_allocated h' = total_allocated h" and "free_poisoned h' bs"
  shows "heap_inv h' bs"
proof -
  have "laid h' KHEAP_START_VIRT 0 bs (heap_end h)" by (rule laid_frame [of h]) (use assms in \<open>auto simp: heap_inv_def\<close>)
  moreover have "lists_ok h' (free_of bs)" using assms by (subst lists_ok_cong [of h' h]) (auto simp: heap_inv_def)
  ultimately show ?thesis using assms by (simp add: heap_inv_def)
qed

lemma grow_hole:
  assumes inv: "heap_inv h bs" and bs: "bs = pre @ [(l, n, True)]" and a: "PAGE_SIZE dvd a"
    and h1: "h1 = poison (heap_end h) a (h\<lparr>heap_end := heap_end h + a, mem := m\<rparr>)" and m: "\<forall>x<heap_end h. m x = mem h x"
  shows "hole (set_size l (n + a) (unlink_free l h1)) pre l (n + a) []"
proof -
  have l: "laid h KHEAP_START_VIRT 0 bs (heap_end h)" and li: "lists_ok h (free_of bs)" and po: "free_poisoned h bs" and co: "coalesced bs" using inv by (simp_all add: heap_inv_def)
  note mid = l [unfolded bs laid_middle]
  have le: "l + n = heap_end h" using mid by simp
  have bl: "x < heap_end h \<Longrightarrow> blocks h1 x = blocks h x" for x by (simp add: h1)
  let ?h = "set_size l (n + a) (unlink_free l h1)"
  have "16 dvd a" using a dvd_trans [of 16 PAGE_SIZE a] by simp
  then have na: "16 dvd n + a" using mid by simp
  then have ev: "even (n + a)" by (rule dvd_trans [of 2 16, rotated]) simp
  have lpre: "laid ?h KHEAP_START_VIRT 0 pre l" by (rule laid_frame [of h]) (use mid bl le in auto)
  have sz: "size_of h1 l = n" using laid_header [OF l, of l n True] bl [of l] le mid by (simp add: bs size_of_def)
  have "lists_ok h1 (free_of bs)" using li by (subst lists_ok_cong [of h1 h]) (auto simp: h1)
  then have "lists_ok (unlink_free l h1) (free_of bs - {(l, n)})" by (rule unlink_free_lists) (use sz in \<open>simp_all add: bs\<close>)
  then have "lists_ok (unlink_free l h1) (free_of pre)" using others_free [of h _ 0 pre l n "[]"] l by (simp add: bs)
  then have "lists_ok ?h (free_of pre)" by (subst lists_ok_cong [of ?h "unlink_free l h1"]) auto
  moreover have "free_poisoned ?h pre"
    by (rule free_poisoned_frame [of h, OF _ lpre]) (use po m le in \<open>auto simp: bs h1\<close>)
  moreover have "poisoned (mem ?h) (l + MIN_BLOCK) (l + (n + a))"
  proof -
    have "poisoned (mem h) (l + MIN_BLOCK) (l + n)" using po by (simp add: bs)
    then have "poisoned (mem ?h) (l + MIN_BLOCK) (l + n)" by (rule poisoned_set) (use m le in \<open>auto simp: h1\<close>)
    moreover have "poisoned (mem ?h) (l + n) (l + (n + a))" using le by (auto simp: h1 poisoned_def)
    ultimately show ?thesis by (rule poisoned_join)
  qed
  moreover have "size_of ?h l = n + a" "prev_size (blocks ?h l) = last_size 0 pre" using ev mid bl [of l] le by (auto simp: size_of_def)
  moreover have "coalesced pre" "coalesced []" using co by (auto simp: bs coalesced_simps)
  ultimately show ?thesis unfolding hole_def using lpre mid inv le na a by (auto simp: h1 bs heap_inv_def)
qed

lemma grow_fresh:
  assumes inv: "heap_inv h bs" and a: "PAGE_SIZE dvd a" "0 < a" and l: "last_block h = Some l"
    and h1: "h1 = poison (heap_end h) a (h\<lparr>heap_end := heap_end h + a, mem := m\<rparr>)" and m: "\<forall>x<heap_end h. m x = mem h x"
  shows "hole ((set_prev_size (heap_end h) (size_of h1 l) (set_size (heap_end h) a h1))\<lparr>last_block := Some (heap_end h)\<rparr>) bs (heap_end h) a []"
proof -
  have la: "laid h KHEAP_START_VIRT 0 bs (heap_end h)" and li: "lists_ok h (free_of bs)" and po: "free_poisoned h bs" and ne: "bs \<noteq> []" and l2: "l = fst (last bs)"
    using inv l by (simp_all add: heap_inv_def)
  let ?h = "(set_prev_size (heap_end h) (size_of h1 l) (set_size (heap_end h) a h1))\<lparr>last_block := Some (heap_end h)\<rparr>"
  have a16: "16 dvd a" "even a" using a(1) dvd_trans [of 16 PAGE_SIZE a] dvd_trans [of 2 PAGE_SIZE a] by simp_all
  have ap: "PAGE_SIZE \<le> a" using a by (intro dvd_imp_le)
  obtain n f where lst: "last bs = (l, n, f)" using l2 by (cases "last bs") auto
  then have "(l, n, f) \<in> set bs" using last_in_set [OF ne] by simp
  then have "size_of h l = n" "l < heap_end h" using laid_header [OF la] laid_within [OF la] by fastforce+
  then have sz: "size_of h1 l = last_size 0 bs" using lst ne by (simp add: h1 size_of_def last_size_def)
  have lbs: "laid ?h KHEAP_START_VIRT 0 bs (heap_end h)" by (rule laid_frame [OF la]) (simp add: h1)
  have "lists_ok ?h (free_of bs)" using li by (subst lists_ok_cong [of ?h h]) (auto simp: h1)
  moreover have "free_poisoned ?h bs" by (rule free_poisoned_frame [OF po lbs]) (use m in \<open>auto simp: h1\<close>)
  moreover have "size_of ?h (heap_end h) = a" using a16 by (simp add: size_of_def)
  moreover have "poisoned (mem ?h) (heap_end h + MIN_BLOCK) (heap_end h + a)" by (simp add: h1 poisoned_def)
  ultimately show ?thesis unfolding hole_def using inv a a16 ap sz lbs by (auto simp: heap_inv_def h1 coalesced_simps)
qed


lemma heap_inv_last:
  assumes "heap_inv h bs"
  obtains pre l n f where "bs = pre @ [(l, n, f)]" "last_block h = Some l" "is_free h l = f" "size_of h l = n" "l < heap_end h"
proof -
  have la: "laid h KHEAP_START_VIRT 0 bs (heap_end h)" and ne: "bs \<noteq> []" and lb: "last_block h = Some (fst (last bs))" using assms by (simp_all add: heap_inv_def)
  obtain pre l n f where bs: "bs = pre @ [(l, n, f)]" using ne by (cases bs rule: rev_cases) auto
  have "size_of h l = n \<and> is_free h l = f \<and> MIN_BLOCK \<le> n" "l + n \<le> heap_end h" using laid_header [OF la, of l n f] laid_within [OF la, of l n f] by (simp_all add: bs)
  then show ?thesis using that [OF bs] lb by (simp add: bs)
qed

lemma heap_inv_memory:
  assumes "heap_inv h bs" and "\<forall>x<heap_end h. m x = mem h x"
  shows "heap_inv (h\<lparr>mem := m\<rparr>) bs"
proof (rule heap_inv_frame [OF assms(1)])
  have "laid h KHEAP_START_VIRT 0 bs (heap_end h)" "free_poisoned h bs" using assms(1) by (simp_all add: heap_inv_def)
  from free_poisoned_frame [OF this(2,1)] show "free_poisoned (h\<lparr>mem := m\<rparr>) bs" using assms(2) by simp
qed simp_all

lemma grow_for_correct:
  assumes inv: "heap_inv h bs" and small: "\<forall>(b, n)\<in>free_of bs. n < need"
  shows "(\<exists>h'. grow_for got junk need h = (h', False) \<and> heap_inv h' bs \<and> (\<forall>x<heap_end h. mem h' x = mem h x) \<and> poison_damage h' = poison_damage h \<and> (\<exists>i. \<not> got i))
    \<or> (\<exists>h' bs' b n. grow_for got junk need h = (h', True) \<and> heap_inv h' bs' \<and> in_use bs' = in_use bs \<and> (b, n) \<in> free_of bs' \<and> need \<le> n
      \<and> (\<forall>x<heap_end h. mem h' x = mem h x) \<and> poison_damage h' = poison_damage h \<and> heap_end h \<le> heap_end h')"
proof -
  obtain pre l n f where bs: "bs = pre @ [(l, n, f)]" and l: "last_block h = Some l" "is_free h l = f" "size_of h l = n" "l < heap_end h"
    using heap_inv_last [OF inv] by blast
  have dvd: "PAGE_SIZE dvd heap_end h" using inv by (simp add: heap_inv_def)
  define held where "held = (if f then n else 0)"
  define wanted where "wanted = (if need - held < GROW_MIN then GROW_MIN else need - held)"
  define k where "k = (wanted + PAGE_SIZE - 1) div PAGE_SIZE"
  have run: "grow_for got junk need h = (case expand_heap got junk wanted h of (h', False) \<Rightarrow> (h', False) | (h', True) \<Rightarrow> (add_pages l (heap_end h) h', True))"
    unfolding grow_for_def l(1) option.case Let_def wanted_def held_def l(2,3) by (rule refl)
  obtain m where ex: "expand_heap got junk wanted h = (h\<lparr>heap_end := (if \<forall>j<k. got j then heap_end h + k * PAGE_SIZE else heap_end h), mem := m\<rparr>, \<forall>j<k. got j)"
    and m: "\<forall>x<heap_end h. m x = mem h x"
    using expand_pages_result [OF dvd dvd order_refl, of got junk 0 k] by (auto simp: expand_heap_def k_def)
  show ?thesis
  proof (cases "\<forall>j<k. got j")
    case False
    then have no: "(\<forall>j<k. got j) = False" by simp
    have "grow_for got junk need h = (h\<lparr>heap_end := heap_end h, mem := m\<rparr>, False)"
      using run ex unfolding no by simp
    moreover have "heap_inv (h\<lparr>mem := m\<rparr>) bs" by (rule heap_inv_memory [OF inv m])
    ultimately show ?thesis using False m by auto
  next
    case True
    then have yes: "(\<forall>j<k. got j) = True" by simp
    define a where "a = k * PAGE_SIZE"
    have wa: "wanted \<le> a" by (simp add: a_def k_def)
    have a: "PAGE_SIZE dvd a" "0 < a" "need \<le> held + a" using wa by (auto simp: a_def wanted_def split: if_splits)
    define h1 where "h1 = poison (heap_end h) a (h\<lparr>heap_end := heap_end h + a, mem := m\<rparr>)"
    have hl: "is_free h1 l = f" "size_of h1 l = n" using l by (simp_all add: h1_def is_free_def size_of_def)
    have m1: "\<forall>x<heap_end h. mem h1 x = mem h x" using m by (simp add: h1_def)
    show ?thesis
    proof (cases f)
      case True
      then have "bs = pre @ [(l, n, True)]" by (simp add: bs)
      note hole = grow_hole [OF inv this a(1) h1_def m]
      define h2 where "h2 = set_size l (n + a) (unlink_free l h1)"
      have "size_of (unlink_free l h1) l = n" using hl by (simp add: size_of_def)
      then have "grow_for got junk need h = (insert_free l h2, True)"
        using run ex hl True unfolding yes by (simp add: add_pages_def Let_def a_def [symmetric] h1_def [symmetric] h2_def)
      moreover have "heap_inv (insert_free l h2) (pre @ [(l, n + a, True)])"
      proof (rule hole_close [of h2 pre l "n + a" "[]"])
        show "pre = [] \<or> \<not> snd (snd (last pre))" using inv True by (auto simp: heap_inv_def bs coalesced_simps)
        show "laid h2 (l + (n + a)) (n + a) [] (heap_end h2)" using hole_parts(6) [OF hole] by (simp add: h2_def)
      qed (use hole in \<open>simp_all add: h2_def\<close>)
      moreover have "need \<le> n + a" using a(3) True by (simp add: held_def)
      ultimately show ?thesis using True m1
        by (intro disjI2, rule_tac exI [of _ "insert_free l h2"], rule_tac exI [of _ "pre @ [(l, n + a, True)]"], rule_tac exI [of _ l], rule_tac exI [of _ "n + a"])
          (simp add: h2_def bs, simp add: h1_def)
    next
      case False
      note hole = grow_fresh [OF inv a(1,2) l(1) h1_def m]
      define h2 where "h2 = (set_prev_size (heap_end h) (size_of h1 l) (set_size (heap_end h) a h1))\<lparr>last_block := Some (heap_end h)\<rparr>"
      have "grow_for got junk need h = (insert_free (heap_end h) h2, True)"
        using run ex hl False unfolding yes by (simp add: add_pages_def Let_def a_def [symmetric] h1_def [symmetric] h2_def)
      moreover have "heap_inv (insert_free (heap_end h) h2) (bs @ [(heap_end h, a, True)])"
      proof (rule hole_close [of h2 bs "heap_end h" a "[]"])
        show "bs = [] \<or> \<not> snd (snd (last bs))" using False by (simp add: bs)
        show "laid h2 (heap_end h + a) a [] (heap_end h2)" using hole_parts(6) [OF hole] by (simp add: h2_def)
      qed (use hole in \<open>simp_all add: h2_def\<close>)
      moreover have "need \<le> a" using a(3) False by (simp add: held_def)
      ultimately show ?thesis using m1
        by (intro disjI2, rule_tac exI [of _ "insert_free (heap_end h) h2"], rule_tac exI [of _ "bs @ [(heap_end h, a, True)]"], rule_tac exI [of _ "heap_end h"], rule_tac exI [of _ a])
          (simp add: h2_def, simp add: h1_def)
    qed
  qed
qed


section \<open>Allocating\<close>

lemma block_need_bounds: "n + HEADER \<le> block_need n" "MIN_BLOCK \<le> block_need n" "16 dvd block_need n" "n \<le> KHEAP_MAX_ALLOC \<Longrightarrow> block_need n < 2 ^ 47"
proof -
  have "n \<le> ALIGN n" "ALIGN n \<le> n + 15" "16 dvd ALIGN n" by (simp_all add: ALIGN_def)
  then show "n + HEADER \<le> block_need n" "MIN_BLOCK \<le> block_need n" "16 dvd block_need n" "n \<le> KHEAP_MAX_ALLOC \<Longrightarrow> block_need n < 2 ^ 47"
    by (auto simp: block_need_def Let_def)
qed

lemma heap_inv_free_sizes: "heap_inv h bs \<Longrightarrow> \<forall>(b, n)\<in>free_of bs. size_of h b = n \<and> 0 < n"
  using laid_header [of h _ 0 bs "heap_end h" _ _ True] by (fastforce simp: heap_inv_def free_of_def)

lemma free_not_in_use: "heap_inv h bs \<Longrightarrow> (b, n) \<in> free_of bs \<Longrightarrow> b \<notin> fst ` in_use bs"
  using laid_unique [of h _ 0 bs "heap_end h" b n True _ False] by (auto simp: heap_inv_def free_of_def in_use_def)

text \<open>What an allocation does to the heap: nothing but finding out that there is no memory, or one more block in use.\<close>

definition allocates :: "heap \<Rightarrow> layout \<Rightarrow> nat \<Rightarrow> heap \<Rightarrow> nat \<Rightarrow> layout \<Rightarrow> bool" where
  "allocates h bs n h' b bs' \<longleftrightarrow> heap_inv h' bs' \<and> b \<notin> fst ` in_use bs \<and> (\<exists>k. in_use bs' = insert (b, k) (in_use bs) \<and> n + HEADER \<le> k)
     \<and> (\<forall>x<heap_end h. mem h' x = mem h x) \<and> poison_damage h' = poison_damage h"

lemma take_and_hand_out:
  assumes inv: "heap_inv h bs" and n: "n \<le> KHEAP_MAX_ALLOC"
  shows "(take_free (block_need n) h = Some (h, None) \<and> (\<forall>(b, m)\<in>free_of bs. m < block_need n))
    \<or> (\<exists>b h' bs'. take_free (block_need n) h = Some (unlink_free b h, Some b) \<and> hand_out (block_need n) b (unlink_free b h) = (h', Pointer (b + HEADER))
      \<and> allocates h bs n h' b bs')"
proof -
  note need = block_need_bounds [of n]
  have li: "lists_ok h (free_of bs)" using inv by (simp add: heap_inv_def)
  consider "take_free (block_need n) h = Some (h, None)" "\<forall>(b, m)\<in>free_of bs. m < block_need n"
    | b m where "(b, m) \<in> free_of bs" "block_need n \<le> m" "take_free (block_need n) h = Some (unlink_free b h, Some b)"
    using take_free_lists [OF li heap_inv_free_sizes [OF inv], of "block_need n"] need n by auto
  then show ?thesis
  proof cases
    case 2
    obtain h' bs' k where h': "hand_out (block_need n) b (unlink_free b h) = (h', Pointer (b + HEADER))" "heap_inv h' bs'" "in_use bs' = insert (b, k) (in_use bs)"
      "block_need n \<le> k" "mem h' = mem h" "poison_damage h' = poison_damage h"
      using hand_out_correct [OF inv 2(1) need(2,3) 2(2)] by blast
    have "n + HEADER \<le> k" using need(1) h'(4) by (rule order_trans)
    then have "allocates h bs n h' b bs'" using h' free_not_in_use [OF inv 2(1)] by (auto simp: allocates_def)
    then show ?thesis using 2(3) h'(1) by blast
  qed blast
qed

lemma kmalloc_correct:
  assumes inv: "heap_inv h bs"
  shows "(\<exists>h'. kmalloc got junk n h = Some (h', NULL) \<and> heap_inv h' bs \<and> (\<forall>x<heap_end h. mem h' x = mem h x) \<and> poison_damage h' = poison_damage h
      \<and> (n = 0 \<or> KHEAP_MAX_ALLOC < n \<or> (\<exists>i. \<not> got i)))
    \<or> (\<exists>h' b bs'. kmalloc got junk n h = Some (h', Pointer (b + HEADER)) \<and> 0 < n \<and> allocates h bs n h' b bs')"
proof (cases "n = 0 \<or> KHEAP_MAX_ALLOC < n")
  case True
  then have "kmalloc got junk n h = Some (h, NULL)" by (auto simp: kmalloc_def)
  then show ?thesis using inv True by blast
next
  case False
  have fb: "first_block h \<noteq> None" using inv by (simp add: heap_inv_def)
  consider (taken) b h' bs' where "take_free (block_need n) h = Some (unlink_free b h, Some b)" "hand_out (block_need n) b (unlink_free b h) = (h', Pointer (b + HEADER))"
      "allocates h bs n h' b bs'"
    | (full) "take_free (block_need n) h = Some (h, None)" "\<forall>(b, m)\<in>free_of bs. m < block_need n"
    using take_and_hand_out [OF inv, of n] False by (auto simp: not_less)
  then show ?thesis
  proof cases
    case taken
    then show ?thesis using False fb by (auto simp: kmalloc_def Let_def)
  next
    case full
    consider (no) h1 where "grow_for got junk (block_need n) h = (h1, False)" "heap_inv h1 bs" "\<forall>x<heap_end h. mem h1 x = mem h x" "poison_damage h1 = poison_damage h" "\<exists>i. \<not> got i"
      | (grown) h1 bs1 b m where "grow_for got junk (block_need n) h = (h1, True)" "heap_inv h1 bs1" "in_use bs1 = in_use bs" "(b, m) \<in> free_of bs1" "block_need n \<le> m"
        "\<forall>x<heap_end h. mem h1 x = mem h x" "poison_damage h1 = poison_damage h" "heap_end h \<le> heap_end h1"
      using grow_for_correct [OF inv full(2), of got junk] by blast
    then show ?thesis
    proof cases
      case no
      let ?h = "h1\<lparr>failed_allocations := failed_allocations h1 + 1\<rparr>"
      have "heap_inv ?h bs" by (rule heap_inv_frame [OF no(2)]) (use no(2) in \<open>simp_all add: heap_inv_def free_poisoned_def\<close>)
      then show ?thesis using no full(1) False fb by (auto simp: kmalloc_def Let_def)
    next
      case grown
      have "\<not> (\<forall>(b, m)\<in>free_of bs1. m < block_need n)" using grown(4,5) by force
      then obtain c h' bs' where c: "take_free (block_need n) h1 = Some (unlink_free c h1, Some c)" "hand_out (block_need n) c (unlink_free c h1) = (h', Pointer (c + HEADER))"
        "allocates h1 bs1 n h' c bs'"
        using take_and_hand_out [OF grown(2), of n] False by (auto simp: not_less)
      have run: "kmalloc got junk n h = Some (h', Pointer (c + HEADER))" using full(1) grown(1) c(1,2) False fb by (simp add: kmalloc_def Let_def)
      have "allocates h bs n h' c bs'" using c(3) grown(3,6-8) by (auto simp: allocates_def)
      then show ?thesis using run False by auto
    qed
  qed
qed


section \<open>The check accepts every such heap\<close>

lemma check_block_laid:
  assumes "laid h a q ((b, n, f) # bs) (heap_end h)" and "last_block h = Some (fst (last ((b, n, f) # bs)))" and "free_poisoned h [(b, n, f)]"
    and "s_ok c" "s_prev_size c = q" "\<not> (s_prev_free c \<and> f)"
  shows "check_block h b c = \<lparr>s_ok = True, s_free = s_free c + of_bool f, s_bytes = s_bytes c + used_bytes [(b, n, f)], s_prev_size = n, s_prev_free = f\<rparr>"
proof -
  have hd: "size_of h b = n" "is_free h b = f" "MIN_BLOCK \<le> n" "16 dvd n" "b + n \<le> heap_end h" "prev_size (blocks h b) = q"
    using laid_header [OF assms(1), of b n f] laid_within [OF assms(1), of b n f] assms(1) by auto
  have "last_block h = Some b \<longleftrightarrow> bs = []" using next_block_laid(2) [of h a q "[]" b n f bs "heap_end h"] assms(1,2) by (metis append_Nil)
  then have "last_block h = Some b \<Longrightarrow> b + n = heap_end h" using assms(1) by auto
  moreover have "f \<Longrightarrow> first_unpoisoned h (b + MIN_BLOCK) (n - MIN_BLOCK) = None" using assms(3) hd(3) by (simp add: first_unpoisoned_None)
  ultimately show ?thesis using hd assms(4-6) by (cases f) (auto simp: check_block_def Let_def mod_eq_0_iff_dvd)
qed

lemma check_blocks_laid:
  assumes "laid h a q bs (heap_end h)" and "bs \<noteq> [] \<Longrightarrow> last_block h = Some (fst (last bs))" and "free_poisoned h bs" and "coalesced bs"
    and "s_ok c" "s_prev_size c = q" "s_prev_free c \<Longrightarrow> bs = [] \<or> \<not> snd (snd (hd bs))"
  shows "\<exists>c'. check_blocks h (if bs = [] then None else Some a) c = Some c' \<and> s_ok c' \<and> s_free c' = s_free c + length (filter (\<lambda>x. snd (snd x)) bs)
    \<and> s_bytes c' = s_bytes c + used_bytes bs"
  using assms
proof (induction bs arbitrary: a q c)
  case Nil
  then show ?case by (simp add: check_blocks.simps)
next
  case (Cons x bs)
  obtain b n f where x: "x = (b, n, f)" by (cases x)
  note l = Cons.prems(1) [unfolded x]
  have la: "last_block h = Some (fst (last ((b, n, f) # bs)))" using Cons.prems(2) x by simp
  have fp: "free_poisoned h [(b, n, f)]" "free_poisoned h bs" using Cons.prems(3) x by (cases f; simp)+
  define c1 where "c1 = check_block h b c"
  have c1: "c1 = \<lparr>s_ok = True, s_free = s_free c + of_bool f, s_bytes = s_bytes c + used_bytes [(b, n, f)], s_prev_size = n, s_prev_free = f\<rparr>"
    unfolding c1_def by (rule check_block_laid [OF l la fp(1)]) (use Cons.prems(5-7) x in auto)
  have nb: "next_block h b = (if bs = [] then None else Some (b + n))" using next_block_laid(1) [of h a q "[]" b n f bs "heap_end h"] l la by (metis append_Nil)
  have "\<exists>c'. check_blocks h (if bs = [] then None else Some (b + n)) c1 = Some c' \<and> s_ok c' \<and> s_free c' = s_free c1 + length (filter (\<lambda>x. snd (snd x)) bs)
    \<and> s_bytes c' = s_bytes c1 + used_bytes bs"
    by (rule Cons.IH [of _ n]) (use l la fp(2) Cons.prems(4) c1 x in \<open>auto simp: coalesced_simps\<close>)
  moreover have "check_blocks h (Some a) c = check_blocks h (next_block h b) c1"
    using Cons.prems(5) l by (subst check_blocks.simps) (simp add: c1_def)
  ultimately show ?case using c1 nb x by auto
qed

lemma check_list_chain:
  assumes "chain (lnext h) (lprev h) prev p xs" and "\<forall>x\<in>set xs. is_free h x \<and> class_of (size_of h x) = k" and "listed + length xs \<le> free_blocks"
  shows "check_list h k free_blocks prev p listed = Some (True, listed + length xs)"
  using assms
proof (induction xs arbitrary: prev p listed)
  case Nil
  then show ?case by (simp add: check_list.simps)
next
  case (Cons x xs)
  have "check_list h k free_blocks (Some x) (lnext h x) (listed + 1) = Some (True, listed + 1 + length xs)"
    by (rule Cons.IH) (use Cons.prems in auto)
  then show ?case using Cons.prems by (subst check_list.simps) simp
qed

lemma check_lists_ok:
  assumes li: "lists_ok h F" and F: "\<forall>(b, n)\<in>F. is_free h b \<and> size_of h b = n" and ks: "\<forall>k\<in>set ks. k < CLASSES"
    and le: "listed + sum_list (map (\<lambda>k. card (members F k)) ks) \<le> free_blocks"
  shows "check_lists h free_blocks ks listed = Some (True, listed + sum_list (map (\<lambda>k. card (members F k)) ks))"
  using ks le
proof (induction ks arbitrary: listed)
  case (Cons k ks)
  obtain xs where xs: "distinct xs" "set xs = members F k" "chain (lnext h) (lprev h) None (free_lists h k) xs"
    using li Cons.prems(1) by (auto simp: lists_ok_def)
  have len: "length xs = card (members F k)" using distinct_card [OF xs(1)] xs(2) by simp
  have "\<forall>x\<in>set xs. is_free h x \<and> class_of (size_of h x) = k" using F unfolding xs(2) by (auto simp: members_def)
  then have "check_list h k free_blocks None (free_lists h k) listed = Some (True, listed + length xs)"
    by (rule check_list_chain [OF xs(3)]) (use Cons.prems(2) len in simp)
  then show ?case using Cons.IH [of "listed + length xs"] Cons.prems len by (simp add: add.assoc)
qed simp

lemma members_count:
  assumes "inj_on fst F" and "finite F"
  shows "sum_list (map (\<lambda>k. card (members F k)) [0 ..< CLASSES]) = card F"
proof -
  define G where "G k = {x \<in> F. class_of (snd x) = k}" for k
  have "members F k = fst ` G k" for k by (force simp: members_def G_def)
  moreover have "inj_on fst (G k)" for k by (rule inj_on_subset [OF assms(1)]) (auto simp: G_def)
  ultimately have card: "card (members F k) = card (G k)" for k by (simp add: card_image)
  have "F = (\<Union>k\<in>{0 ..< CLASSES}. G k)" using class_of_less by (auto simp: G_def)
  moreover have "card (\<Union>k\<in>{0 ..< CLASSES}. G k) = (\<Sum>k\<in>{0 ..< CLASSES}. card (G k))"
    by (rule card_UN_disjoint) (use assms(2) in \<open>auto simp: G_def\<close>)
  moreover have "sum_list (map (\<lambda>k. card (members F k)) [0 ..< CLASSES]) = (\<Sum>k\<in>{0 ..< CLASSES}. card (members F k))"
    by (simp only: sum_set_upt_conv_sum_list_nat [symmetric] atLeastLessThan_upt)
  ultimately show ?thesis unfolding card by (simp only:)
qed

lemma laid_distinct: "laid h a q bs e \<Longrightarrow> distinct bs"
proof (induction bs arbitrary: a q)
  case (Cons x bs)
  obtain b n f where x: "x = (b, n, f)" by (cases x)
  have "x \<notin> set bs" using laid_within [of h "a + n" n bs e b n f] Cons.prems by (auto simp: x)
  then show ?case using Cons x by auto
qed simp

lemma card_free_of: "laid h a q bs e \<Longrightarrow> card (free_of bs) = length (filter (\<lambda>x. snd (snd x)) bs)"
proof -
  assume l: "laid h a q bs e"
  have "free_of bs = (\<lambda>x. (fst x, fst (snd x))) ` set (filter (\<lambda>x. snd (snd x)) bs)" by (force simp: free_of_def)
  moreover have "inj_on (\<lambda>x. (fst x, fst (snd x))) (set (filter (\<lambda>x. snd (snd x)) bs))" by (auto intro!: inj_onI)
  ultimately show ?thesis using laid_distinct [OF l] by (simp add: card_image distinct_card [symmetric])
qed

lemma kheap_check_ok:
  assumes inv: "heap_inv h bs"
  shows "kheap_check h = Some True"
proof -
  have p: "bs \<noteq> []" "laid h KHEAP_START_VIRT 0 bs (heap_end h)" "first_block h = Some KHEAP_START_VIRT" "last_block h = Some (fst (last bs))" "coalesced bs"
    "lists_ok h (free_of bs)" "free_poisoned h bs" "total_allocated h = used_bytes bs" using inv by (simp_all add: heap_inv_def)
  define c where "c = \<lparr>s_ok = first_block h \<noteq> None, s_free = 0, s_bytes = 0, s_prev_size = 0, s_prev_free = False\<rparr>"
  have "\<exists>c'. check_blocks h (if bs = [] then None else Some KHEAP_START_VIRT) c = Some c' \<and> s_ok c' \<and> s_free c' = s_free c + length (filter (\<lambda>x. snd (snd x)) bs)
    \<and> s_bytes c' = s_bytes c + used_bytes bs"
    by (rule check_blocks_laid [OF p(2)]) (use p in \<open>simp_all add: c_def\<close>)
  then obtain c' where c': "check_blocks h (first_block h) c = Some c'" "s_ok c'" "s_free c' = card (free_of bs)" "s_bytes c' = used_bytes bs"
    using p(1,3) card_free_of [OF p(2)] by (auto simp: c_def)
  have F: "\<forall>(b, n)\<in>free_of bs. is_free h b \<and> size_of h b = n" using laid_header [OF p(2)] by (auto simp: free_of_def)
  have fin: "finite (free_of bs)" by (rule finite_subset [of _ "(\<lambda>x. (fst x, fst (snd x))) ` set bs"]) (force simp: free_of_def)+
  have sum: "sum_list (map (\<lambda>k. card (members (free_of bs) k)) [0 ..< CLASSES]) = card (free_of bs)"
    by (rule members_count [OF _ fin]) (use p(6) in \<open>simp add: lists_ok_def\<close>)
  have "check_lists h (s_free c') [0 ..< CLASSES] 0 = Some (True, 0 + sum_list (map (\<lambda>k. card (members (free_of bs) k)) [0 ..< CLASSES]))"
    by (rule check_lists_ok [OF p(6) F]) (simp_all only: sum c'(3), simp_all)
  then have "check_lists h (s_free c') [0 ..< CLASSES] 0 = Some (True, card (free_of bs))" by (simp only: sum add_0)
  then show ?thesis using c' p(8) unfolding kheap_check_def c_def [symmetric] by (simp del: upt.simps upt_rec_numeral)
qed


section \<open>Runs of the allocator\<close>

lemma poison_insert_free: "b < a \<Longrightarrow> poison a n (insert_free b h) = insert_free b (poison a n h)"
  by (auto simp: insert_free_def poison_def set_size_def size_of_def Let_def fun_eq_iff split: option.splits)

lemma kheap_init_inv:
  assumes "\<forall>i<256. got i"
  shows "heap_inv (kheap_init got junk (heap_boot m)) [(KHEAP_START_VIRT, KHEAP_INITIAL_SIZE, True)]" and "poison_damage (kheap_init got junk (heap_boot m)) = 0"
proof -
  let ?h = "heap_boot m"
  have yes: "(\<forall>i<256. got (0 + i)) = True" using assms by simp
  have dvd: "PAGE_SIZE dvd heap_end ?h" by (simp add: heap_boot_def)
  obtain m' where "expand_pages got junk (heap_end ?h) 0 256 ?h = (?h\<lparr>heap_end := heap_end ?h + 256 * PAGE_SIZE, mem := m'\<rparr>, True)"
    using expand_pages_result [OF dvd dvd order_refl, of got junk 0 256] unfolding yes by auto
  then have ex: "expand_heap got junk KHEAP_INITIAL_SIZE ?h = (?h\<lparr>heap_end := KHEAP_START_VIRT + KHEAP_INITIAL_SIZE, mem := m'\<rparr>, True)"
    by (simp add: expand_heap_def heap_boot_def)
  define h1 where "h1 = set_prev_size KHEAP_START_VIRT 0 (set_size KHEAP_START_VIRT KHEAP_INITIAL_SIZE
    (?h\<lparr>heap_end := KHEAP_START_VIRT + KHEAP_INITIAL_SIZE, mem := m', first_block := Some KHEAP_START_VIRT, last_block := Some KHEAP_START_VIRT\<rparr>))"
  define h2 where "h2 = poison (KHEAP_START_VIRT + MIN_BLOCK) (KHEAP_INITIAL_SIZE - MIN_BLOCK) h1"
  have "size_of (insert_free KHEAP_START_VIRT h1) KHEAP_START_VIRT = KHEAP_INITIAL_SIZE" by (simp add: size_of_def h1_def)
  then have run: "kheap_init got junk ?h = insert_free KHEAP_START_VIRT h2"
    using ex by (simp add: kheap_init_def Let_def h2_def poison_insert_free) (simp add: h1_def)
  have "lists_ok h2 {}" by (auto simp: lists_ok_def members_def h2_def h1_def heap_boot_def)
  moreover have "size_of h2 KHEAP_START_VIRT = KHEAP_INITIAL_SIZE" by (simp add: h2_def h1_def size_of_def)
  moreover have "poisoned (mem h2) (KHEAP_START_VIRT + MIN_BLOCK) (KHEAP_START_VIRT + KHEAP_INITIAL_SIZE)" by (simp add: h2_def poisoned_def)
  ultimately have hl: "hole h2 [] KHEAP_START_VIRT KHEAP_INITIAL_SIZE []"
    by (simp add: hole_def coalesced_def) (simp add: h2_def h1_def heap_boot_def)
  have "heap_end h2 = KHEAP_START_VIRT + KHEAP_INITIAL_SIZE" by (simp add: h2_def h1_def)
  from hole_close [OF hl] this show "heap_inv (kheap_init got junk ?h) [(KHEAP_START_VIRT, KHEAP_INITIAL_SIZE, True)]" unfolding run by simp
  show "poison_damage (kheap_init got junk ?h) = 0" unfolding run by (simp add: h2_def h1_def heap_boot_def)
qed

text \<open>
  A run from boot: allocations, frees of live allocations and stores into live allocations in any order, with pages had or
  not for each call. Beside the heap it keeps the live allocations, by pointer and requested size, and what was last
  stored at an address of a live allocation.
\<close>

inductive heap_run :: "heap \<Rightarrow> (nat \<times> nat) set \<Rightarrow> (nat \<Rightarrow> u8 option) \<Rightarrow> bool" where
  boot: "\<forall>i<256. got i \<Longrightarrow> heap_run (kheap_init got junk (heap_boot m)) {} (\<lambda>_. None)"
| alloc: "heap_run h live val \<Longrightarrow> kmalloc got junk n h = Some (h', Pointer p) \<Longrightarrow>
    heap_run h' (insert (p, n) live) (\<lambda>x. if p \<le> x \<and> x < p + n then None else val x)"
| refused: "heap_run h live val \<Longrightarrow> kmalloc got junk n h = Some (h', NULL) \<Longrightarrow> heap_run h' live val"
| free: "heap_run h live val \<Longrightarrow> (p, n) \<in> live \<Longrightarrow> kfree (Some p) h = (h', r) \<Longrightarrow> heap_run h' (live - {(p, n)}) val"
| free_null: "heap_run h live val \<Longrightarrow> kfree None h = (h', r) \<Longrightarrow> heap_run h' live val"
| store: "heap_run h live val \<Longrightarrow> (p, n) \<in> live \<Longrightarrow> p \<le> x \<Longrightarrow> x < p + n \<Longrightarrow> heap_run (h\<lparr>mem := (mem h)(x := v)\<rparr>) live (val(x := Some v))"

text \<open>Every live allocation lies in a block in use of its own.\<close>

definition run_inv :: "heap \<Rightarrow> (nat \<times> nat) set \<Rightarrow> (nat \<Rightarrow> u8 option) \<Rightarrow> layout \<Rightarrow> bool" where
  "run_inv h live val bs \<longleftrightarrow> heap_inv h bs \<and> poison_damage h = 0 \<and> inj_on fst live \<and> (\<forall>(p, n)\<in>live. \<exists>b k. p = b + HEADER \<and> n + HEADER \<le> k \<and> (b, k) \<in> in_use bs)
     \<and> (\<forall>(p, n)\<in>live. \<forall>x v. p \<le> x \<longrightarrow> x < p + n \<longrightarrow> val x = Some v \<longrightarrow> mem h x = v)"

lemma run_invI:
  assumes "heap_inv h bs" and "\<And>q m. (q, m) \<in> live \<Longrightarrow> \<exists>b k. q = b + HEADER \<and> m + HEADER \<le> k \<and> (b, k) \<in> in_use bs"
    and "\<And>q m x v. (q, m) \<in> live \<Longrightarrow> q \<le> x \<Longrightarrow> x < q + m \<Longrightarrow> val x = Some v \<Longrightarrow> mem h x = v"
    and "poison_damage h = 0" and "inj_on fst live"
  shows "run_inv h live val bs"
  unfolding run_inv_def using assms by auto

lemma in_use_facts:
  assumes "heap_inv h bs" and "(b, n) \<in> in_use bs"
  shows "KHEAP_START_VIRT \<le> b" "b + n \<le> heap_end h" "MIN_BLOCK \<le> n"
proof -
  have l: "laid h KHEAP_START_VIRT 0 bs (heap_end h)" "(b, n, False) \<in> set bs" using assms by (simp_all add: heap_inv_def in_use_def)
  then show "KHEAP_START_VIRT \<le> b" "b + n \<le> heap_end h" "MIN_BLOCK \<le> n" using laid_within [OF l] laid_header [OF l] by simp_all
qed

lemma in_use_disjoint: "heap_inv h bs \<Longrightarrow> (b, n) \<in> in_use bs \<Longrightarrow> (c, m) \<in> in_use bs \<Longrightarrow> (b = c \<and> n = m) \<or> b + n \<le> c \<or> c + m \<le> b"
  using laid_disjoint [of h KHEAP_START_VIRT 0 bs "heap_end h" b n False c m False] by (simp add: heap_inv_def in_use_def)

lemma in_use_aligned: "heap_inv h bs \<Longrightarrow> (b, n) \<in> in_use bs \<Longrightarrow> 16 dvd b"
proof -
  have "16 dvd a \<Longrightarrow> laid h a q bs e \<Longrightarrow> (b, n, f) \<in> set bs \<Longrightarrow> 16 dvd b" for a q e f and bs :: layout
  proof (induction bs arbitrary: a q)
    case (Cons x bs)
    then show ?case by (cases x) (auto intro: dvd_add)
  qed simp
  from this [of KHEAP_START_VIRT 0] show "heap_inv h bs \<Longrightarrow> (b, n) \<in> in_use bs \<Longrightarrow> 16 dvd b" by (auto simp: heap_inv_def in_use_def)
qed


lemma run_inv_alloc:
  assumes inv: "run_inv h live val bs" and al: "allocates h bs n h' b bs'"
  shows "run_inv h' (insert (b + HEADER, n) live) (\<lambda>x. if b + HEADER \<le> x \<and> x < b + HEADER + n then None else val x) bs'"
proof -
  obtain k where k: "in_use bs' = insert (b, k) (in_use bs)" "n + HEADER \<le> k" and b: "b \<notin> fst ` in_use bs" and hi: "heap_inv h' bs'"
    and mem: "\<forall>x<heap_end h. mem h' x = mem h x" and pd: "poison_damage h' = poison_damage h" using al by (auto simp: allocates_def)
  have old: "\<exists>c j. q = c + HEADER \<and> m + HEADER \<le> j \<and> (c, j) \<in> in_use bs" if "(q, m) \<in> live" for q m using inv that by (auto simp: run_inv_def)
  have new: "q \<noteq> b + HEADER" if "(q, m) \<in> live" for q m using old [OF that] b by (auto simp: image_iff)
  have "inj_on fst (insert (b + HEADER, n) live)" using inv new by (auto simp: run_inv_def dest: new)
  moreover have "mem h' x = v" if l: "(q, m) \<in> live" and x: "q \<le> x" "x < q + m" "val x = Some v" for q m x v
  proof -
    obtain c j where c: "q = c + HEADER" "m + HEADER \<le> j" "(c, j) \<in> in_use bs" using old [OF l] by blast
    have "c + j \<le> heap_end h" using in_use_facts(2) [OF _ c(3)] inv by (auto simp: run_inv_def)
    then have "mem h' x = mem h x" using mem c(1,2) x(2) by auto
    then show ?thesis using inv l x by (auto simp: run_inv_def)
  qed
  ultimately show ?thesis unfolding run_inv_def using hi pd inv k old by (fastforce simp: run_inv_def split: if_splits)
qed

lemma run_inv_free:
  assumes inv: "run_inv h live val bs" and p: "(p, n) \<in> live" and run: "kfree (Some p) h = (h', r)"
  shows "\<exists>bs'. run_inv h' (live - {(p, n)}) val bs' \<and> \<not> r"
proof -
  have old: "\<exists>c j. q = c + HEADER \<and> m + HEADER \<le> j \<and> (c, j) \<in> in_use bs" if "(q, m) \<in> live" for q m using inv that by (auto simp: run_inv_def)
  have hi: "heap_inv h bs" and inj: "inj_on fst live" using inv by (simp_all add: run_inv_def)
  obtain b k where b: "p = b + HEADER" "(b, k) \<in> in_use bs" using old [OF p] by blast
  obtain bs' where bs': "heap_inv h' bs'" "in_use bs' = in_use bs - {(b, k)}" "poison_damage h' = poison_damage h" "\<not> r"
    and mem: "\<forall>(c, m)\<in>in_use bs'. \<forall>x. c \<le> x \<longrightarrow> x < c + m \<longrightarrow> mem h' x = mem h x"
    using kfree_correct [OF hi b(2)] run b(1) by auto
  have kept: "\<exists>c j. q = c + HEADER \<and> m + HEADER \<le> j \<and> (c, j) \<in> in_use bs'" if l: "(q, m) \<in> live - {(p, n)}" for q m
  proof -
    obtain c j where c: "q = c + HEADER" "m + HEADER \<le> j" "(c, j) \<in> in_use bs" using old [of q m] l by blast
    have "q \<noteq> p" using inj_onD [OF inj, of "(q, m)" "(p, n)"] l p by auto
    then show ?thesis using c b(1) bs'(2) by auto
  qed
  have same: "mem h' x = v" if l: "(q, m) \<in> live - {(p, n)}" and x: "q \<le> x" "x < q + m" "val x = Some v" for q m x v
  proof -
    obtain c j where c: "q = c + HEADER" "m + HEADER \<le> j" "(c, j) \<in> in_use bs'" using kept [OF l] by blast
    have "c \<le> x" "x < c + j" using c(1,2) x(1,2) by auto
    then have "mem h' x = mem h x" using mem c(3) by blast
    then show ?thesis using inv l x by (auto simp: run_inv_def)
  qed
  have "run_inv h' (live - {(p, n)}) val bs'"
    by (rule run_invI [OF bs'(1) kept same]) (use bs'(3) inv inj_on_subset [OF inj, of "live - {(p, n)}"] in \<open>auto simp: run_inv_def\<close>)
  then show ?thesis using bs'(4) by blast
qed

lemma run_inv_store:
  assumes inv: "run_inv h live val bs" and p: "(p, n) \<in> live" and x: "p \<le> x" "x < p + n"
  shows "run_inv (h\<lparr>mem := (mem h)(x := v)\<rparr>) live (val(x := Some v)) bs"
proof -
  have hi: "heap_inv h bs" using inv by (simp add: run_inv_def)
  obtain b k where b: "p = b + HEADER" "n + HEADER \<le> k" "(b, k) \<in> in_use bs" using inv p by (auto simp: run_inv_def)
  have "free_poisoned (h\<lparr>mem := (mem h)(x := v)\<rparr>) bs"
    unfolding free_poisoned_def
  proof (clarify)
    fix c m
    assume c: "(c, m) \<in> free_of bs"
    have "b + k \<le> c \<or> c + m \<le> b"
      using laid_disjoint [of h KHEAP_START_VIRT 0 bs "heap_end h" b k False c m True] hi b(3) c by (auto simp: heap_inv_def in_use_def free_of_def)
    then have "x < c \<or> c + m \<le> x" using b(1,2) x by auto
    moreover have "poisoned (mem h) (c + MIN_BLOCK) (c + m)" using hi c by (auto simp: heap_inv_def free_poisoned_def)
    ultimately show "poisoned (mem (h\<lparr>mem := (mem h)(x := v)\<rparr>)) (c + MIN_BLOCK) (c + m)" by (auto simp: poisoned_def)
  qed
  then have "heap_inv (h\<lparr>mem := (mem h)(x := v)\<rparr>) bs" by (intro heap_inv_frame [OF hi]) simp_all
  then show ?thesis using inv by (auto simp: run_inv_def)
qed

lemma heap_run_inv: "heap_run h live val \<Longrightarrow> \<exists>bs. run_inv h live val bs"
proof (induction rule: heap_run.induct)
  case (boot got junk m)
  then show ?case using kheap_init_inv [OF boot] by (auto simp: run_inv_def)
next
  case (alloc h live val got junk n h' p)
  then obtain bs where inv: "run_inv h live val bs" by blast
  then have "heap_inv h bs" by (simp add: run_inv_def)
  from kmalloc_correct [OF this, of got junk n] alloc.hyps(2) obtain b bs' where "p = b + HEADER" "allocates h bs n h' b bs'" by auto
  then show ?case using run_inv_alloc [OF inv] by blast
next
  case (refused h live val got junk n h')
  then obtain bs where inv: "run_inv h live val bs" by blast
  then have hi: "heap_inv h bs" by (simp add: run_inv_def)
  from kmalloc_correct [OF this, of got junk n] refused.hyps(2)
  have h': "heap_inv h' bs" "\<forall>x<heap_end h. mem h' x = mem h x" "poison_damage h' = poison_damage h" by auto
  have same: "mem h' x = v" if l: "(q, m) \<in> live" and x: "q \<le> x" "x < q + m" "val x = Some v" for q m x v
  proof -
    obtain c j where c: "q = c + HEADER" "m + HEADER \<le> j" "(c, j) \<in> in_use bs" using inv l by (auto simp: run_inv_def)
    have "x < heap_end h" using in_use_facts(2) [OF hi c(3)] c(1,2) x(2) by auto
    then show ?thesis using inv l x h'(2) by (auto simp: run_inv_def)
  qed
  have "run_inv h' live val bs" by (rule run_invI [OF h'(1) _ same]) (use h'(3) inv in \<open>auto simp: run_inv_def\<close>)
  then show ?case by blast
next
  case (free h live val p n h' r)
  then show ?case using run_inv_free by blast
next
  case (free_null h live val h' r)
  then show ?case by (auto simp: kfree_def)
next
  case (store h live val p n x v)
  then show ?case using run_inv_store by blast
qed


text \<open>
  C1. In every run of the kernel heap from boot, with pages to be had or not, the heap's own check of itself passes and no
  damage to free memory is ever found; every live allocation is aligned to 16 bytes and lies inside the heap, no two of
  them overlap, and each holds what was last stored into it.
\<close>

theorem kheap_sound:
  assumes "heap_run h live val"
  shows "kheap_check h = Some True \<and> poison_damage h = 0
    \<and> (\<forall>p n. (p, n) \<in> live \<longrightarrow> 16 dvd p \<and> KHEAP_START_VIRT < p \<and> p + n \<le> heap_end h)
    \<and> (\<forall>p n q m. (p, n) \<in> live \<longrightarrow> (q, m) \<in> live \<longrightarrow> (p, n) = (q, m) \<or> p + n < q \<or> q + m < p)
    \<and> (\<forall>p n x v. (p, n) \<in> live \<longrightarrow> p \<le> x \<longrightarrow> x < p + n \<longrightarrow> val x = Some v \<longrightarrow> mem h x = v)"
proof -
  obtain bs where inv: "run_inv h live val bs" using heap_run_inv [OF assms] by blast
  then have hi: "heap_inv h bs" and inj: "inj_on fst live" by (simp_all add: run_inv_def)
  have own: "\<exists>b k. p = b + HEADER \<and> n + HEADER \<le> k \<and> (b, k) \<in> in_use bs" if "(p, n) \<in> live" for p n using inv that by (auto simp: run_inv_def)
  have "16 dvd p \<and> KHEAP_START_VIRT < p \<and> p + n \<le> heap_end h" if l: "(p, n) \<in> live" for p n
  proof -
    obtain b k where b: "p = b + HEADER" "n + HEADER \<le> k" "(b, k) \<in> in_use bs" using own [OF l] by blast
    show ?thesis using in_use_facts [OF hi b(3)] in_use_aligned [OF hi b(3)] b(1,2) by auto
  qed
  moreover have "(p, n) = (q, m) \<or> p + n < q \<or> q + m < p" if l: "(p, n) \<in> live" "(q, m) \<in> live" for p n q m
  proof -
    obtain b k where b: "p = b + HEADER" "n + HEADER \<le> k" "(b, k) \<in> in_use bs" using own [OF l(1)] by blast
    obtain c j where c: "q = c + HEADER" "m + HEADER \<le> j" "(c, j) \<in> in_use bs" using own [OF l(2)] by blast
    have "b = c \<Longrightarrow> (p, n) = (q, m)" using inj_onD [OF inj, of "(p, n)" "(q, m)"] l b(1) c(1) by simp
    then show ?thesis using in_use_disjoint [OF hi b(3) c(3)] b(1,2) c(1,2) by auto
  qed
  moreover have "mem h x = v" if "(p, n) \<in> live" "p \<le> x" "x < p + n" "val x = Some v" for p n x v using inv that by (auto simp: run_inv_def)
  moreover have "poison_damage h = 0" using inv by (simp add: run_inv_def)
  ultimately show ?thesis using kheap_check_ok [OF hi] by blast
qed

lemma kmalloc_pointer:
  assumes "heap_inv h bs" and "0 < n" "n \<le> KHEAP_MAX_ALLOC" "\<And>i. got i"
  obtains h' b bs' where "kmalloc got junk n h = Some (h', Pointer (b + HEADER))" "allocates h bs n h' b bs'"
  using kmalloc_correct [OF assms(1), of got junk n] assms(2-4) by auto

lemma example_run: "\<exists>h p. heap_run h {(p, 100)} (\<lambda>x. if x = p + 7 then Some 42 else None)"
proof -
  define h0 where "h0 = kheap_init (\<lambda>_. True) (\<lambda>_. 0) (heap_boot (\<lambda>_. 0))"
  have run0: "heap_run h0 {} (\<lambda>_. None)" unfolding h0_def by (rule heap_run.boot) simp
  have inv0: "heap_inv h0 [(KHEAP_START_VIRT, KHEAP_INITIAL_SIZE, True)]" unfolding h0_def by (rule kheap_init_inv) simp
  obtain h1 b bs where "kmalloc (\<lambda>_. True) (\<lambda>_. 0) 100 h0 = Some (h1, Pointer (b + HEADER))"
    by (rule kmalloc_pointer [OF inv0, of 100 "\<lambda>_. True" "\<lambda>_. 0"]) simp_all
  from heap_run.alloc [OF run0 this] have run1: "heap_run h1 {(b + HEADER, 100)} (\<lambda>_. None)" by simp
  have "heap_run (h1\<lparr>mem := (mem h1)(b + HEADER + 7 := 42)\<rparr>) {(b + HEADER, 100)} ((\<lambda>_. None)(b + HEADER + 7 := Some 42))"
    by (rule heap_run.store [OF run1, of "b + HEADER" 100]) simp_all
  then show ?thesis by (intro exI [of _ "h1\<lparr>mem := (mem h1)(b + HEADER + 7 := 42)\<rparr>"] exI [of _ "b + HEADER"]) (simp add: fun_upd_def)
qed

theorem kheap_sound_witness:
  "\<exists>h p. heap_run h {(p, 100)} (\<lambda>x. if x = p + 7 then Some 42 else None) \<and> kheap_check h = Some True \<and> mem h (p + 7) = 42 \<and> 16 dvd p"
proof -
  obtain h p where run: "heap_run h {(p, 100)} (\<lambda>x. if x = p + 7 then Some 42 else None)" using example_run by blast
  then show ?thesis using kheap_sound [OF run] by (intro exI [of _ h] exI [of _ p]) simp
qed

text \<open>
  A freed block that was merged into a large free block before it, the last one, can end up behind the end of
  the heap: the pages after the part that is kept are given back, with the header a second
  free of the block would look at.
\<close>

lemma trim_cuts_off:
  assumes "PAGE_SIZE dvd heap_end h" and "last_block h = Some b" and "KHEAP_TRIM_THRESHOLD \<le> size_of h b"
    and "page_align_up (b + HEADER + KHEAP_TRIM_KEEP) < p" and "KHEAP_START_VIRT + KHEAP_INITIAL_SIZE < p" and "p \<le> heap_end h"
  shows "heap_end (trim b h) < p"
proof -
  define e where "e = max (page_align_up (b + HEADER + KHEAP_TRIM_KEEP)) (KHEAP_START_VIRT + KHEAP_INITIAL_SIZE)"
  have "PAGE_SIZE dvd e" by (auto simp: e_def max_def page_align_up_def)
  moreover have "e < heap_end h" "e < p" using assms(4-6) by (auto simp: e_def)
  ultimately show ?thesis
    using assms(1-3) shrink_heap_to [OF assms(1), of e] unfolding trim_def Let_def e_def [symmetric] by (simp add: set_size_def)
qed



end
