(* ===== verification/Spec2Isabelle.thy ===== *)
theory Spec2Isabelle
  imports Cow Kstring Walltime Krandom Pipe Klog Tty Keyboard Mouse Udate Uresolve Uenv Umalloc Uprintf Elf Ipfrag Signal Bcache Heap
begin

text \<open>
  A verification of BashketKernel, a 64-bit kernel for x86 machines written in C, and of the library its user programs
  are linked with. Paths are those of the repository under \<^verbatim>\<open>src/\<close>.

  \<^bold>\<open>The program.\<close> The kernel manages physical memory by a bitmap of frames with a table of owner counts beside it,
  and has a heap of its own for kernel objects. It loads ELF programs, delivers signals to them and moves their data through pipes,
  the terminal, a cache of disk sectors and an IP stack. A time of day, a random number generator and a message log serve the
  rest. User programs call the kernel through a small C library with its own allocator, formatter, calendar,
  environment and name resolver.

  \<^bold>\<open>How the code is modelled.\<close> A C structure or the static variables of a file are a \<open>record\<close>, an enumeration is a
  \<open>datatype\<close>, and every C function is a function of the same name that takes the state and returns the new one. An operation that
  can fail returns \<open>errno + 'a\<close> or an option, with a branch for each early return. Integers have their width
  (\<^typ>\<open>u8\<close>, \<^typ>\<open>u16\<close>, \<^typ>\<open>u32\<close>, \<^typ>\<open>u64\<close>) where they wrap around or are used as bits, and
  are natural numbers or integers where they are sizes, indices or addresses far from the limits. What a device, the processor or another
  part of the system answers is an argument of the definitions that use it. A call that holds a lock from its
  start to its end is one step; a call that lets go of the lock in between is as many steps as it has holdings, and
  theorems about such calls are about every order of the steps.

  \<^bold>\<open>Foundations.\<close>
  \<^item> \<open>Prelude\<close>: machine types, error numbers of \<^verbatim>\<open>src/include/kerrno.h\<close>, shared lemmas.
  \<^item> \<open>Bytes\<close>: integers in byte buffers, both byte orders.
  \<^item> \<open>Ring\<close>: circular buffers, with the locales \<open>bounded_fifo\<close> and \<open>fifo_loops\<close>, interpreted on the pipe's and the other queues.
  \<^item> \<open>Bitset\<close>: the locale of a table of bits, which the frame allocator interprets on its bitmap.

  \<^bold>\<open>Memory.\<close>
  \<^item> \<open>Pmm\<close>: \<^verbatim>\<open>src/mm/pmm.c\<close>. The bitmap and the counters agree after \<open>pmm_init\<close> and after every operation; an
    allocation finds a run of free frames whenever there is one, and frees undo it; freeing a free frame is noticed.
  \<^item> \<open>Cow\<close>: \<^verbatim>\<open>src/mm/cow.c\<close>. A frame goes back when its last owner lets go, as long as the count of 16 bits does
    not wrap around; it is also shown that it can.
  \<^item> \<open>Heap\<close>: \<^verbatim>\<open>src/mm/heap.c\<close>. Boundary tags and free lists stay consistent under every operation, live
    blocks are apart from each other, aligned, inside the heap and as long as was asked for, their contents survive the operations on
    others, and a request that fits or can be grown for is served.
  \<^item> \<open>Kstring\<close>: \<^verbatim>\<open>lib/string.c\<close>, over a memory of bytes. Copies of overlapping blocks are right in both directions.

  \<^bold>\<open>Programs and signals.\<close>
  \<^item> \<open>Elf\<close>: \<^verbatim>\<open>src/fs/elf.c\<close>, \<^verbatim>\<open>src/fs/elf_dyn.c\<close>. A file, whatever is in it, is loaded into user space or refused;
    the memory manager is an argument.
  \<^item> \<open>Signal\<close>: \<^verbatim>\<open>src/kernel/proc/signal.c\<close>, with the operations of \<^verbatim>\<open>src/kernel/sched/sched.c\<close> it uses.
    A handler gives the program no privilege, returning from one restores the registers, and signals that may not be caught are not.

  \<^bold>\<open>Data in motion.\<close>
  \<^item> \<open>Pipe\<close>: \<^verbatim>\<open>src/fs/pipe.c\<close>. What readers take out, in every order of calls, is what writers put in.
  \<^item> \<open>Keyboard\<close>, \<open>Mouse\<close>, \<open>Tty\<close>: \<^verbatim>\<open>src/drivers/input/keyboard.c\<close>, \<^verbatim>\<open>mouse.c\<close>, \<^verbatim>\<open>src/drivers/tty/tty.c\<close>. Typed
    characters arrive in order, movements add up, and a line read is the line edited.
  \<^item> \<open>Bcache\<close>: \<^verbatim>\<open>src/drivers/block/bcache.c\<close>. In every interleaving the cache shows what the disk holds.
  \<^item> \<open>Ipfrag\<close>: \<^verbatim>\<open>src/net/ipfrag.c\<close>. A datagram handed up is one that was sent, and a datagram whose fragments all arrive in time is.

  \<^bold>\<open>Time, chance and the log.\<close>
  \<^item> \<open>Date\<close>, \<open>Rtc\<close>, \<open>Walltime\<close>: \<^verbatim>\<open>lib/time/date.c\<close>, \<^verbatim>\<open>src/drivers/char/rtc.c\<close>, \<^verbatim>\<open>src/kernel/time/walltime.c\<close>.
  \<^item> \<open>Sha256\<close>, \<open>Chacha20\<close>, \<open>Krandom\<close>: \<^verbatim>\<open>lib/crypto\<close>, \<^verbatim>\<open>src/drivers/char/random.c\<close>, against the published definitions.
  \<^item> \<open>Klog\<close>: \<^verbatim>\<open>src/kernel/log/klog.c\<close>.

  \<^bold>\<open>The user library\<close>, \<^verbatim>\<open>user/lib/ulib.c\<close>: \<open>Ctext\<close> (strings and numbers), \<open>Udate\<close>, \<open>Uip\<close>, \<open>Udns\<close>, \<open>Uresolve\<close>,
  \<open>Uenv\<close>, \<open>Umalloc\<close> and \<open>Uprintf\<close>. Round trips of the text forms, safety of reading messages from the network, the environment
  as a map, disjoint blocks, and a formatter that prints what its format says.

  \<^bold>\<open>Bounds and termination.\<close> Loops are structural recursion or come with a measure, and no definition runs on fuel. The loops that
  follow pointers or look for a terminating zero (\<open>Kstring\<close>, the walks of \<open>Heap\<close>) need not end in every memory: they are partial
  functions into an option, and the theorems about them show that they return. Loops that wait for a device or for another task take the
  answers as a list, so they end with it.

  \<^bold>\<open>Not modelled.\<close> Descriptor tables, interrupt entry, context switches and the start of other processors are assembly and register
  accesses whose meaning is the processor's. Device drivers below the sector cache and below the IP stack are exchanges with a device
  through ports and shared memory. The file systems (\<^verbatim>\<open>src/fs/ext2.c\<close>, \<^verbatim>\<open>fat32.c\<close>, \<^verbatim>\<open>vfs.c\<close>, \<^verbatim>\<open>procfs.c\<close>), TCP
  (\<^verbatim>\<open>src/net/tcp.c\<close>), the scheduler but for what signals use of it, and the system call table are large parts of their own; the
  components they rest on are modelled. User programs are clients of the library.
\<close>

end
